(* ===== verification/Prelude.thy ===== *)
theory Prelude
  imports Complex_Main "HOL-Library.Word"
begin

text \<open>
  What the component theories share: the names of the machine types, the conversions
  between characters and bytes, and generic lemmas on lists, suffixes of lists, digits
  and powers. A \<open>std::string\<close> is a \<^typ>\<open>string\<close>: an Isabelle \<^typ>\<open>char\<close> is
  exactly one octet, as a C++ \<open>char\<close> is, and \<open>of_char c :: nat\<close> is the value of
  the C++ cast to \<open>unsigned char\<close>.
\<close>

unbundle bit_operations_syntax

section \<open>Machine types\<close>

type_synonym byte = "8 word"
type_synonym uint32 = "32 word"
type_synonym uint64 = "64 word"
type_synonym int64 = "64 word"

text \<open>
  Collections of simplification rules: how the reader's operations act on the text that is
  still ahead of them, how the encoders compose, and how each operation changes the
  fields of the state.
\<close>

named_theorems reader_steps
named_theorems frame_rules

section \<open>Characters and bytes\<close>

definition ucode :: "char \<Rightarrow> nat" where
  "ucode c = of_char c"

lemma ucode_less [simp]: "ucode c < 256"
  by (simp add: ucode_def)

lemma ucode_inject [simp]: "ucode c = ucode d \<longleftrightarrow> c = d"
  by (simp add: ucode_def)

lemma char_of_ucode [simp]: "char_of (ucode c) = c"
  by (simp add: ucode_def)

lemma ucode_Char [simp]:
  "ucode (Char b0 b1 b2 b3 b4 b5 b6 b7) = of_char (Char b0 b1 b2 b3 b4 b5 b6 b7)"
  by (simp add: ucode_def)

lemma ucode_char_of: "n < 256 \<Longrightarrow> ucode (char_of n) = n"
  by (simp add: ucode_def)

definition as_byte :: "char \<Rightarrow> byte" where
  "as_byte c = word_of_nat (ucode c)"

definition as_char :: "byte \<Rightarrow> char" where
  "as_char b = char_of (unat b)"

lemma as_char_as_byte [simp]: "as_char (as_byte c) = c"
  by (simp add: as_char_def as_byte_def unat_of_nat)

lemma as_byte_as_char [simp]: "as_byte (as_char b) = b"
proof -
  have "unat b < 256"
    using unsigned_less [of b, where ?'a = nat] by simp
  then show ?thesis
    by (simp add: as_char_def as_byte_def ucode_char_of)
qed

lemma map_as_char_as_byte [simp]: "map (as_char \<circ> as_byte) s = s"
  by (induction s) simp_all

end
