(* ===== verification/Binary64.thy ===== *)
theory Binary64
  imports Prelude
begin

text \<open>
  The C++ type \<open>double\<close> as IEEE 754 binary64, which every platform the program is
  built for uses, with rounding to nearest, ties to even. A value is its sign bit and the
  remaining 63 bits (exponent field above the fraction field), so that every bit pattern is
  a value and equality of values is equality of bits. The 63 bits read as a number are the
  \<^emph>\<open>index\<close> of the magnitude: index \<open>0\<close> is zero, the finite magnitudes follow in increasing
  order, \<open>2047 * 2\<^sup>5\<^sup>2\<close> is infinity and everything above is NaN. Operations compute on
  exact fractions of natural numbers and round once; the lemmas relate them to the reals.
\<close>

section \<open>Representation\<close>

datatype double = Double (negative: bool) (magnitude: "63 word")

definition index :: "double \<Rightarrow> nat" where
  "index d = unat (magnitude d)"

definition inf_index :: nat where
  "inf_index = 2047 * 2 ^ 52"

definition is_finite :: "double \<Rightarrow> bool" where
  "is_finite d \<longleftrightarrow> index d < inf_index"

definition is_inf :: "double \<Rightarrow> bool" where
  "is_inf d \<longleftrightarrow> index d = inf_index"

definition is_nan :: "double \<Rightarrow> bool" where
  "is_nan d \<longleftrightarrow> index d > inf_index"

definition is_zero :: "double \<Rightarrow> bool" where
  "is_zero d \<longleftrightarrow> index d = 0"

text \<open>Significand and exponent of the unit in the last place of the magnitude with index \<open>i\<close>.\<close>

definition sig :: "nat \<Rightarrow> nat" where
  "sig i = (if i < 2 ^ 52 then i else 2 ^ 52 + i mod 2 ^ 52)"

definition ulp_exp :: "nat \<Rightarrow> int" where
  "ulp_exp i = int (max 1 (i div 2 ^ 52)) - 1075"

definition mag_value :: "nat \<Rightarrow> real" where
  "mag_value i = real (sig i) * 2 powi ulp_exp i"

definition valof :: "double \<Rightarrow> real" where
  "valof d = (if negative d then - 1 else 1) * mag_value (index d)"

definition of_index :: "bool \<Rightarrow> nat \<Rightarrow> double" where
  "of_index s i = Double s (word_of_nat i)"

definition dnan :: double where
  "dnan = of_index False (inf_index + 2 ^ 51)"

definition dinf :: "bool \<Rightarrow> double" where
  "dinf s = of_index s inf_index"

definition dzero :: "bool \<Rightarrow> double" where
  "dzero s = of_index s 0"

section \<open>Rounding an exact fraction\<close>

fun ilog2 :: "nat \<Rightarrow> nat" where
  "ilog2 n = (if n < 2 then 0 else Suc (ilog2 (n div 2)))"

declare ilog2.simps [simp del]

definition pow2_le :: "int \<Rightarrow> nat \<Rightarrow> nat \<Rightarrow> bool" where
  "pow2_le k n d \<longleftrightarrow> (if 0 \<le> k then d * 2 ^ nat k \<le> n else d \<le> n * 2 ^ nat (- k))"

text \<open>The greatest \<open>k\<close> with \<open>2\<^sup>k \<le> n / d\<close>.\<close>

definition flog2 :: "nat \<Rightarrow> nat \<Rightarrow> int" where
  "flog2 n d = (let k = int (ilog2 n) - int (ilog2 d) in if pow2_le k n d then k else k - 1)"

text \<open>The integer nearest to \<open>n / d\<close>, the even one of two equally near.\<close>

definition rne_div :: "nat \<Rightarrow> nat \<Rightarrow> nat" where
  "rne_div n d =
     (let q = n div d; r = n mod d
      in if 2 * r < d then q else if d < 2 * r then q + 1 else if even q then q else q + 1)"

definition rne_scaled :: "int \<Rightarrow> nat \<Rightarrow> nat \<Rightarrow> nat" where
  "rne_scaled e n d = (if 0 \<le> e then rne_div n (d * 2 ^ nat e) else rne_div (n * 2 ^ nat (- e)) d)"

definition round_mag :: "nat \<Rightarrow> nat \<Rightarrow> nat" where
  "round_mag n d =
     (if n = 0 then 0
      else let e = max (- 1074) (flog2 n d - 52)
           in nat (e + 1074) * 2 ^ 52 + rne_scaled e n d)"

definition round_frac :: "bool \<Rightarrow> nat \<Rightarrow> nat \<Rightarrow> double" where
  "round_frac s n d = of_index s (min (round_mag n d) inf_index)"

section \<open>The value of an index\<close>

lemma index_of_index [simp]: "i < 2 ^ 63 \<Longrightarrow> index (of_index s i) = i"
  by (simp add: index_def of_index_def unat_of_nat)

lemma negative_of_index [simp]: "negative (of_index s i) = s"
  by (simp add: of_index_def)

lemma of_index_index [simp]: "of_index (negative d) (index d) = d"
  by (cases d) (simp add: index_def of_index_def)

lemma index_less: "index d < 2 ^ 63"
  using unsigned_less [of "magnitude d", where ?'a = nat] by (simp add: index_def)

lemma double_eqI: "negative a = negative b \<Longrightarrow> index a = index b \<Longrightarrow> a = b"
  by (cases a; cases b) (simp add: index_def word_unat_eq_iff)

lemma div_mod_Suc_52:
  "(Suc i mod 2 ^ 52 = Suc (i mod 2 ^ 52) \<and> Suc i div 2 ^ 52 = i div 2 ^ 52) \<or>
   (i mod 2 ^ 52 = 2 ^ 52 - 1 \<and> Suc i mod 2 ^ 52 = 0 \<and> Suc i div 2 ^ 52 = Suc (i div 2 ^ 52))"
  by (auto simp: mod_Suc div_Suc)

lemma index_decompose: "nat (ulp_exp i + 1074) * 2 ^ 52 + sig i = i"
proof (cases "i < 2 ^ 52")
  case True
  then show ?thesis by (simp add: ulp_exp_def sig_def)
next
  case False
  then have "1 \<le> i div 2 ^ 52"
    by (simp add: Suc_le_eq div_greater_zero_iff)
  then have e: "nat (ulp_exp i + 1074) = i div 2 ^ 52 - 1"
    by (simp add: ulp_exp_def)
  have "i = (i div 2 ^ 52) * 2 ^ 52 + i mod 2 ^ 52"
    by simp
  with \<open>1 \<le> i div 2 ^ 52\<close> False show ?thesis
    unfolding e sig_def by (simp add: diff_mult_distrib)
qed

lemma sig_less: "sig i < 2 ^ 53"
  by (auto simp: sig_def intro: less_le_trans [of _ "2 ^ 52 + 2 ^ 52"])

lemma sig_ge: "2 ^ 52 \<le> i \<Longrightarrow> 2 ^ 52 \<le> sig i"
  by (simp add: sig_def)

lemma even_sig [simp]: "even (sig i) \<longleftrightarrow> even i"
proof -
  have "even (nat (ulp_exp i + 1074) * 2 ^ 52 + sig i) \<longleftrightarrow> even (sig i)"
    by simp
  then show ?thesis by (simp only: index_decompose)
qed

lemma ulp_exp_ge: "- 1074 \<le> ulp_exp i"
  by (simp add: ulp_exp_def)

lemma powi_add_real: "2 powi (a + b) = (2 powi a * 2 powi b :: real)"
  by (simp add: power_int_add)

lemma powi2_pos: "0 < (2::real) powi a"
  by simp

lemma powi2_less_iff: "(2::real) powi a < 2 powi b \<longleftrightarrow> a < b"
proof
  assume l: "(2::real) powi a < 2 powi b"
  show "a < b"
  proof (rule ccontr)
    assume "\<not> a < b"
    then have "(2::real) powi b \<le> 2 powi a"
      by (intro power_int_increasing) simp_all
    with l show False by simp
  qed
qed (rule power_int_strict_increasing; simp)

lemma powi2_le_iff: "(2::real) powi a \<le> 2 powi b \<longleftrightarrow> a \<le> b"
  using powi2_less_iff [of b a] by (simp add: linorder_not_less [symmetric])

lemma mag_value_Suc: "mag_value (Suc i) = mag_value i + 2 powi ulp_exp i"
  using div_mod_Suc_52 [of i]
proof (elim disjE conjE)
  assume s: "Suc i mod 2 ^ 52 = Suc (i mod 2 ^ 52)" "Suc i div 2 ^ 52 = i div 2 ^ 52"
  then have "sig (Suc i) = Suc (sig i)"
    using index_decompose [of i] index_decompose [of "Suc i"] by (simp add: ulp_exp_def)
  with s show ?thesis by (simp add: mag_value_def ulp_exp_def algebra_simps)
next
  assume s: "i mod 2 ^ 52 = 2 ^ 52 - 1" "Suc i mod 2 ^ 52 = 0" "Suc i div 2 ^ 52 = Suc (i div 2 ^ 52)"
  show ?thesis
  proof (cases "i < 2 ^ 52")
    case True
    with s have "i = 2 ^ 52 - 1" by simp
    then show ?thesis by (simp add: mag_value_def ulp_exp_def sig_def)
  next
    case False
    then have q: "1 \<le> i div 2 ^ 52"
      by (simp add: Suc_le_eq div_greater_zero_iff)
    then have e: "ulp_exp (Suc i) = ulp_exp i + 1"
      using s by (simp add: ulp_exp_def)
    have "sig i = 2 ^ 53 - 1" "sig (Suc i) = 2 ^ 52"
      using False s by (simp_all add: sig_def)
    then show ?thesis unfolding mag_value_def e powi_add_real by simp
  qed
qed

lemma mag_value_0 [simp]: "mag_value 0 = 0"
  by (simp add: mag_value_def sig_def)

lemma mag_value_less_Suc: "mag_value i < mag_value (Suc i)"
  by (simp add: mag_value_Suc)

lemma strict_mono_mag_value: "strict_mono mag_value"
  by (rule strict_mono_Suc_iff [THEN iffD2]) (simp add: mag_value_less_Suc)

lemma mag_value_less_iff [simp]: "mag_value i < mag_value j \<longleftrightarrow> i < j"
  by (rule strict_mono_less [OF strict_mono_mag_value])

lemma mag_value_le_iff [simp]: "mag_value i \<le> mag_value j \<longleftrightarrow> i \<le> j"
  by (rule strict_mono_less_eq [OF strict_mono_mag_value])

lemma mag_value_eq_iff [simp]: "mag_value i = mag_value j \<longleftrightarrow> i = j"
  by (rule strict_mono_eq [OF strict_mono_mag_value])

lemma mag_value_nonneg [simp]: "0 \<le> mag_value i"
  by (simp add: mag_value_def)

lemma mag_value_ge_scaled: "real i * 2 powi (- 1074) \<le> mag_value i"
proof (induction i)
  case (Suc i)
  have "(2::real) powi (- 1074) \<le> 2 powi ulp_exp i"
    by (rule power_int_increasing) (simp_all add: ulp_exp_ge)
  with Suc show ?case by (simp add: mag_value_Suc algebra_simps)
qed simp

text \<open>Every nonnegative real lies in exactly one interval between neighbouring magnitudes.\<close>

lemma mag_value_bracket:
  fixes x :: real
  assumes "0 \<le> x"
  obtains i where "mag_value i \<le> x" and "x < mag_value (Suc i)"
proof -
  obtain n :: nat where n: "x / 2 powi (- 1074) < real n"
    using reals_Archimedean2 by blast
  then have "x < real n * 2 powi (- 1074)"
    by (simp add: field_simps)
  then have ex: "x < mag_value n"
    using mag_value_ge_scaled [of n] by linarith
  define m where "m = (LEAST n. x < mag_value n)"
  have m: "x < mag_value m"
    unfolding m_def using ex by (rule LeastI)
  have "m \<noteq> 0"
    using m assms by (intro notI) simp
  then obtain i where i: "m = Suc i"
    using not0_implies_Suc by blast
  have "\<not> x < mag_value i"
    using i unfolding m_def by (intro not_less_Least) simp
  with m i show ?thesis
    by (intro that [of i]) simp_all
qed

section \<open>Rounding is to nearest, ties to even\<close>

lemma ilog2_bounds: "0 < n \<Longrightarrow> 2 ^ ilog2 n \<le> n \<and> n < 2 ^ Suc (ilog2 n)"
proof (induction n rule: ilog2.induct)
  case (1 n)
  show ?case
  proof (cases "n < 2")
    case True
    with 1 show ?thesis by (simp add: ilog2.simps [of n])
  next
    case False
    with 1 have "2 ^ ilog2 (n div 2) \<le> n div 2" "n div 2 < 2 ^ Suc (ilog2 (n div 2))"
      by auto
    then have "2 * 2 ^ ilog2 (n div 2) \<le> n \<and> n < 4 * 2 ^ ilog2 (n div 2)"
      by auto
    then show ?thesis
      using False by (simp add: ilog2.simps [of n])
  qed
qed

lemma pow2_le_iff: "0 < d \<Longrightarrow> pow2_le k n d \<longleftrightarrow> 2 powi k \<le> real n / real d"
proof (cases "0 \<le> k")
  case True
  assume "0 < d"
  have "pow2_le k n d \<longleftrightarrow> real (d * 2 ^ nat k) \<le> real n"
    unfolding of_nat_le_iff using True by (simp add: pow2_le_def)
  also have "\<dots> \<longleftrightarrow> 2 powi k \<le> real n / real d"
    using True \<open>0 < d\<close> by (simp add: power_int_def field_simps)
  finally show ?thesis .
next
  case False
  assume "0 < d"
  have "pow2_le k n d \<longleftrightarrow> real d \<le> real (n * 2 ^ nat (- k))"
    unfolding of_nat_le_iff using False by (simp add: pow2_le_def)
  also have "\<dots> \<longleftrightarrow> 2 powi k \<le> real n / real d"
    using False \<open>0 < d\<close> by (simp add: power_int_def field_simps)
  finally show ?thesis .
qed

lemma flog2_bounds:
  assumes "0 < n" "0 < d"
  shows "2 powi flog2 n d \<le> real n / real d" "real n / real d < 2 powi (flog2 n d + 1)"
proof -
  define a b where "a = ilog2 n" and "b = ilog2 d"
  have n: "2 ^ a \<le> real n" "real n < 2 * 2 ^ a"
    using ilog2_bounds [OF assms(1)] unfolding a_def
    by (metis of_nat_le_iff of_nat_numeral of_nat_power, metis of_nat_less_iff of_nat_numeral of_nat_power power_Suc)
  have d: "2 ^ b \<le> real d" "real d < 2 * 2 ^ b"
    using ilog2_bounds [OF assms(2)] unfolding b_def
    by (metis of_nat_le_iff of_nat_numeral of_nat_power, metis of_nat_less_iff of_nat_numeral of_nat_power power_Suc)
  have p: "2 powi (int a - int b) = (2 ^ a / 2 ^ b :: real)"
    by (simp add: power_int_diff)
  have up: "real n / real d < 2 powi (int a - int b + 1)"
  proof -
    have "real n / real d < (2 * 2 ^ a) / 2 ^ b"
      using n d assms by (intro frac_less) auto
    then show ?thesis unfolding powi_add_real p by (simp add: mult.commute)
  qed
  have lo: "2 powi (int a - int b - 1) \<le> real n / real d"
  proof -
    have "2 ^ a / (2 * 2 ^ b) \<le> real n / real d"
      using n d assms by (intro frac_le) auto
    then show ?thesis by (simp add: power_int_diff)
  qed
  show "2 powi flog2 n d \<le> real n / real d" "real n / real d < 2 powi (flog2 n d + 1)"
    using up lo pow2_le_iff [OF assms(2), of "int a - int b" n]
    by (auto simp: flog2_def Let_def a_def b_def)
qed

lemma flog2_unique:
  assumes "0 < n" "0 < d" "2 powi k \<le> real n / real d" "real n / real d < 2 powi (k + 1)"
  shows "flog2 n d = k"
proof -
  have "(2::real) powi k < 2 powi (flog2 n d + 1)" "(2::real) powi flog2 n d < 2 powi (k + 1)"
    using flog2_bounds [OF assms(1,2)] assms(3,4) by linarith+
  then have "k < flog2 n d + 1" "flog2 n d < k + 1"
    by (simp_all only: powi2_less_iff)
  then show ?thesis by simp
qed

lemma rne_div_between:
  assumes "0 < d" "real q \<le> real n / real d" "real n / real d < real q + 1"
  shows "rne_div n d =
    (if real n / real d < real q + 1 / 2 then q
     else if real q + 1 / 2 < real n / real d then q + 1
     else if even q then q else q + 1)"
proof -
  have "n div d = q"
  proof -
    have "real (q * d) \<le> real n" "real n < real ((q + 1) * d)"
      using assms by (simp_all add: field_simps)
    then have "q * d \<le> n" "n < (q + 1) * d"
      by (simp_all only: of_nat_le_iff of_nat_less_iff)
    then show ?thesis
      by (intro div_nat_eqI) (simp_all add: mult.commute)
  qed
  then have n: "n = q * d + n mod d"
    by (metis div_mult_mod_eq)
  then have x: "real n / real d = real q + real (n mod d) / real d"
  proof -
    have "real n = real q * real d + real (n mod d)"
      by (subst n) simp
    with assms(1) show ?thesis by (simp add: add_divide_distrib)
  qed
  have "2 * (n mod d) < d \<longleftrightarrow> real (n mod d) / real d < 1 / 2"
    "d < 2 * (n mod d) \<longleftrightarrow> 1 / 2 < real (n mod d) / real d"
    using assms(1) by (auto simp: field_simps)
  then show ?thesis
    unfolding rne_div_def Let_def x by (simp add: \<open>n div d = q\<close>)
qed

lemma rne_scaled_between:
  assumes "0 < d" "real q \<le> real n / real d / 2 powi e" "real n / real d / 2 powi e < real q + 1"
  shows "rne_scaled e n d =
    (if real n / real d / 2 powi e < real q + 1 / 2 then q
     else if real q + 1 / 2 < real n / real d / 2 powi e then q + 1
     else if even q then q else q + 1)"
proof (cases "0 \<le> e")
  case True
  then have eq: "real n / real d / 2 powi e = real n / real (d * 2 ^ nat e)"
    by (simp add: power_int_def)
  show ?thesis
    unfolding rne_scaled_def eq if_P [OF True]
    by (rule rne_div_between) (use assms in \<open>simp_all only: eq, simp\<close>)
next
  case False
  then have eq: "real n / real d / 2 powi e = real (n * 2 ^ nat (- e)) / real d"
    by (simp add: power_int_def field_simps)
  show ?thesis
    unfolding rne_scaled_def eq if_not_P [OF False]
    by (rule rne_div_between) (use assms in \<open>simp_all only: eq\<close>)
qed

lemma round_exponent:
  assumes "0 < n" "0 < d" "mag_value i \<le> real n / real d" "real n / real d < mag_value (Suc i)"
  shows "max (- 1074) (flog2 n d - 52) = ulp_exp i"
proof (cases "i < 2 ^ 52")
  case True
  then have "mag_value (Suc i) \<le> mag_value (2 ^ 52)"
    by (simp only: mag_value_le_iff Suc_le_eq)
  also have "\<dots> = 2 powi (- 1022)"
    by (simp add: mag_value_def sig_def ulp_exp_def power_int_minus field_simps)
  finally have "2 powi flog2 n d < (2::real) powi (- 1022)"
    using flog2_bounds(1) [OF assms(1,2)] assms(4) by linarith
  with True show ?thesis
    unfolding powi2_less_iff by (simp add: ulp_exp_def)
next
  case False
  then have "real (2 ^ 52) \<le> real (sig i)"
    by (simp only: of_nat_le_iff sig_ge not_less)
  then have "2 powi 52 * 2 powi ulp_exp i \<le> mag_value i"
    unfolding mag_value_def by (intro mult_right_mono) simp_all
  moreover have "mag_value (Suc i) \<le> 2 powi 53 * 2 powi ulp_exp i"
  proof -
    have "real (sig i + 1) \<le> real (2 ^ 53)"
      unfolding of_nat_le_iff using sig_less [of i] by simp
    then have "real (sig i + 1) * 2 powi ulp_exp i \<le> 2 powi 53 * 2 powi ulp_exp i"
      by (intro mult_right_mono) simp_all
    then show ?thesis unfolding mag_value_Suc unfolding mag_value_def by (simp add: algebra_simps)
  qed
  ultimately have "2 powi (52 + ulp_exp i) \<le> real n / real d"
    "real n / real d < 2 powi (52 + ulp_exp i + 1)"
    using assms(3,4) by (simp_all add: powi_add_real)
  then have "flog2 n d = 52 + ulp_exp i"
    by (rule flog2_unique [OF assms(1,2)])
  then show ?thesis using ulp_exp_ge [of i] by simp
qed

text \<open>
  The specification of the rounding function: between two neighbouring magnitudes it picks
  the nearer one, and at the midpoint the one with the even index.
\<close>

lemma round_mag_between:
  assumes "0 < d" "mag_value i \<le> real n / real d" "real n / real d < mag_value (Suc i)"
  shows "round_mag n d =
    (if real n / real d < mag_value i + 2 powi ulp_exp i / 2 then i
     else if mag_value i + 2 powi ulp_exp i / 2 < real n / real d then Suc i
     else if even i then i else Suc i)"
proof (cases "n = 0")
  case True
  with assms(2) have "mag_value i \<le> mag_value 0" by simp
  then have "i = 0" by (simp only: mag_value_le_iff)
  with True show ?thesis by (simp add: round_mag_def)
next
  case False
  define u :: real where "u = 2 powi ulp_exp i"
  define x where "x = real n / real d"
  have u: "0 < u" by (simp add: u_def)
  have v: "mag_value i = real (sig i) * u" "mag_value (Suc i) = (real (sig i) + 1) * u"
    unfolding mag_value_Suc unfolding mag_value_def by (simp_all add: u_def algebra_simps)
  have x: "real (sig i) \<le> x / u" "x / u < real (sig i) + 1"
    using assms(2,3) u by (simp_all add: v x_def [symmetric] field_simps)
  have "round_mag n d = nat (ulp_exp i + 1074) * 2 ^ 52 + rne_scaled (ulp_exp i) n d"
    using round_exponent [OF _ assms] False by (simp add: round_mag_def Let_def)
  also have "rne_scaled (ulp_exp i) n d =
      (if x / u < real (sig i) + 1 / 2 then sig i
       else if real (sig i) + 1 / 2 < x / u then sig i + 1
       else if even i then sig i else sig i + 1)"
    using rne_scaled_between [OF assms(1), of "sig i" n "ulp_exp i"] x
    by (simp add: x_def u_def)
  finally have r: "round_mag n d =
      (if x / u < real (sig i) + 1 / 2 then i
       else if real (sig i) + 1 / 2 < x / u then Suc i
       else if even i then i else Suc i)"
    using index_decompose [of i] by (simp split: if_splits)
  have "x / u < real (sig i) + 1 / 2 \<longleftrightarrow> x < mag_value i + u / 2"
    "real (sig i) + 1 / 2 < x / u \<longleftrightarrow> mag_value i + u / 2 < x"
    using u by (auto simp: v field_simps)
  with r show ?thesis by (simp add: x_def u_def)
qed

lemma round_mag_exact:
  assumes "0 < d" "real n / real d = mag_value i"
  shows "round_mag n d = i"
  using round_mag_between [of d i n] assms by (simp add: mag_value_less_Suc)

text \<open>A fraction closer to a magnitude than half the gap below it rounds to it.\<close>

lemma gap_below:
  "mag_value (Suc i) \<le> 2 ^ 53 * 2 powi ulp_exp i" "(2::real) powi ulp_exp i \<le> 2 powi ulp_exp (Suc i)"
proof -
  have "real (sig i + 1) \<le> real (2 ^ 53)"
    unfolding of_nat_le_iff using sig_less [of i] by simp
  then have "real (sig i + 1) * 2 powi ulp_exp i \<le> 2 ^ 53 * 2 powi ulp_exp i"
    by (intro mult_right_mono) simp_all
  then show "mag_value (Suc i) \<le> 2 ^ 53 * 2 powi ulp_exp i"
    unfolding mag_value_Suc unfolding mag_value_def by (simp add: algebra_simps)
  have "i div 2 ^ 52 \<le> Suc i div 2 ^ 52"
    by (rule div_le_mono) simp
  then have "ulp_exp i \<le> ulp_exp (Suc i)"
    unfolding ulp_exp_def by (simp only: zle_int max.mono diff_mono order_refl of_nat_le_iff)
  then show "(2::real) powi ulp_exp i \<le> 2 powi ulp_exp (Suc i)"
    by (simp only: powi2_le_iff)
qed

lemma round_mag_near:
  assumes d: "0 < d" and near: "\<bar>real n / real d - mag_value i\<bar> * 2 ^ 54 < mag_value i"
  shows "round_mag n d = i"
proof -
  define x where "x = real n / real d"
  have "0 < mag_value i"
    using near by (rule le_less_trans [rotated]) simp
  then obtain j where i: "i = Suc j"
    by (cases i) auto
  have half: "\<bar>x - mag_value i\<bar> < 2 powi ulp_exp j / 2"
    using gap_below(1) [of j] near by (simp add: i x_def)
  show ?thesis
  proof (cases "mag_value i \<le> x")
    case True
    have "x < mag_value i + 2 powi ulp_exp i / 2"
      using half gap_below(2) [of j] True by (simp add: i)
    moreover from this have "x < mag_value (Suc i)"
      using powi2_pos [of "ulp_exp i"] unfolding mag_value_Suc [of i] by linarith
    ultimately show ?thesis
      using round_mag_between [OF d, of i n] True by (simp add: x_def)
  next
    case False
    have "mag_value j + 2 powi ulp_exp j / 2 < x"
      using half False mag_value_Suc [of j] by (simp add: i)
    moreover from this have "mag_value j \<le> x"
      using powi2_pos [of "ulp_exp j"] by linarith
    ultimately show ?thesis
      using round_mag_between [OF d, of j n] False by (simp add: x_def i)
  qed
qed

lemma round_mag_cases:
  assumes "0 < d"
  obtains i where "mag_value i \<le> real n / real d" "real n / real d < mag_value (Suc i)"
    "round_mag n d = i \<or> round_mag n d = Suc i"
proof -
  obtain i where "mag_value i \<le> real n / real d" "real n / real d < mag_value (Suc i)"
    using mag_value_bracket [of "real n / real d"] by auto
  with assms that show ?thesis
    using round_mag_between [of d i n] by (metis (full_types))
qed

lemma round_mag_mono:
  assumes "0 < d" "0 < d'" "real n / real d \<le> real n' / real d'"
  shows "round_mag n d \<le> round_mag n' d'"
proof -
  obtain i where i: "mag_value i \<le> real n / real d" "real n / real d < mag_value (Suc i)"
    "round_mag n d = i \<or> round_mag n d = Suc i"
    using round_mag_cases [OF assms(1)] .
  obtain j where j: "mag_value j \<le> real n' / real d'" "real n' / real d' < mag_value (Suc j)"
    "round_mag n' d' = j \<or> round_mag n' d' = Suc j"
    using round_mag_cases [OF assms(2)] .
  have "mag_value i < mag_value (Suc j)"
    using i(1) j(2) assms(3) by linarith
  then have "i \<le> j"
    by (simp only: mag_value_less_iff less_Suc_eq_le)
  show ?thesis
  proof (cases "i = j")
    case True
    then show ?thesis
      using round_mag_between [OF assms(1) i(1,2)] round_mag_between [OF assms(2) j(1), folded True]
        j(2) assms(3) by (auto split: if_splits)
  next
    case False
    with \<open>i \<le> j\<close> i(3) j(3) show ?thesis by auto
  qed
qed

lemma round_mag_0 [simp]: "round_mag 0 d = 0"
  by (simp add: round_mag_def)

end
