(* ===== verification/Charconv.thy ===== *)
theory Charconv
  imports Binary64
begin

text \<open>
  The part of \<open><charconv>\<close> the program calls: \<open>std::to_chars\<close> and \<open>std::from_chars\<close> for
  64-bit integers, \<open>std::from_chars\<close> for a decimal token read as a \<open>double\<close> (correctly
  rounded; a nonzero token that rounds to zero or to infinity is out of range), and
  \<open>std::to_chars\<close> of a \<open>double\<close> in scientific notation (the shortest digit string that
  \<open>from_chars\<close> reads back to the same value, the nearest such string when there are two).
  The section on shortest digits proves that 17 digits always suffice.
\<close>

datatype 'a from_chars_result = Parsed 'a | Result_out_of_range | Invalid_argument

section \<open>Decimal digits\<close>

definition is_dec :: "char \<Rightarrow> bool" where
  "is_dec c \<longleftrightarrow> 48 \<le> ucode c \<and> ucode c \<le> 57"

definition digit_val :: "char \<Rightarrow> nat" where
  "digit_val c = ucode c - 48"

definition digit_char :: "nat \<Rightarrow> char" where
  "digit_char k = char_of (48 + k)"

fun nat_digits :: "nat \<Rightarrow> string" where
  "nat_digits n =
     (if n < 10 then [digit_char n] else nat_digits (n div 10) @ [digit_char (n mod 10)])"

declare nat_digits.simps [simp del]

definition digits_val :: "string \<Rightarrow> nat" where
  "digits_val s = foldl (\<lambda>a c. 10 * a + digit_val c) 0 s"

lemma is_dec_digit_char [simp]: "k < 10 \<Longrightarrow> is_dec (digit_char k)"
  by (simp add: is_dec_def digit_char_def ucode_char_of)

lemma digit_val_digit_char [simp]: "k < 10 \<Longrightarrow> digit_val (digit_char k) = k"
  by (simp add: digit_val_def digit_char_def ucode_char_of)

lemma digits_val_Nil [simp]: "digits_val [] = 0"
  by (simp add: digits_val_def)

lemma digits_val_snoc [simp]: "digits_val (s @ [c]) = 10 * digits_val s + digit_val c"
  by (simp add: digits_val_def)

lemma digits_val_append: "digits_val (s @ t) = digits_val s * 10 ^ length t + digits_val t"
proof (induction t rule: rev_induct)
  case (snoc c t)
  have "digits_val ((s @ t) @ [c]) = 10 * digits_val (s @ t) + digit_val c"
    by (rule digits_val_snoc)
  with snoc show ?case by (simp add: algebra_simps)
qed simp

lemma digits_val_Cons: "digits_val (c # s) = digit_val c * 10 ^ length s + digits_val s"
  using digits_val_append [of "[c]" s] by (simp add: digits_val_def)

lemma digit_char_0: "digit_char 0 = CHR ''0''"
  by code_simp

lemma digit_val_zero [simp]: "digit_val CHR ''0'' = 0"
  by (simp add: digit_val_def ucode_def)

lemma digits_val_zeros [simp]: "digits_val (replicate k CHR ''0'') = 0"
  by (induction k) (simp_all add: digits_val_Cons)

lemma digits_val_nat_digits [simp]: "digits_val (nat_digits n) = n"
proof (induction n rule: nat_digits.induct)
  case (1 n)
  then show ?case
    by (cases "n < 10") (simp_all add: nat_digits.simps [of n] digits_val_Cons)
qed

lemma nat_digits_dec: "\<forall>c \<in> set (nat_digits n). is_dec c"
proof (induction n rule: nat_digits.induct)
  case (1 n)
  then show ?case
    by (cases "n < 10") (auto simp: nat_digits.simps [of n])
qed

lemma nat_digits_nonempty [simp]: "nat_digits n \<noteq> []"
  by (subst nat_digits.simps) simp

lemma hd_nat_digits: "0 < n \<Longrightarrow> hd (nat_digits n) \<noteq> CHR ''0''"
proof (induction n rule: nat_digits.induct)
  case (1 n)
  show ?case
  proof (cases "n < 10")
    case True
    have "digit_char n \<noteq> CHR ''0''"
    proof
      assume "digit_char n = CHR ''0''"
      then have "digit_val (digit_char n) = 0" by simp
      with True "1.prems" show False by simp
    qed
    with True show ?thesis by (simp add: nat_digits.simps [of n])
  next
    case False
    with 1 show ?thesis by (simp add: nat_digits.simps [of n])
  qed
qed

lemma nat_digits_bounds: "n < 10 ^ length (nat_digits n)"
  "0 < n \<Longrightarrow> 10 ^ (length (nat_digits n) - 1) \<le> n"
proof (induction n rule: nat_digits.induct)
  case (1 n)
  {
    case 1
    show ?case
    proof (cases "n < 10")
      case False
      with "1.IH"(1) have "n div 10 < 10 ^ length (nat_digits (n div 10))" by simp
      then have "n < 10 * 10 ^ length (nat_digits (n div 10))" by linarith
      with False show ?thesis by (simp add: nat_digits.simps [of n])
    qed (simp add: nat_digits.simps [of n])
  next
    case 2
    show ?case
    proof (cases "n < 10")
      case False
      define l where "l = length (nat_digits (n div 10))"
      have "0 < l" by (simp add: l_def)
      from False "1.IH"(2) have "10 ^ (l - 1) \<le> n div 10" by (simp add: l_def)
      then have "10 * 10 ^ (l - 1) \<le> n" by linarith
      then have "10 ^ l \<le> n" using \<open>0 < l\<close> by (simp add: power_eq_if)
      with False show ?thesis by (simp add: nat_digits.simps [of n] l_def)
    qed (use 2 in \<open>simp add: nat_digits.simps [of n]\<close>)
  }
qed

lemma length_nat_digits_le: "n < 10 ^ k \<Longrightarrow> 0 < k \<Longrightarrow> length (nat_digits n) \<le> k"
proof (rule ccontr)
  assume a: "n < 10 ^ k" "0 < k" "\<not> length (nat_digits n) \<le> k"
  have "(10::nat) ^ k \<le> 10 ^ (length (nat_digits n) - 1)"
    using a by (intro power_increasing) auto
  moreover have "0 < n"
    using a by (intro Nat.gr0I) (simp add: nat_digits.simps [of 0])
  ultimately show False
    using nat_digits_bounds(2) [of n] a by linarith
qed

section \<open>64-bit integers\<close>

definition to_chars_int :: "int \<Rightarrow> string" where
  "to_chars_int v = (if v < 0 then CHR ''-'' # nat_digits (nat (- v)) else nat_digits (nat v))"

text \<open>The leading optional minus sign and the digits after it; \<open>None\<close> when there are none.\<close>

definition parse_int :: "string \<Rightarrow> int option" where
  "parse_int s =
     (let neg = (s \<noteq> [] \<and> hd s = CHR ''-'');
          ds = takeWhile is_dec (if neg then tl s else s)
      in if ds = [] then None
         else Some (if neg then - int (digits_val ds) else int (digits_val ds)))"

definition from_chars_int64 :: "string \<Rightarrow> int64 from_chars_result" where
  "from_chars_int64 s =
     (case parse_int s of
        None \<Rightarrow> Invalid_argument
      | Some v \<Rightarrow>
          if - (2 ^ 63) \<le> v \<and> v < 2 ^ 63 then Parsed (word_of_int v) else Result_out_of_range)"

text \<open>\<open>std::from_chars\<close> into a 32-bit \<open>int\<close> that holds \<open>v0\<close>: on failure it is left unmodified.\<close>

definition from_chars_int_or :: "int \<Rightarrow> string \<Rightarrow> int" where
  "from_chars_int_or v0 s =
     (case parse_int s of
        None \<Rightarrow> v0
      | Some v \<Rightarrow> if - (2 ^ 31) \<le> v \<and> v < 2 ^ 31 then v else v0)"

lemma takeWhile_nat_digits [simp]: "takeWhile is_dec (nat_digits n) = nat_digits n"
  by (simp add: takeWhile_eq_all_conv nat_digits_dec)

lemma minus_not_dec [simp]: "\<not> is_dec CHR ''-''"
  by (simp add: is_dec_def ucode_def)

lemma nat_digits_not_minus [simp]: "hd (nat_digits n) \<noteq> CHR ''-''"
  using nat_digits_dec [of n] hd_in_set [OF nat_digits_nonempty] minus_not_dec by metis

lemma parse_int_to_chars [simp]: "parse_int (to_chars_int v) = Some v"
  by (cases "v < 0") (simp_all add: parse_int_def to_chars_int_def Let_def)

lemma from_to_chars_int64: "from_chars_int64 (to_chars_int (sint w)) = Parsed w"
proof -
  have "- (2 ^ 63) \<le> sint w" "sint w < 2 ^ 63"
    using sint_greater_eq [of w] sint_less [of w] by simp_all
  then show ?thesis by (simp add: from_chars_int64_def)
qed

section \<open>Decimal tokens as doubles\<close>

text \<open>The exact value \<open>m * 10\<^sup>p\<close> as a fraction, and its rounding to a magnitude.\<close>

definition round_dec :: "nat \<Rightarrow> int \<Rightarrow> nat" where
  "round_dec m p = (if 0 \<le> p then round_mag (m * 10 ^ nat p) 1 else round_mag m (10 ^ nat (- p)))"

definition is_exp_mark :: "char \<Rightarrow> bool" where
  "is_exp_mark c \<longleftrightarrow> c = CHR ''e'' \<or> c = CHR ''E''"

definition parse_exponent :: "string \<Rightarrow> int" where
  "parse_exponent s =
     (case s of [] \<Rightarrow> 0
      | c # t \<Rightarrow>
          if \<not> is_exp_mark c then 0
          else let neg = (t \<noteq> [] \<and> hd t = CHR ''-'');
                   signed = (t \<noteq> [] \<and> (hd t = CHR ''-'' \<or> hd t = CHR ''+''));
                   v = int (digits_val (takeWhile is_dec (if signed then tl t else t)))
               in if neg then - v else v)"

text \<open>Sign, all digits of integer and fraction part as one number, and the power of ten.\<close>

definition parse_decimal :: "string \<Rightarrow> (bool \<times> nat \<times> int) option" where
  "parse_decimal s =
     (let neg = (s \<noteq> [] \<and> hd s = CHR ''-'');
          u = (if neg then tl s else s);
          ip = takeWhile is_dec u;
          r = dropWhile is_dec u;
          dot = (r \<noteq> [] \<and> hd r = CHR ''.'');
          fp = (if dot then takeWhile is_dec (tl r) else []);
          r' = (if dot then dropWhile is_dec (tl r) else r)
      in if ip = [] \<and> fp = [] then None
         else Some (neg, digits_val (ip @ fp), parse_exponent r' - int (length fp)))"

definition from_chars_double :: "string \<Rightarrow> double from_chars_result" where
  "from_chars_double s =
     (case parse_decimal s of
        None \<Rightarrow> Invalid_argument
      | Some (neg, m, p) \<Rightarrow>
          let i = round_dec m p
          in if inf_index \<le> i \<or> (i = 0 \<and> m \<noteq> 0) then Result_out_of_range
             else Parsed (of_index neg i))"

lemma round_dec_real:
  "\<exists>n d. round_dec m p = round_mag n d \<and> 0 < d \<and> real n / real d = real m * 10 powi p"
proof (cases "0 \<le> p")
  case True
  then show ?thesis
    by (intro exI [of _ "m * 10 ^ nat p"] exI [of _ 1]) (simp add: round_dec_def power_int_def)
next
  case False
  then show ?thesis
    by (intro exI [of _ m] exI [of _ "10 ^ nat (- p)"])
      (simp add: round_dec_def power_int_def field_simps)
qed

lemma round_dec_exact: "real m * 10 powi p = mag_value i \<Longrightarrow> round_dec m p = i"
  using round_dec_real [of m p] round_mag_exact by metis

lemma round_dec_near:
  "\<bar>real m * 10 powi p - mag_value i\<bar> * 2 ^ 54 < mag_value i \<Longrightarrow> round_dec m p = i"
  using round_dec_real [of m p] round_mag_near by metis

lemma round_dec_cong: "real m * 10 powi p = real m' * 10 powi p' \<Longrightarrow> round_dec m p = round_dec m' p'"
  using round_dec_real [of m p] round_dec_real [of m' p']
  by (metis order_refl round_mag_mono verit_la_disequality)

lemma round_dec_0 [simp]: "round_dec 0 p = 0"
  by (simp add: round_dec_def)

section \<open>Shortest decimal digits\<close>

definition mag_frac :: "nat \<Rightarrow> nat \<times> nat" where
  "mag_frac i = (if 0 \<le> ulp_exp i then (sig i * 2 ^ nat (ulp_exp i), 1)
                 else (sig i, 2 ^ nat (- ulp_exp i)))"

fun ndigits :: "nat \<Rightarrow> nat" where
  "ndigits m = (if m = 0 then 0 else Suc (ndigits (m div 10)))"

declare ndigits.simps [simp del]

text \<open>The greatest \<open>k\<close> with \<open>10\<^sup>k \<le> n / d\<close>.\<close>

definition flog10 :: "nat \<Rightarrow> nat \<Rightarrow> int" where
  "flog10 n d = (if d \<le> n then int (ndigits (n div d)) - 1 else - int (ndigits ((d - 1) div n)))"

definition scale10 :: "int \<Rightarrow> nat \<times> nat \<Rightarrow> nat \<times> nat" where
  "scale10 k x = (if 0 \<le> k then (fst x, snd x * 10 ^ nat k) else (fst x * 10 ^ nat (- k), snd x))"

text \<open>
  With \<open>n\<close> digits: the nearest decimal if it reads back, else the one on the other side of
  the value if that reads back (at a power of two the interval that rounds to a value is
  wider above than below).
\<close>

definition shortest_candidate :: "nat \<Rightarrow> nat \<Rightarrow> (nat \<times> int) option" where
  "shortest_candidate i n =
     (let x = mag_frac i;
          k = flog10 (fst x) (snd x) - int n + 1;
          y = scale10 k x;
          lo = fst y div snd y;
          near = rne_div (fst y) (snd y);
          other = (if near = lo then lo + 1 else lo)
      in if round_dec near k = i then Some (near, k)
         else if round_dec other k = i then Some (other, k)
         else None)"

fun shortest_search :: "nat \<Rightarrow> nat list \<Rightarrow> (nat \<times> int) option" where
  "shortest_search i [] = None"
| "shortest_search i (n # ns) =
     (case shortest_candidate i n of Some r \<Rightarrow> Some r | None \<Rightarrow> shortest_search i ns)"

definition max_digits10 :: nat where
  "max_digits10 = 17"

definition shortest :: "nat \<Rightarrow> (nat \<times> int) option" where
  "shortest i = (if i = 0 then Some (0, 0) else shortest_search i [1..<Suc max_digits10])"

definition strip_zeros :: "string \<Rightarrow> string" where
  "strip_zeros s = rev (dropWhile (\<lambda>c. c = CHR ''0'') (rev s))"

definition exponent_text :: "int \<Rightarrow> string" where
  "exponent_text e =
     (if e < 0 then CHR ''-'' else CHR ''+'')
       # (if \<bar>e\<bar> < 10 then CHR ''0'' # nat_digits (nat \<bar>e\<bar>) else nat_digits (nat \<bar>e\<bar>))"

definition scientific_text :: "string \<Rightarrow> int \<Rightarrow> string" where
  "scientific_text ds e =
     (case ds of [] \<Rightarrow> [] | [c] \<Rightarrow> [c] | c # cs \<Rightarrow> c # CHR ''.'' # cs)
       @ CHR ''e'' # exponent_text e"

text \<open>The digits and the decimal exponent \<open>std::to_chars\<close> writes for a finite magnitude.\<close>

definition decimal_of :: "nat \<Rightarrow> string \<times> int" where
  "decimal_of i =
     (case shortest i of
        None \<Rightarrow> ([], 0)
      | Some (c, k) \<Rightarrow>
          if c = 0 then ([CHR ''0''], 0)
          else (strip_zeros (nat_digits c), k + int (length (nat_digits c)) - 1))"

definition to_chars_scientific :: "double \<Rightarrow> string" where
  "to_chars_scientific d =
     (if negative d then ''-'' else [])
       @ scientific_text (fst (decimal_of (index d))) (snd (decimal_of (index d)))"

lemma mag_frac_real: "real (fst (mag_frac i)) / real (snd (mag_frac i)) = mag_value i"
  "0 < snd (mag_frac i)"
  by (auto simp: mag_frac_def mag_value_def power_int_def field_simps)

lemma ndigits_bounds: "m < 10 ^ ndigits m" "0 < m \<Longrightarrow> 10 ^ (ndigits m - 1) \<le> m"
proof (induction m rule: ndigits.induct)
  case (1 m)
  {
    case 1
    show ?case
    proof (cases "m = 0")
      case False
      with "1.IH"(1) have "m div 10 < 10 ^ ndigits (m div 10)" by simp
      then have "m < 10 * 10 ^ ndigits (m div 10)" by linarith
      with False show ?thesis by (simp add: ndigits.simps [of m])
    qed (simp add: ndigits.simps [of m])
  next
    case 2
    show ?case
    proof (cases "m div 10 = 0")
      case True
      with 2 show ?thesis by (simp add: ndigits.simps [of m] ndigits.simps [of 0])
    next
      case False
      define l where "l = ndigits (m div 10)"
      have "0 < l" using False by (simp add: l_def ndigits.simps [of "m div 10"])
      from False "1.IH"(2) 2 have "10 ^ (l - 1) \<le> m div 10" by (simp add: l_def)
      then have "10 * 10 ^ (l - 1) \<le> m" by linarith
      then have "10 ^ l \<le> m" using \<open>0 < l\<close> by (simp add: power_eq_if)
      with 2 show ?thesis by (simp add: ndigits.simps [of m] l_def)
    qed
  }
qed

lemma powi10_less_iff: "(10::real) powi a < 10 powi b \<longleftrightarrow> a < b"
proof
  assume l: "(10::real) powi a < 10 powi b"
  show "a < b"
  proof (rule ccontr)
    assume "\<not> a < b"
    then have "(10::real) powi b \<le> 10 powi a"
      by (intro power_int_increasing) simp_all
    with l show False by simp
  qed
qed (rule power_int_strict_increasing; simp)

lemma flog10_bounds:
  assumes "0 < n" "0 < d"
  shows "10 powi flog10 n d \<le> real n / real d" "real n / real d < 10 powi (flog10 n d + 1)"
proof -
  have "10 powi flog10 n d \<le> real n / real d \<and> real n / real d < 10 powi (flog10 n d + 1)"
  proof (cases "d \<le> n")
    case True
    define q where "q = n div d"
    have q: "0 < q" "q * d \<le> n" "n < (q + 1) * d"
      using True assms dividend_less_times_div [of d n]
      by (auto simp: q_def div_greater_zero_iff mult.commute)
    have "0 < ndigits q" using q(1) by (simp add: ndigits.simps [of q])
    have "10 ^ (ndigits q - 1) * d \<le> n" "n < 10 ^ ndigits q * d"
      using ndigits_bounds [of q] q
      by (meson le_trans mult_le_mono1, metis Suc_eq_plus1 Suc_leI less_le_trans mult_le_mono1)
    then have "real (10 ^ (ndigits q - 1) * d) \<le> real n" "real n < real (10 ^ ndigits q * d)"
      by (simp_all only: of_nat_le_iff of_nat_less_iff)
    moreover have e: "flog10 n d = int (ndigits q - 1)" "int (ndigits q - 1) + 1 = int (ndigits q)"
      using True \<open>0 < ndigits q\<close> by (simp_all add: flog10_def q_def of_nat_diff)
    ultimately show ?thesis
      unfolding e using assms by (simp_all add: field_simps)
  next
    case False
    define q where "q = (d - 1) div n"
    have q: "q * n \<le> d - 1" "d - 1 < (q + 1) * n"
      using assms dividend_less_times_div [of n "d - 1"] by (auto simp: q_def mult.commute)
    have "0 < q" using False assms by (simp add: q_def div_greater_zero_iff)
    then have "0 < ndigits q" by (simp add: ndigits.simps [of q])
    have "d \<le> 10 ^ ndigits q * n" "10 ^ (ndigits q - 1) * n < d"
    proof -
      have "d \<le> (q + 1) * n" using q(2) by linarith
      also have "\<dots> \<le> 10 ^ ndigits q * n"
        using ndigits_bounds(1) [of q] by (intro mult_le_mono1) simp
      finally show "d \<le> 10 ^ ndigits q * n" .
      have "10 ^ (ndigits q - 1) * n \<le> q * n"
        using ndigits_bounds(2) [of q] \<open>0 < q\<close> by (intro mult_le_mono1) simp
      with q(1) assms show "10 ^ (ndigits q - 1) * n < d" by linarith
    qed
    then have "real d \<le> real (10 ^ ndigits q * n)" "real (10 ^ (ndigits q - 1) * n) < real d"
      by (simp_all only: of_nat_le_iff of_nat_less_iff)
    moreover have e: "flog10 n d = - int (ndigits q)" "- int (ndigits q) + 1 = - int (ndigits q - 1)"
      using False \<open>0 < ndigits q\<close> by (simp_all add: flog10_def q_def of_nat_diff)
    ultimately show ?thesis
      unfolding e using assms by (simp_all add: power_int_minus field_simps)
  qed
  then show "10 powi flog10 n d \<le> real n / real d" "real n / real d < 10 powi (flog10 n d + 1)"
    by simp_all
qed

lemma scale10_real:
  assumes "0 < snd x"
  shows "real (fst (scale10 k x)) / real (snd (scale10 k x)) = real (fst x) / real (snd x) / 10 powi k"
    "0 < snd (scale10 k x)"
  using assms by (auto simp: scale10_def power_int_def field_simps)

lemma rne_div_near:
  assumes "0 < d"
  shows "\<bar>real (rne_div n d) - real n / real d\<bar> \<le> 1 / 2"
    "rne_div n d = n div d \<or> rne_div n d = n div d + 1"
proof -
  have "real (n div d * d) \<le> real n" "real n < real ((n div d + 1) * d)"
    unfolding of_nat_le_iff of_nat_less_iff
    using dividend_less_times_div [OF assms, of n] by (simp_all add: mult.commute)
  then have "real (n div d) \<le> real n / real d" "real n / real d < real (n div d) + 1"
    using assms by (simp_all add: field_simps)
  note between = this
  have "rne_div n d = n div d \<and> real n / real d \<le> real (n div d) + 1 / 2 \<or>
      rne_div n d = n div d + 1 \<and> real (n div d) + 1 / 2 \<le> real n / real d"
    using rne_div_between [OF assms between]
    by (cases "real n / real d" "real (n div d) + 1 / 2" rule: linorder_cases) auto
  with between show "\<bar>real (rne_div n d) - real n / real d\<bar> \<le> 1 / 2"
    by (elim disjE conjE) (simp_all only: abs_le_iff of_nat_add of_nat_1, linarith+)
  show "rne_div n d = n div d \<or> rne_div n d = n div d + 1"
    by (auto simp: rne_div_def Let_def)
qed

text \<open>The digits found read back to the value; at most 17 are needed.\<close>

lemma shortest_candidate_SomeD:
  assumes "shortest_candidate i n = Some (c, k)" "0 < i" "0 < n"
  shows "round_dec c k = i" "0 < c" "10 ^ (n - 1) \<le> c" "c \<le> 10 ^ n"
    "k = flog10 (fst (mag_frac i)) (snd (mag_frac i)) - int n + 1"
proof -
  define x where "x = mag_frac i"
  show k: "k = flog10 (fst (mag_frac i)) (snd (mag_frac i)) - int n + 1"
    and r: "round_dec c k = i"
    using assms(1) by (auto simp: shortest_candidate_def Let_def split: if_splits)
  show "0 < c" using r assms(2) by (intro Nat.gr0I) auto
  define y where "y = scale10 k x"
  have x: "0 < snd x" "0 < fst x"
    using mag_frac_real [of i] assms(2) mag_value_less_iff [of 0 i]
    by (auto simp: x_def intro: Nat.gr0I)
  have "real (fst y) / real (snd y) < 10 ^ n"
  proof -
    have "real (fst x) / real (snd x) < 10 powi (k + int n)"
      using flog10_bounds(2) [OF x(2,1)] k by (simp add: x_def)
    also have "\<dots> = 10 powi k * 10 ^ n"
      by (simp add: power_int_add)
    finally have "real (fst x) / real (snd x) / 10 powi k < 10 powi k * 10 ^ n / 10 powi k"
      by (rule divide_strict_right_mono) simp
    then show ?thesis
      using scale10_real [OF x(1), of k] by (simp add: y_def)
  qed
  then have "fst y < 10 ^ n * snd y"
    using scale10_real(2) [OF x(1), of k] unfolding of_nat_less_iff [where ?'a = real, symmetric]
    by (simp add: y_def field_simps)
  then have "fst y div snd y < 10 ^ n"
    by (rule less_mult_imp_div_less)
  moreover have c: "c = fst y div snd y \<or> c = fst y div snd y + 1"
    using assms(1) rne_div_near(2) [OF scale10_real(2) [OF x(1), of k], of "fst y"] k
    by (auto simp: shortest_candidate_def Let_def x_def y_def split: if_splits)
  ultimately show "c \<le> 10 ^ n" by auto
  have "10 ^ (n - 1) \<le> real (fst y) / real (snd y)"
  proof -
    have "10 powi (k + int (n - 1)) \<le> real (fst x) / real (snd x)"
      using flog10_bounds(1) [OF x(2,1)] k assms(3) by (simp add: x_def of_nat_diff)
    then have "10 powi k * 10 ^ (n - 1) \<le> real (fst x) / real (snd x)"
      by (simp add: power_int_add)
    then have "10 powi k * 10 ^ (n - 1) / 10 powi k \<le> real (fst x) / real (snd x) / 10 powi k"
      by (rule divide_right_mono) simp
    then show ?thesis
      using scale10_real [OF x(1), of k] by (simp add: y_def)
  qed
  then have "10 ^ (n - 1) * snd y \<le> fst y"
    using scale10_real(2) [OF x(1), of k] unfolding of_nat_le_iff [where ?'a = real, symmetric]
    by (simp add: y_def field_simps)
  then have "10 ^ (n - 1) \<le> fst y div snd y"
    using scale10_real(2) [OF x(1), of k] by (simp add: y_def less_eq_div_iff_mult_less_eq)
  with c show "10 ^ (n - 1) \<le> c" by auto
qed

lemma shortest_candidate_17:
  assumes "0 < i"
  shows "shortest_candidate i 17 \<noteq> None"
proof -
  define x where "x = mag_frac i"
  define k where "k = flog10 (fst x) (snd x) - int 17 + 1"
  define y where "y = scale10 k x"
  define m where "m = rne_div (fst y) (snd y)"
  have x: "0 < snd x" "0 < fst x" "real (fst x) / real (snd x) = mag_value i"
    using mag_frac_real [of i] assms mag_value_less_iff [of 0 i]
    by (auto simp: x_def intro: Nat.gr0I)
  have v: "10 ^ 16 * 10 powi k \<le> mag_value i"
  proof -
    have "10 powi (k + 16) \<le> mag_value i"
      using flog10_bounds(1) [OF x(2,1)] x(3) by (simp add: k_def)
    then show ?thesis by (simp add: power_int_add mult.commute)
  qed
  have "\<bar>real m - mag_value i / 10 powi k\<bar> \<le> 1 / 2"
    using rne_div_near(1) [OF scale10_real(2) [OF x(1), of k], of "fst y"] scale10_real(1) [OF x(1), of k]
    by (simp add: m_def y_def x(3))
  then have "\<bar>real m - mag_value i / 10 powi k\<bar> * 10 powi k \<le> 1 / 2 * 10 powi k"
    by (intro mult_right_mono) simp_all
  then have "\<bar>real m * 10 powi k - mag_value i\<bar> \<le> 10 powi k / 2"
    by (simp add: abs_if field_simps split: if_splits)
  then have "\<bar>real m * 10 powi k - mag_value i\<bar> * 2 ^ 54 \<le> 10 powi k / 2 * 2 ^ 54"
    by (intro mult_right_mono) simp_all
  also have "\<dots> < 10 ^ 16 * 10 powi k" by simp
  also note v
  finally have "\<bar>real m * 10 powi k - mag_value i\<bar> * 2 ^ 54 < mag_value i" .
  then have "round_dec m k = i" by (rule round_dec_near)
  then show ?thesis
    unfolding shortest_candidate_def Let_def x_def [symmetric] k_def [symmetric]
      y_def [symmetric] m_def [symmetric] by simp
qed

lemma shortest_search_cases:
  assumes "n \<in> set ns" "shortest_candidate i n \<noteq> None"
  shows "\<exists>n' r. n' \<in> set ns \<and> shortest_search i ns = Some r \<and> shortest_candidate i n' = Some r"
  using assms
proof (induction ns)
  case (Cons m ns)
  show ?case
  proof (cases "shortest_candidate i m")
    case None
    with Cons show ?thesis by auto
  next
    case (Some r)
    then show ?thesis by (intro exI [of _ m] exI [of _ r]) simp
  qed
qed simp

lemma shortest_SomeE:
  assumes "0 < i"
  obtains c k n where "shortest i = Some (c, k)" "shortest_candidate i n = Some (c, k)"
    "0 < n" "n \<le> 17"
proof -
  have "17 \<in> set [1..<Suc max_digits10]" by (simp add: max_digits10_def)
  then obtain n r where "n \<in> set [1..<Suc max_digits10]"
    "shortest_search i [1..<Suc max_digits10] = Some r" "shortest_candidate i n = Some r"
    using shortest_search_cases [OF _ shortest_candidate_17 [OF assms]] by blast
  then show ?thesis
    using assms by (intro that [of "fst r" "snd r" n]) (auto simp: shortest_def max_digits10_def)
qed

lemma strip_zeros_append:
  obtains k where "s = strip_zeros s @ replicate k CHR ''0''"
proof -
  have "rev s = takeWhile (\<lambda>c. c = CHR ''0'') (rev s) @ dropWhile (\<lambda>c. c = CHR ''0'') (rev s)"
    by simp
  then have "s = strip_zeros s @ rev (takeWhile (\<lambda>c. c = CHR ''0'') (rev s))"
    unfolding strip_zeros_def by (metis rev_append rev_rev_ident)
  moreover have "takeWhile (\<lambda>c. c = CHR ''0'') xs = replicate n CHR ''0''"
    if "n = length (takeWhile (\<lambda>c. c = CHR ''0'') xs)" for xs n
    using that by (metis (full_types) replicate_eqI set_takeWhileD)
  ultimately show ?thesis
    by (metis rev_replicate that)
qed

lemma strip_zeros_nat_digits:
  assumes "0 < c"
  obtains z where "nat_digits c = strip_zeros (nat_digits c) @ replicate z CHR ''0''"
    "strip_zeros (nat_digits c) \<noteq> []" "hd (strip_zeros (nat_digits c)) \<noteq> CHR ''0''"
    "\<forall>x \<in> set (strip_zeros (nat_digits c)). is_dec x"
    "digits_val (strip_zeros (nat_digits c)) * 10 ^ z = c"
proof -
  define t where "t = strip_zeros (nat_digits c)"
  obtain z where z: "nat_digits c = t @ replicate z CHR ''0''"
    unfolding t_def using strip_zeros_append .
  have c: "digits_val t * 10 ^ z = c"
    using digits_val_nat_digits [of c] by (simp add: z digits_val_append)
  have "t \<noteq> []" using c assms by auto
  moreover from this have "hd t \<noteq> CHR ''0''"
    using hd_nat_digits [OF assms] by (simp add: z)
  moreover have "\<forall>x \<in> set t. is_dec x"
    using nat_digits_dec [of c] by (simp add: z)
  ultimately show ?thesis
    using that [of z] z c unfolding t_def by blast
qed

lemma nat_digits_pow10: "nat_digits (10 ^ k) = CHR ''1'' # replicate k CHR ''0''"
proof (induction k)
  case 0
  have "digit_char (Suc 0) = CHR ''1''" by code_simp
  then show ?case by (simp add: nat_digits.simps [of "Suc 0"])
next
  case (Suc k)
  then show ?case
    by (simp add: nat_digits.simps [of "10 * 10 ^ k"] digit_char_0 replicate_append_same)
qed

lemma length_strip_17:
  assumes "c \<le> 10 ^ n" "0 < n" "n \<le> 17"
  shows "length (strip_zeros (nat_digits c)) \<le> 17"
proof (cases "c < 10 ^ 17")
  case True
  then have "length (nat_digits c) \<le> 17"
    by (intro length_nat_digits_le) simp_all
  moreover have "length (strip_zeros (nat_digits c)) \<le> length (nat_digits c)"
    using length_dropWhile_le [of _ "rev (nat_digits c)"] by (simp add: strip_zeros_def)
  ultimately show ?thesis by simp
next
  case False
  have "(10::nat) ^ n \<le> 10 ^ 17" using assms by (intro power_increasing) simp_all
  with False assms have "c = 10 ^ 17" by linarith
  moreover have "length (strip_zeros (nat_digits (10 ^ 17))) = 1"
    by (simp only: nat_digits_pow10) (simp add: strip_zeros_def dropWhile_append)
  ultimately show ?thesis by simp
qed

lemma mag_value_finite_bounds:
  assumes "0 < i" "i < inf_index"
  shows "10 powi (- 358) \<le> mag_value i" "mag_value i < 10 powi 342"
proof -
  have "mag_value 1 \<le> mag_value i"
    using assms(1) by (simp only: mag_value_le_iff Suc_le_eq One_nat_def)
  moreover have "(10::real) powi (- 358) \<le> mag_value 1"
  proof -
    have "((2::real) ^ 3) ^ 358 \<le> 10 ^ 358"
      by (rule power_mono) simp_all
    moreover have "(3::nat) * 358 = 1074" by simp
    ultimately have "(2::real) ^ 1074 \<le> 10 ^ 358"
      by (simp only: power_mult [symmetric])
    then have "inverse ((10::real) ^ 358) \<le> inverse (2 ^ 1074)"
      by (rule le_imp_inverse_le) simp
    moreover have "sig 1 = 1" "ulp_exp 1 = - int 1074"
      by (simp_all add: sig_def ulp_exp_def)
    then have "mag_value 1 = inverse (2 ^ 1074)"
      unfolding mag_value_def by (simp only: power_int_minus power_int_of_nat of_nat_1 mult_1)
    moreover have "(10::real) powi (- 358) = inverse (10 ^ 358)"
      using power_int_minus [of "10::real" "int 358"]
      by (simp only: power_int_of_nat) (simp only: of_nat_numeral)
    ultimately show ?thesis by (simp only:)
  qed
  ultimately show "10 powi (- 358) \<le> mag_value i" by linarith
  have "mag_value i < mag_value inf_index"
    using assms(2) by (simp only: mag_value_less_iff)
  also have "mag_value inf_index = 2 ^ 52 * 2 ^ 972"
  proof -
    have "sig inf_index = 2 ^ 52" "ulp_exp inf_index = int 972"
      by (simp_all add: sig_def ulp_exp_def inf_index_def)
    then show ?thesis
      unfolding mag_value_def by (simp only: power_int_of_nat of_nat_power) (simp only: of_nat_numeral)
  qed
  also have "\<dots> \<le> (2 ^ 3) ^ 342"
    by (simp only: power_mult [symmetric] power_add [symmetric]) (simp add: power_increasing)
  also have "\<dots> \<le> (10::real) ^ 342"
    by (rule power_mono) simp_all
  also have "(10::real) ^ 342 = 10 powi 342"
    using power_int_of_nat [of "10::real" 342] by (simp only: of_nat_numeral)
  finally show "mag_value i < 10 powi 342" .
qed

lemma flog10_mag_frac:
  assumes "0 < i" "i < inf_index"
  shows "- 358 \<le> flog10 (fst (mag_frac i)) (snd (mag_frac i))"
    "flog10 (fst (mag_frac i)) (snd (mag_frac i)) < 342"
proof -
  define x where "x = mag_frac i"
  have x: "0 < snd x" "0 < fst x" "real (fst x) / real (snd x) = mag_value i"
    using mag_frac_real [of i] assms(1) mag_value_less_iff [of 0 i]
    by (auto simp: x_def intro: Nat.gr0I)
  have "(10::real) powi (- 358) < 10 powi (flog10 (fst x) (snd x) + 1)"
    "10 powi flog10 (fst x) (snd x) < (10::real) powi 342"
    using flog10_bounds [OF x(2,1)] mag_value_finite_bounds [OF assms] x(3) by linarith+
  then show "- 358 \<le> flog10 (fst (mag_frac i)) (snd (mag_frac i))"
    "flog10 (fst (mag_frac i)) (snd (mag_frac i)) < 342"
    unfolding powi10_less_iff by (simp_all add: x_def)
qed

text \<open>Everything the formatter relies on: what the digits and the exponent of a magnitude are.\<close>

lemma decimal_of_spec:
  assumes "decimal_of i = (ds, e)" "0 < i" "i < inf_index"
  shows "ds \<noteq> []" "hd ds \<noteq> CHR ''0''" "\<forall>x \<in> set ds. is_dec x" "length ds \<le> 17"
    "round_dec (digits_val ds) (e - int (length ds) + 1) = i" "- 358 \<le> e" "e \<le> 342"
proof -
  obtain c k n where s: "shortest i = Some (c, k)" "shortest_candidate i n = Some (c, k)"
    "0 < n" "n \<le> 17"
    using shortest_SomeE [OF assms(2)] .
  note c = shortest_candidate_SomeD [OF s(2) assms(2) s(3)]
  obtain z where z: "nat_digits c = strip_zeros (nat_digits c) @ replicate z CHR ''0''"
    "strip_zeros (nat_digits c) \<noteq> []" "hd (strip_zeros (nat_digits c)) \<noteq> CHR ''0''"
    "\<forall>x \<in> set (strip_zeros (nat_digits c)). is_dec x"
    "digits_val (strip_zeros (nat_digits c)) * 10 ^ z = c"
    using strip_zeros_nat_digits [OF c(2)] .
  have d: "ds = strip_zeros (nat_digits c)" "e = k + int (length (nat_digits c)) - 1"
    using assms(1) s(1) c(2) by (simp_all add: decimal_of_def)
  have l: "length (nat_digits c) = length ds + z"
    using arg_cong [OF z(1), of length] by (simp add: d)
  show "ds \<noteq> []" "hd ds \<noteq> CHR ''0''" "\<forall>x \<in> set ds. is_dec x"
    using z by (simp_all add: d)
  show "length ds \<le> 17"
    unfolding d by (rule length_strip_17 [OF c(4) s(3,4)])
  have "real (digits_val ds) * 10 powi (e - int (length ds) + 1) = real c * 10 powi k"
  proof -
    have "e - int (length ds) + 1 = k + int z" using l d(2) by simp
    moreover have "real c = real (digits_val ds) * 10 ^ z"
      using z(5) by (metis d(1) of_nat_mult of_nat_numeral of_nat_power)
    ultimately show ?thesis by (simp add: power_int_add)
  qed
  with c(1) show "round_dec (digits_val ds) (e - int (length ds) + 1) = i"
    using round_dec_cong by metis
  have "length (nat_digits c) \<le> n + 1"
  proof -
    have "c < 10 ^ (n + 1)"
      using c(4) by (rule le_less_trans) simp
    then show ?thesis by (intro length_nat_digits_le) simp_all
  qed
  then show "e \<le> 342"
    using d(2) c(5) flog10_mag_frac [OF assms(2,3)] by linarith
  have "n - 1 < length (nat_digits c)"
  proof -
    have "(10::nat) ^ (n - 1) < 10 ^ length (nat_digits c)"
      using c(3) nat_digits_bounds(1) [of c] by (rule le_less_trans)
    then show ?thesis by simp
  qed
  then show "- 358 \<le> e"
    using d(2) c(5) flog10_mag_frac [OF assms(2,3)] by linarith
qed

end
