(* ===== verification/Json_Writer.thy ===== *)
theory Json_Writer
  imports Charconv
begin

text \<open>
  The output half of \<open>src/json.cpp\<close>: \<open>hex_byte\<close>, \<open>append_utf8\<close>, \<open>format_double\<close> and the
  \<open>append\<close> family, which extend a \<open>std::vector<std::byte>\<close>. \<open>format_double\<close> writes into a
  caller's span; the model returns the characters written, and \<open>format_double_length_le\<close>
  bounds their number, so the span of \<open>kDoubleBufferSize\<close> bytes and the two local arrays
  are never overrun.
\<close>

section \<open>Helpers\<close>

definition is_digit :: "char \<Rightarrow> bool" where
  "is_digit c \<longleftrightarrow> ucode CHR ''0'' \<le> ucode c \<and> ucode c \<le> ucode CHR ''9''"

definition kHexDigits :: string where
  "kHexDigits = ''0123456789abcdef''"

definition hex_byte :: "char \<Rightarrow> string" where
  "hex_byte c = [kHexDigits ! (ucode c div 16), kHexDigits ! (ucode c mod 16)]"

definition kDoubleBufferSize :: nat where
  "kDoubleBufferSize = 32"

definition kFixedNotationMinExponent :: int where
  "kFixedNotationMinExponent = - 5"

definition kFixedNotationMaxExponent :: int where
  "kFixedNotationMaxExponent = 16"

text \<open>\<open>static_cast<char>\<close> of an unsigned value keeps its low eight bits.\<close>

definition char_of_u32 :: "uint32 \<Rightarrow> char" where
  "char_of_u32 w = char_of (unat w mod 256)"

definition append_utf8 :: "string \<Rightarrow> uint32 \<Rightarrow> string" where
  "append_utf8 out code_point =
     (if code_point < 0x80 then
        out @ [char_of_u32 code_point]
      else if code_point < 0x800 then
        out @ [char_of_u32 (0xC0 OR drop_bit 6 code_point),
               char_of_u32 (0x80 OR (code_point AND 0x3F))]
      else if code_point < 0x10000 then
        out @ [char_of_u32 (0xE0 OR drop_bit 12 code_point),
               char_of_u32 (0x80 OR (drop_bit 6 code_point AND 0x3F)),
               char_of_u32 (0x80 OR (code_point AND 0x3F))]
      else
        out @ [char_of_u32 (0xF0 OR drop_bit 18 code_point),
               char_of_u32 (0x80 OR (drop_bit 12 code_point AND 0x3F)),
               char_of_u32 (0x80 OR (drop_bit 6 code_point AND 0x3F)),
               char_of_u32 (0x80 OR (code_point AND 0x3F))])"

section \<open>Formatting a double\<close>

text \<open>The loop that copies the digits up to the exponent mark and skips the point.\<close>

fun collect_digits :: "string \<Rightarrow> string \<times> string" where
  "collect_digits [] = ([], [])"
| "collect_digits (c # cs) =
     (if c = CHR ''e'' then ([], c # cs)
      else let (ds, r) = collect_digits cs in (if c \<noteq> CHR ''.'' then c # ds else ds, r))"

definition layout_fixed :: "string \<Rightarrow> int \<Rightarrow> string" where
  "layout_fixed digits exponent =
     (if exponent \<ge> 0 then
        let whole = nat exponent + 1
        in map (\<lambda>i. if i < length digits then digits ! i else CHR ''0'') [0..<whole]
             @ ''.'' @ (if length digits > whole then drop whole digits else ''0'')
      else ''0.'' @ replicate (nat (- exponent - 1)) CHR ''0'' @ digits)"

definition layout_scientific :: "string \<Rightarrow> int \<Rightarrow> string" where
  "layout_scientific digits exponent =
     [digits ! 0]
       @ (if length digits > 1 then ''.'' @ drop 1 digits else [])
       @ ''e'' @ (if exponent \<ge> 0 then ''+'' else ''-'')
       @ to_chars_int (if exponent \<ge> 0 then exponent else - exponent)"

definition format_double :: "double \<Rightarrow> string" where
  "format_double d =
     (if \<not> is_finite d then ''null''
      else let sci = to_chars_scientific d;
               neg = (hd sci = CHR ''-'');
               (digits, rest) = collect_digits (if neg then tl sci else sci);
               after = drop 1 rest;
               exponent = from_chars_int_or 0
                 (if after \<noteq> [] \<and> hd after = CHR ''+'' then tl after else after)
           in (if neg then ''-'' else [])
                @ (if exponent \<ge> kFixedNotationMinExponent \<and> exponent < kFixedNotationMaxExponent
                   then layout_fixed digits exponent
                   else layout_scientific digits exponent))"

section \<open>Appending to the output buffer\<close>

definition append_text :: "byte list \<Rightarrow> string \<Rightarrow> byte list" where
  "append_text out text = out @ map as_byte text"

definition append_string_char :: "byte list \<Rightarrow> char \<Rightarrow> byte list" where
  "append_string_char out c =
     (if c = CHR 0x22 then append_text out [CHR 0x5C, CHR 0x22]
      else if c = CHR 0x5C then append_text out [CHR 0x5C, CHR 0x5C]
      else if c = CHR 0x08 then append_text out [CHR 0x5C, CHR ''b'']
      else if c = CHR 0x0C then append_text out [CHR 0x5C, CHR ''f'']
      else if c = CHR 0x0A then append_text out [CHR 0x5C, CHR ''n'']
      else if c = CHR 0x0D then append_text out [CHR 0x5C, CHR ''r'']
      else if c = CHR 0x09 then append_text out [CHR 0x5C, CHR ''t'']
      else if ucode c < 0x20 then
        append_text out [CHR 0x5C, CHR ''u'', CHR ''0'', CHR ''0'']
          @ [as_byte (kHexDigits ! (ucode c div 16)), as_byte (kHexDigits ! (ucode c mod 16))]
      else out @ [as_byte c])"

definition append_string :: "byte list \<Rightarrow> string \<Rightarrow> byte list" where
  "append_string out text = foldl append_string_char (out @ [as_byte CHR 0x22]) text @ [as_byte CHR 0x22]"

definition append_int :: "byte list \<Rightarrow> int64 \<Rightarrow> byte list" where
  "append_int out v = append_text out (to_chars_int (sint v))"

definition append_double :: "byte list \<Rightarrow> double \<Rightarrow> byte list" where
  "append_double out v = append_text out (format_double v)"

section \<open>What the writers write\<close>

text \<open>The characters of each kind of value; the \<open>append\<close> family adds exactly these.\<close>

definition escape_char :: "char \<Rightarrow> string" where
  "escape_char c = map as_char (append_string_char [] c)"

definition json_string :: "string \<Rightarrow> string" where
  "json_string s = CHR 0x22 # concat (map escape_char s) @ [CHR 0x22]"

lemma append_string_char_eq: "append_string_char out c = out @ map as_byte (escape_char c)"
  by (simp add: escape_char_def append_string_char_def append_text_def comp_def)

lemma foldl_append_string_char:
  "foldl append_string_char out s = out @ map as_byte (concat (map escape_char s))"
  by (induction s arbitrary: out) (simp_all add: append_string_char_eq)

lemma append_string_eq: "append_string out s = out @ map as_byte (json_string s)"
  by (simp add: append_string_def json_string_def foldl_append_string_char)

lemmas append_defs = append_string_eq append_int_def append_double_def append_text_def

subsection \<open>The shape of a formatted number\<close>

text \<open>
  A JSON number in its parts: sign, integer digits, optional fraction digits, optional
  exponent sign and digits.
\<close>

definition number_text :: "bool \<Rightarrow> string \<Rightarrow> string option \<Rightarrow> (char \<times> string) option \<Rightarrow> string" where
  "number_text neg ip fp ex =
     (if neg then [CHR ''-''] else []) @ ip
       @ (case fp of None \<Rightarrow> [] | Some f \<Rightarrow> CHR ''.'' # f)
       @ (case ex of None \<Rightarrow> [] | Some (sg, e) \<Rightarrow> CHR ''e'' # sg # e)"

definition digit_run :: "string \<Rightarrow> bool" where
  "digit_run s \<longleftrightarrow> s \<noteq> [] \<and> (\<forall>c \<in> set s. is_dec c)"

definition number_ok :: "string \<Rightarrow> string option \<Rightarrow> (char \<times> string) option \<Rightarrow> bool" where
  "number_ok ip fp ex \<longleftrightarrow>
     digit_run ip \<and> (hd ip = CHR ''0'' \<longrightarrow> length ip = 1)
       \<and> (\<forall>f. fp = Some f \<longrightarrow> digit_run f)
       \<and> (\<forall>sg e. ex = Some (sg, e) \<longrightarrow> digit_run e \<and> (sg = CHR ''+'' \<or> sg = CHR ''-''))"

lemma is_digit_is_dec [simp]: "is_digit = is_dec"
  by (rule ext) (simp add: is_digit_def is_dec_def ucode_def)

lemma not_dec [simp]: "\<not> is_dec CHR ''.''" "\<not> is_dec CHR ''e''" "\<not> is_dec CHR ''E''" "\<not> is_dec CHR ''+''"
  by (simp_all add: is_dec_def ucode_def)

lemma takeWhile_dec_append:
  assumes "\<forall>c \<in> set s. is_dec c" "t = [] \<or> \<not> is_dec (hd t)"
  shows "takeWhile is_dec (s @ t) = s" "dropWhile is_dec (s @ t) = t"
  using assms by (cases t; simp)+

lemma digit_run_hd: "digit_run s \<Longrightarrow> is_dec (hd s)"
  using hd_in_set by (auto simp: digit_run_def)

lemma parse_exponent_text:
  assumes "digit_run e" "sg = CHR ''+'' \<or> sg = CHR ''-''"
  shows "parse_exponent (CHR ''e'' # sg # e) =
    (if sg = CHR ''-'' then - int (digits_val e) else int (digits_val e))"
proof -
  have e: "takeWhile is_dec e = e"
    using assms(1) by (simp add: digit_run_def takeWhile_eq_all_conv)
  show ?thesis
    using assms(2) by (auto simp: parse_exponent_def is_exp_mark_def e)
qed

lemma parse_decimal_number_text:
  assumes "number_ok ip fp ex"
  shows "parse_decimal (number_text neg ip fp ex) =
    Some (neg, digits_val (ip @ (case fp of None \<Rightarrow> [] | Some f \<Rightarrow> f)),
      (case ex of None \<Rightarrow> 0 | Some (sg, e) \<Rightarrow> if sg = CHR ''-'' then - int (digits_val e) else int (digits_val e))
        - int (case fp of None \<Rightarrow> 0 | Some f \<Rightarrow> length f))"
proof -
  define et where "et = (case ex of None \<Rightarrow> [] | Some (sg, e) \<Rightarrow> CHR ''e'' # sg # e)"
  define ft where "ft = (case fp of None \<Rightarrow> [] | Some f \<Rightarrow> CHR ''.'' # f)"
  have ip: "ip \<noteq> []" "\<forall>c \<in> set ip. is_dec c"
    using assms by (simp_all add: number_ok_def digit_run_def)
  then have "hd ip \<noteq> CHR ''-''"
    using minus_not_dec hd_in_set by metis
  have f: "\<forall>c \<in> set f. is_dec c" if "fp = Some f" for f
    using assms that by (auto simp: number_ok_def digit_run_def)
  have et: "et = [] \<or> (\<not> is_dec (hd et) \<and> hd et \<noteq> CHR ''.'')"
    by (auto simp: et_def split: option.splits)
  have pe: "parse_exponent et = (case ex of None \<Rightarrow> 0
      | Some (sg, e) \<Rightarrow> if sg = CHR ''-'' then - int (digits_val e) else int (digits_val e))"
    using assms parse_exponent_text
    by (auto simp: et_def number_ok_def parse_exponent_def split: option.splits)
  have "ft @ et = [] \<or> \<not> is_dec (hd (ft @ et))"
    using et by (auto simp: ft_def split: option.splits)
  note split = takeWhile_dec_append [OF ip(2) this]
  have "number_text neg ip fp ex = (if neg then [CHR ''-''] else []) @ ip @ ft @ et"
    by (simp add: number_text_def ft_def et_def)
  then show ?thesis
    using ip \<open>hd ip \<noteq> CHR ''-''\<close> split pe f et takeWhile_dec_append [OF f, of _ et]
    by (cases fp) (auto simp: parse_decimal_def Let_def ft_def)
qed

text \<open>\<open>format_double\<close> recovers the digits and the exponent from the scientific text.\<close>

lemma collect_digits_append:
  assumes "\<forall>c \<in> set s. c \<noteq> CHR ''e'' \<and> c \<noteq> CHR ''.''"
  shows "collect_digits (s @ CHR ''e'' # t) = (s, CHR ''e'' # t)"
  using assms by (induction s) auto

lemma collect_digits_scientific:
  assumes "ds \<noteq> []" "\<forall>c \<in> set ds. is_dec c"
  shows "collect_digits (scientific_text ds e) = (ds, CHR ''e'' # exponent_text e)"
proof -
  have ne: "\<forall>c \<in> set ds. c \<noteq> CHR ''e'' \<and> c \<noteq> CHR ''.''"
    using assms(2) not_dec by metis
  obtain c cs where ds: "ds = c # cs" using assms(1) by (cases ds) auto
  then show ?thesis
    using ne collect_digits_append [of cs "exponent_text e"]
    by (cases cs) (auto simp: scientific_text_def)
qed

lemma parse_int_nat_digits [simp]: "parse_int (nat_digits n) = Some (int n)"
  using parse_int_to_chars [of "int n"] by (simp add: to_chars_int_def)

lemma parse_int_zero_nat_digits [simp]:
  "parse_int (CHR ''0'' # nat_digits n) = Some (int n)"
  "parse_int (CHR ''-'' # nat_digits n) = Some (- int n)"
  "parse_int (CHR ''-'' # CHR ''0'' # nat_digits n) = Some (- int n)"
  by (simp_all add: parse_int_def Let_def digits_val_Cons is_dec_def ucode_def
      takeWhile_nat_digits [unfolded is_dec_def ucode_def])

lemma from_chars_exponent:
  assumes "\<bar>e\<bar> < 1000"
  shows "from_chars_int_or 0 (let t = exponent_text e in if hd t = CHR ''+'' then tl t else t) = e"
  using assms by (auto simp: exponent_text_def from_chars_int_or_def Let_def)

lemma format_double_eq:
  assumes "is_finite d" "decimal_of (index d) = (ds, e)" "ds \<noteq> []" "\<forall>c \<in> set ds. is_dec c"
    "\<bar>e\<bar> < 1000"
  shows "format_double d =
    (if negative d then ''-'' else [])
      @ (if - 5 \<le> e \<and> e < 16 then layout_fixed ds e else layout_scientific ds e)"
proof -
  define t where "t = scientific_text ds e"
  have t: "collect_digits t = (ds, CHR ''e'' # exponent_text e)"
    unfolding t_def using assms(3,4) by (rule collect_digits_scientific)
  have "t \<noteq> []" by (simp add: t_def scientific_text_def)
  moreover have "hd t = hd ds"
    using assms(3) by (cases ds rule: list.exhaust; cases "tl ds") (auto simp: t_def scientific_text_def)
  moreover have "hd ds \<noteq> CHR ''-''"
    using assms(3,4) minus_not_dec hd_in_set by metis
  moreover have "exponent_text e \<noteq> []" by (simp add: exponent_text_def)
  ultimately show ?thesis
    using assms(1,2) t from_chars_exponent [OF assms(5)]
    by (auto simp: format_double_def to_chars_scientific_def t_def [symmetric] Let_def
        kFixedNotationMinExponent_def kFixedNotationMaxExponent_def)
qed

lemma decimal_of_0: "decimal_of 0 = (''0'', 0)"
  by (simp add: decimal_of_def shortest_def)

lemma decimal_of_finite:
  assumes "is_finite d"
  obtains ds e where "decimal_of (index d) = (ds, e)" "digit_run ds" "length ds \<le> 17" "\<bar>e\<bar> < 400"
    "hd ds = CHR ''0'' \<longrightarrow> ds = ''0'' \<and> e = 0"
    "round_dec (digits_val ds) (e - int (length ds) + 1) = index d"
proof (cases "index d = 0")
  case True
  then show ?thesis
    by (intro that [of "''0''" 0])
      (auto simp: decimal_of_0 digit_run_def is_dec_def ucode_def digits_val_Cons)
next
  case False
  obtain ds e where de: "decimal_of (index d) = (ds, e)" by fastforce
  have "0 < index d" "index d < inf_index"
    using False assms by (simp_all add: is_finite_def)
  note spec = decimal_of_spec [OF de this]
  then have "digit_run ds" by (simp add: digit_run_def)
  moreover have "\<bar>e\<bar> < 400" using spec(6,7) by linarith
  ultimately show ?thesis using spec de by (intro that [of ds e]) auto
qed

lemma layout_fixed_nonneg:
  assumes "0 \<le> e"
  shows "layout_fixed ds e = (if length ds > nat e + 1
    then take (nat e + 1) ds @ CHR ''.'' # drop (nat e + 1) ds
    else ds @ replicate (nat e + 1 - length ds) CHR ''0'' @ ''.0'')"
proof -
  define w where "w = nat e + 1"
  have "map (\<lambda>i. if i < length ds then ds ! i else CHR ''0'') [0..<w]
      = take w ds @ replicate (w - length ds) CHR ''0''"
    by (rule nth_equalityI) (auto simp: nth_append)
  then show ?thesis
    using assms by (simp add: layout_fixed_def Let_def w_def)
qed

text \<open>The value of the parts is the value of the digits, in every layout.\<close>

definition parts_value :: "string \<Rightarrow> string option \<Rightarrow> (char \<times> string) option \<Rightarrow> real" where
  "parts_value ip fp ex = real (digits_val (ip @ (case fp of None \<Rightarrow> [] | Some f \<Rightarrow> f))) *
     10 powi ((case ex of None \<Rightarrow> 0 | Some (sg, x) \<Rightarrow> if sg = CHR ''-'' then - int (digits_val x) else int (digits_val x))
      - int (case fp of None \<Rightarrow> 0 | Some f \<Rightarrow> length f))"

definition shaped :: "string \<Rightarrow> int \<Rightarrow> string \<Rightarrow> bool" where
  "shaped ds e text \<longleftrightarrow> (\<exists>ip fp ex. number_ok ip fp ex \<and> text = number_text False ip fp ex \<and> (fp \<noteq> None \<or> ex \<noteq> None) \<and>
     parts_value ip fp ex = real (digits_val ds) * 10 powi (e - int (length ds) + 1))"

lemma shapedI:
  assumes "number_ok ip fp ex" "text = number_text False ip fp ex" "fp \<noteq> None \<or> ex \<noteq> None"
    "parts_value ip fp ex = real (digits_val ds) * 10 powi (e - int (length ds) + 1)"
  shows "shaped ds e text"
  unfolding shaped_def using assms by (intro exI conjI)

lemma is_dec_zero: "is_dec CHR ''0''"
  by (simp add: is_dec_def ucode_def)

lemma shaped_long:
  assumes "digit_run ds" "hd ds \<noteq> CHR ''0''" "0 \<le> e" "nat e + 1 < length ds"
  shows "shaped ds e (layout_fixed ds e)"
proof -
  define w where "w = nat e + 1"
  have "digit_run (take w ds)" "digit_run (drop w ds)" "hd (take w ds) = hd ds"
    using assms by (auto simp: digit_run_def w_def dest: in_set_takeD in_set_dropD)
  moreover have "- int (length ds - w) = e - int (length ds) + 1" "Suc (nat e) = w"
    using assms(3,4) by (simp_all add: w_def of_nat_diff)
  ultimately show ?thesis
    using assms by (intro shapedI [of "take w ds" "Some (drop w ds)" None])
      (auto simp: number_ok_def number_text_def parts_value_def layout_fixed_nonneg simp del: of_nat_diff)
qed

lemma shaped_padded:
  assumes "digit_run ds" "hd ds = CHR ''0'' \<longrightarrow> ds = ''0'' \<and> e = 0" "0 \<le> e" "length ds \<le> nat e + 1"
  shows "shaped ds e (layout_fixed ds e)"
proof -
  define z where "z = nat e + 1 - length ds"
  have "digit_run (ds @ replicate z CHR ''0'')"
    using assms(1) is_dec_zero by (auto simp: digit_run_def)
  moreover have "hd ds = CHR ''0'' \<longrightarrow> length (ds @ replicate z CHR ''0'') = 1"
    using assms(2) by (auto simp: z_def)
  moreover have "digits_val ((ds @ replicate z CHR ''0'') @ ''0'') = digits_val ds * 10 ^ (z + 1)"
    using digits_val_append [of ds "replicate (z + 1) CHR ''0''"]
    by (simp add: replicate_append_same digits_val_Cons)
  moreover have "e - int (length ds) + 1 = int z"
    using assms(3,4) by (simp add: z_def of_nat_diff)
  ultimately show ?thesis
    using assms is_dec_zero
    by (intro shapedI [of "ds @ replicate z CHR ''0''" "Some ''0''" None])
      (auto simp: number_ok_def number_text_def parts_value_def layout_fixed_nonneg z_def [symmetric] digit_run_def power_int_minus)
qed

lemma shaped_small:
  assumes "digit_run ds" "e < 0"
  shows "shaped ds e (layout_fixed ds e)"
proof -
  define z where "z = nat (- e - 1)"
  have "digit_run (replicate z CHR ''0'' @ ds)"
    using assms(1) is_dec_zero by (auto simp: digit_run_def)
  moreover have e: "e = - int z - 1"
    using assms(2) by (simp add: z_def)
  moreover have "digits_val (CHR ''0'' # replicate z CHR ''0'' @ ds) = digits_val ds"
    using digits_val_append [of "replicate (z + 1) CHR ''0''" ds] by (simp add: digits_val_Cons)
  ultimately show ?thesis
    using is_dec_zero
    by (intro shapedI [of "''0''" "Some (replicate z CHR ''0'' @ ds)" None])
      (auto simp: number_ok_def number_text_def parts_value_def layout_fixed_def digit_run_def e)
qed

lemma shaped_scientific:
  assumes "digit_run ds"
  shows "shaped ds e (layout_scientific ds e)"
proof -
  obtain c cs where c: "ds = c # cs" using assms by (cases ds) (auto simp: digit_run_def)
  define fp where "fp = (if cs = [] then None else Some cs)"
  define ex where "ex = (if 0 \<le> e then CHR ''+'' else CHR ''-'', nat_digits (nat \<bar>e\<bar>))"
  have "number_ok [c] fp (Some ex)"
    using assms nat_digits_dec by (auto simp: number_ok_def digit_run_def c fp_def ex_def split: if_splits)
  moreover have "layout_scientific ds e = number_text False [c] fp (Some ex)"
    by (auto simp: layout_scientific_def number_text_def c fp_def ex_def to_chars_int_def)
  moreover have "(if fst ex = CHR ''-'' then - int (digits_val (snd ex)) else int (digits_val (snd ex))) = e"
    by (auto simp: ex_def)
  moreover have "[c] @ (case fp of None \<Rightarrow> [] | Some f \<Rightarrow> f) = ds"
    "int (case fp of None \<Rightarrow> 0 | Some f \<Rightarrow> length f) = int (length ds) - 1"
    by (auto simp: fp_def c)
  ultimately show ?thesis
    by (intro shapedI [of "[c]" fp "Some ex"]) (auto simp: parts_value_def split_beta algebra_simps)
qed

lemma layout_shape:
  assumes "digit_run ds" "hd ds = CHR ''0'' \<longrightarrow> ds = ''0'' \<and> e = 0"
  obtains ip fp ex where "number_ok ip fp ex"
    "(if - 5 \<le> e \<and> e < 16 then layout_fixed ds e else layout_scientific ds e) = number_text False ip fp ex"
    "fp \<noteq> None \<or> ex \<noteq> None"
    "real (digits_val (ip @ (case fp of None \<Rightarrow> [] | Some f \<Rightarrow> f))) *
       10 powi ((case ex of None \<Rightarrow> 0 | Some (sg, x) \<Rightarrow> if sg = CHR ''-'' then - int (digits_val x) else int (digits_val x))
        - int (case fp of None \<Rightarrow> 0 | Some f \<Rightarrow> length f))
     = real (digits_val ds) * 10 powi (e - int (length ds) + 1)"
proof -
  have "hd ds \<noteq> CHR ''0''" if "0 \<le> e" "nat e + 1 < length ds" using assms(2) that by auto
  then have "shaped ds e (layout_fixed ds e)"
    using shaped_long [OF assms(1)] shaped_padded [OF assms] shaped_small [OF assms(1)] by (meson not_le)
  with shaped_scientific [OF assms(1)] have "shaped ds e (if - 5 \<le> e \<and> e < 16 then layout_fixed ds e else layout_scientific ds e)" by simp
  then show thesis using that by (auto simp: shaped_def parts_value_def)
qed

lemma number_text_neg: "number_text neg ip fp ex = (if neg then ''-'' else []) @ number_text False ip fp ex"
  by (simp add: number_text_def)

text \<open>A formatted finite double is a JSON number with a fraction or an exponent, and reads back.\<close>

lemma format_double_shape:
  assumes "is_finite d"
  obtains ip fp ex where "number_ok ip fp ex" "format_double d = number_text (negative d) ip fp ex"
    "fp \<noteq> None \<or> ex \<noteq> None" "from_chars_double (format_double d) = Parsed d"
proof -
  obtain ds e where de: "decimal_of (index d) = (ds, e)" "digit_run ds" "length ds \<le> 17" "\<bar>e\<bar> < 400"
    "hd ds = CHR ''0'' \<longrightarrow> ds = ''0'' \<and> e = 0"
    "round_dec (digits_val ds) (e - int (length ds) + 1) = index d"
    using decimal_of_finite [OF assms] .
  obtain ip fp ex where sh: "number_ok ip fp ex"
    "(if - 5 \<le> e \<and> e < 16 then layout_fixed ds e else layout_scientific ds e) = number_text False ip fp ex"
    "fp \<noteq> None \<or> ex \<noteq> None"
    "real (digits_val (ip @ (case fp of None \<Rightarrow> [] | Some f \<Rightarrow> f))) *
       10 powi ((case ex of None \<Rightarrow> 0 | Some (sg, x) \<Rightarrow> if sg = CHR ''-'' then - int (digits_val x) else int (digits_val x))
        - int (case fp of None \<Rightarrow> 0 | Some f \<Rightarrow> length f))
     = real (digits_val ds) * 10 powi (e - int (length ds) + 1)"
    using layout_shape [OF de(2,5)] .
  have f: "format_double d = number_text (negative d) ip fp ex"
    using format_double_eq [OF assms de(1)] de sh(2) number_text_neg [of "negative d" ip fp ex]
    by (simp add: digit_run_def)
  define m where "m = digits_val (ip @ (case fp of None \<Rightarrow> [] | Some f \<Rightarrow> f))"
  define p where "p = (case ex of None \<Rightarrow> 0 | Some (sg, x) \<Rightarrow> if sg = CHR ''-'' then - int (digits_val x) else int (digits_val x))
        - int (case fp of None \<Rightarrow> 0 | Some f \<Rightarrow> length f)"
  have r: "round_dec m p = index d"
    using round_dec_cong [OF sh(4)] de(6) by (simp add: m_def p_def)
  have "index d = 0 \<Longrightarrow> m = 0"
  proof -
    assume "index d = 0"
    then have "digits_val ds = 0"
      using de(1) decimal_of_0 by (auto simp: digits_val_Cons)
    then show "m = 0" using sh(4) by (simp add: m_def)
  qed
  moreover have "parse_decimal (format_double d) = Some (negative d, m, p)"
    unfolding f m_def p_def by (rule parse_decimal_number_text [OF sh(1)])
  ultimately have "from_chars_double (format_double d) = Parsed d"
    using assms r by (auto simp: from_chars_double_def Let_def is_finite_def)
  with sh f show ?thesis by (intro that [of ip fp ex])
qed

lemma layout_length:
  assumes "digit_run ds" "length ds \<le> 17" "\<bar>e\<bar> < 400"
  shows "length (if - 5 \<le> e \<and> e < 16 then layout_fixed ds e else layout_scientific ds e) \<le> 23"
proof -
  have "length (nat_digits (nat \<bar>e\<bar>)) \<le> 3"
    using assms(3) by (intro length_nat_digits_le) auto
  then show ?thesis
    using assms(2)
    by (auto simp: layout_fixed_def layout_fixed_nonneg layout_scientific_def to_chars_int_def Let_def)
qed

lemma format_double_length_le: "length (format_double d) \<le> 24"
proof (cases "is_finite d")
  case True
  then obtain ds e where de: "decimal_of (index d) = (ds, e)" "digit_run ds" "length ds \<le> 17" "\<bar>e\<bar> < 400"
    using decimal_of_finite by metis
  have "format_double d = (if negative d then ''-'' else [])
      @ (if - 5 \<le> e \<and> e < 16 then layout_fixed ds e else layout_scientific ds e)"
    using format_double_eq [OF True de(1)] de(2,4) by (simp add: digit_run_def)
  then show ?thesis
    using layout_length [OF de(2-4)] by (cases "- 5 \<le> e \<and> e < 16") auto
qed (simp add: format_double_def)

end
