(* ===== verification/Protocol_Types.thy ===== *)
theory Protocol_Types
  imports Charconv
begin

text \<open>
  The data of \<open>include/hotpath/protocol.hpp\<close>: the two messages of the wake channel with the
  defaults of their members, the decode errors and the result of a decode. 64-bit signed
  members are 64-bit words read by \<^const>\<open>sint\<close>; the members of \<open>WakeAck\<close> carry a prefix
  because a record field is a constant of its own.
\<close>

definition kSchemaVersion :: int64 where
  "kSchemaVersion = 4"

definition kFrameLengthBytes :: nat where
  "kFrameLengthBytes = 4"

definition kMaxFrameBytes :: uint32 where
  "kMaxFrameBytes = 64 * 1024"

datatype Direction = Yes | No

datatype WakeAckStatus = Accepted | Rejected

record PriceRange =
  pr_start :: double
  pr_end :: double
  pr_step :: double

text \<open>The decimal literals of the source, rounded as the compiler rounds them.\<close>

definition double_lit :: "nat \<Rightarrow> int \<Rightarrow> double" where
  "double_lit m p = of_index False (round_dec m p)"

lemma round_dec_1: "round_dec 1 0 = 0x3FF0000000000000"
  and round_dec_cent: "round_dec 1 (- 2) = 0x3F847AE147AE147B"
  by (simp_all add: round_dec_def round_mag_def flog2_def ilog2.simps pow2_le_def Let_def rne_scaled_def rne_div_def)

lemma double_lit_0: "double_lit 0 p = of_index False 0"
  and double_lit_1: "double_lit 1 0 = of_index False 0x3FF0000000000000"
  and double_lit_cent: "double_lit 1 (- 2) = of_index False 0x3F847AE147AE147B"
  by (simp_all add: double_lit_def round_dec_1 round_dec_cent del: One_nat_def)

lemma double_lit_finite: "is_finite (double_lit 0 0)" "is_finite (double_lit 1 0)" "is_finite (double_lit 1 (- 2))"
  by (simp_all add: double_lit_0 double_lit_1 double_lit_cent is_finite_def inf_index_def del: One_nat_def)

definition kDefaultPriceRange :: PriceRange where
  "kDefaultPriceRange =
     \<lparr>pr_start = double_lit 0 0, pr_end = double_lit 1 0, pr_step = double_lit 1 (- 2)\<rparr>"

record WakeMessage =
  schema_version :: int64
  correlation_id :: string
  market_ticker :: string
  asset :: string
  direction :: Direction
  kalshi_price :: double
  model_probability :: double
  fee :: double
  edge :: double
  decision_ts_ms :: int64
  sent_at_ms :: int64
  sent_at_ns :: int64
  recv_ns :: int64
  clock_domain :: string
  dry_run :: bool
  wire_price_yes_dollars :: double
  exchange_index :: int64
  available_size_contracts :: double
  price_ranges :: "PriceRange list"
  correlation_group :: string

definition default_WakeMessage :: WakeMessage where
  "default_WakeMessage =
     \<lparr>schema_version = kSchemaVersion, correlation_id = [], market_ticker = [], asset = [],
      direction = Yes, kalshi_price = double_lit 0 0, model_probability = double_lit 0 0,
      fee = double_lit 0 0, edge = double_lit 0 0, decision_ts_ms = 0, sent_at_ms = 0,
      sent_at_ns = 0, recv_ns = 0, clock_domain = [], dry_run = False,
      wire_price_yes_dollars = double_lit 0 0, exchange_index = - 1,
      available_size_contracts = double_lit 0 0, price_ranges = [kDefaultPriceRange],
      correlation_group = []\<rparr>"

record WakeAck =
  ack_schema_version :: int64
  ack_correlation_id :: string
  ack_received_at_ms :: int64
  ack_status :: WakeAckStatus
  ack_reason :: "string option"

definition default_WakeAck :: WakeAck where
  "default_WakeAck =
     \<lparr>ack_schema_version = kSchemaVersion, ack_correlation_id = [], ack_received_at_ms = 0,
      ack_status = Accepted, ack_reason = None\<rparr>"

datatype DecodeErrorCode =
    MalformedJson
  | UnknownField
  | MissingField
  | WrongType
  | OutOfRange
  | UnknownEnumValue
  | MalformedPriceRange
  | MalformedFrame
  | FrameTooLarge

record DecodeError =
  code :: DecodeErrorCode
  message :: string

text \<open>\<open>Decoded<T>\<close>: a decode error or a value.\<close>

type_synonym 'a Decoded = "DecodeError + 'a"

definition decode_fail :: "DecodeErrorCode \<Rightarrow> string \<Rightarrow> 'a Decoded" where
  "decode_fail c m = Inl \<lparr>code = c, message = m\<rparr>"

end
