(* ===== verification/Utf8.thy ===== *)
theory Utf8
  imports Json_Writer
begin

text \<open>
  What it means for a byte string to be UTF-8, stated without reference to the code: it is
  the concatenation of the encodings of Unicode scalar values. The encoder \<open>append_utf8\<close> of
  \<open>src/json.cpp\<close> is shown to be this encoding.
\<close>

definition scalar :: "nat \<Rightarrow> bool" where
  "scalar cp \<longleftrightarrow> cp < 0xD800 \<or> (0xE000 \<le> cp \<and> cp < 0x110000)"

definition utf8_bytes :: "nat \<Rightarrow> nat list" where
  "utf8_bytes cp =
     (if cp < 0x80 then [cp]
      else if cp < 0x800 then [0xC0 + cp div 64, 0x80 + cp mod 64]
      else if cp < 0x10000 then [0xE0 + cp div 4096, 0x80 + cp div 64 mod 64, 0x80 + cp mod 64]
      else [0xF0 + cp div 262144, 0x80 + cp div 4096 mod 64, 0x80 + cp div 64 mod 64, 0x80 + cp mod 64])"

definition utf8_char :: "nat \<Rightarrow> string" where
  "utf8_char cp = map char_of (utf8_bytes cp)"

definition utf8 :: "nat list \<Rightarrow> string" where
  "utf8 cps = concat (map utf8_char cps)"

definition valid_utf8 :: "string \<Rightarrow> bool" where
  "valid_utf8 s \<longleftrightarrow> (\<exists>cps. (\<forall>cp \<in> set cps. scalar cp) \<and> s = utf8 cps)"

definition ascii :: "string \<Rightarrow> bool" where
  "ascii s \<longleftrightarrow> (\<forall>c \<in> set s. ucode c < 128)"

lemma utf8_Nil [simp]: "utf8 [] = []"
  and utf8_Cons [simp]: "utf8 (cp # cps) = utf8_char cp @ utf8 cps"
  and utf8_append [simp]: "utf8 (cps @ cps') = utf8 cps @ utf8 cps'"
  by (simp_all add: utf8_def)

lemma valid_utf8_Nil [simp]: "valid_utf8 []"
  unfolding valid_utf8_def by (rule exI [of _ "[]"]) simp

lemma valid_utf8_append [intro]: "valid_utf8 s \<Longrightarrow> valid_utf8 t \<Longrightarrow> valid_utf8 (s @ t)"
proof -
  assume "valid_utf8 s" "valid_utf8 t"
  then obtain a b where "\<forall>cp \<in> set a. scalar cp" "s = utf8 a" "\<forall>cp \<in> set b. scalar cp" "t = utf8 b"
    by (auto simp: valid_utf8_def)
  then show ?thesis
    unfolding valid_utf8_def by (intro exI [of _ "a @ b"]) auto
qed

lemma valid_utf8_char: "scalar cp \<Longrightarrow> valid_utf8 (utf8_char cp)"
  unfolding valid_utf8_def by (rule exI [of _ "[cp]"]) simp

lemma utf8_char_ascii: "ucode c < 128 \<Longrightarrow> utf8_char (ucode c) = [c]"
  by (simp add: utf8_char_def utf8_bytes_def)

lemma ascii_simps [simp]: "ascii []" "ascii (c # s) \<longleftrightarrow> ucode c < 128 \<and> ascii s"
  "ascii (s @ t) \<longleftrightarrow> ascii s \<and> ascii t"
  by (auto simp: ascii_def)

lemma ascii_valid: "ascii s \<Longrightarrow> valid_utf8 s"
proof (induction s)
  case (Cons c s)
  then have "valid_utf8 (utf8_char (ucode c))"
    by (intro valid_utf8_char) (simp add: scalar_def)
  with Cons show ?case
    using utf8_char_ascii [of c] valid_utf8_append [of "[c]" s] by simp
qed simp

lemma valid_utf8_asciiI: "ascii s \<Longrightarrow> valid_utf8 t \<Longrightarrow> valid_utf8 (s @ t)"
  by (intro valid_utf8_append) (rule ascii_valid)

lemma ascii_dec: "\<forall>c \<in> set s. is_dec c \<Longrightarrow> ascii s"
  by (auto simp: ascii_def is_dec_def)

lemma hex_digit_ascii: "n < 16 \<Longrightarrow> ucode (kHexDigits ! n) < 128"
proof -
  assume "n < 16"
  then have "kHexDigits ! n \<in> set kHexDigits"
    by (intro nth_mem) (simp add: kHexDigits_def)
  moreover have "\<forall>c \<in> set kHexDigits. ucode c < 128"
    by (simp add: kHexDigits_def ucode_def)
  ultimately show ?thesis by blast
qed

lemma ascii_hex_byte: "ascii (hex_byte c)"
proof -
  have "ucode c div 16 < 16" using ucode_less [of c] by linarith
  then show ?thesis by (simp add: hex_byte_def hex_digit_ascii)
qed

section \<open>The encoder of the source\<close>

lemma or_disjoint_add: "(a::nat) AND b = 0 \<Longrightarrow> a OR b = a + b"
  by (simp add: disjunctive_add_eq_or)

lemma or_mult_pow2: "b < 2 ^ k \<Longrightarrow> (a * 2 ^ k) OR b = a * 2 ^ k + (b::nat)"
proof -
  assume b: "b < 2 ^ k"
  have "(a * 2 ^ k) AND b = 0"
  proof (rule bit_eqI)
    fix n
    have "bit b n \<Longrightarrow> n < k"
    proof (rule ccontr)
      assume "bit b n" "\<not> n < k"
      then have "bit (take_bit k b) n" using b by (simp add: take_bit_nat_eq_self)
      then show False using \<open>\<not> n < k\<close> by (simp add: bit_take_bit_iff)
    qed
    then show "bit ((a * 2 ^ k) AND b) n \<longleftrightarrow> bit 0 n"
      by (auto simp: bit_and_iff push_bit_eq_mult [symmetric] bit_push_bit_iff_nat)
  qed
  then show ?thesis by (rule or_disjoint_add)
qed

lemma unat_or_bits:
  fixes c w :: uint32
  assumes "unat c = a * 2 ^ k" "unat w < 2 ^ k"
  shows "unat (c OR w) = unat c + unat w"
  using or_mult_pow2 [OF assms(2), of a] by (simp add: unsigned_or_eq assms(1))

lemma unat_and_3F: "unat ((w::uint32) AND 0x3F) = unat w mod 64"
proof -
  have "(0x3F::uint32) = mask 6" by (simp add: mask_eq_exp_minus_1)
  then have "w AND 0x3F = take_bit 6 w"
    by (simp only: take_bit_eq_mask)
  then show ?thesis
    by (simp only: unsigned_take_bit_eq) (simp add: take_bit_eq_mod)
qed

lemma unat_drop_bit_u32: "unat (drop_bit n (w::uint32)) = unat w div 2 ^ n"
  by (simp only: unat_drop_bit_eq) (simp only: drop_bit_eq_div)

lemma append_utf8_eq:
  assumes "unat cp < 0x110000"
  shows "append_utf8 out cp = out @ utf8_char (unat cp)"
proof -
  define n where "n = unat cp"
  have less: "cp < 0x80 \<longleftrightarrow> n < 0x80" "cp < 0x800 \<longleftrightarrow> n < 0x800" "cp < 0x10000 \<longleftrightarrow> n < 0x10000"
    by (simp_all add: n_def word_less_nat_alt)
  have tail: "char_of_u32 (0x80 OR (w AND 0x3F)) = char_of (0x80 + unat w mod 64)" for w :: uint32
    using unat_or_bits [where c = "0x80" and a = 2 and k = 6 and w = "w AND 0x3F"] by (simp add: char_of_u32_def unat_and_3F)
  have lead: "char_of_u32 (c OR drop_bit k cp) = char_of (unat c + n div 2 ^ k)"
    if "unat c = a * 2 ^ j" "n div 2 ^ k < 2 ^ j" "unat c + 2 ^ j \<le> 256" for c a j k
    using unat_or_bits [where c = c and a = a and k = j and w = "drop_bit k cp"] that
    by (simp add: char_of_u32_def unat_drop_bit_u32 n_def)
  consider "n < 0x80" | "0x80 \<le> n" "n < 0x800" | "0x800 \<le> n" "n < 0x10000" | "0x10000 \<le> n"
    by linarith
  then show ?thesis
  proof cases
    case 1
    then show ?thesis
      by (simp add: append_utf8_def less utf8_char_def utf8_bytes_def char_of_u32_def n_def [symmetric])
  next
    case 2
    then have "n div 2 ^ 6 < 2 ^ 5" by simp
    with 2 show ?thesis
      using lead [where c = "0xC0" and a = 6 and j = 5 and k = 6]
      by (simp add: append_utf8_def less tail utf8_char_def utf8_bytes_def n_def [symmetric])
  next
    case 3
    then have "n div 2 ^ 12 < 2 ^ 4" by simp
    with 3 show ?thesis
      using lead [where c = "0xE0" and a = 14 and j = 4 and k = 12] tail [of "drop_bit 6 cp"] tail [of cp]
      by (simp add: append_utf8_def less utf8_char_def utf8_bytes_def unat_drop_bit_u32 n_def [symmetric])
  next
    case 4
    then have "n div 2 ^ 18 < 2 ^ 3" using assms by (simp add: n_def)
    with 4 show ?thesis
      using lead [where c = "0xF0" and a = 30 and j = 3 and k = 18] tail [of "drop_bit 12 cp"] tail [of "drop_bit 6 cp"] tail [of cp]
      by (simp add: append_utf8_def less utf8_char_def utf8_bytes_def unat_drop_bit_u32 n_def [symmetric])
  qed
qed

section \<open>Reading an encoding back from its bytes\<close>

lemma utf8_char_eqI: "map ucode s = utf8_bytes cp \<Longrightarrow> s = utf8_char cp"
proof -
  assume "map ucode s = utf8_bytes cp"
  then have "map char_of (map ucode s) = utf8_char cp" by (simp only: utf8_char_def)
  then show ?thesis by (simp add: comp_def)
qed

lemma utf8_bytes_less: "cp < 0x110000 \<Longrightarrow> b \<in> set (utf8_bytes cp) \<Longrightarrow> b < 256"
  by (auto simp: utf8_bytes_def split: if_splits)

lemma map_ucode_utf8_char: "cp < 0x110000 \<Longrightarrow> map ucode (utf8_char cp) = utf8_bytes cp"
  using utf8_bytes_less [of cp] by (auto simp: utf8_char_def comp_def ucode_char_of intro!: map_idI)

lemma div_mod_64: 
  fixes a b :: nat assumes "b < 64" shows "(a * 64 + b) div 64 = a" "(a * 64 + b) mod 64 = b"
  using assms by simp_all

lemma utf8_two:
  assumes "0xC2 \<le> b0" "b0 \<le> 0xDF" "0x80 \<le> b1" "b1 \<le> 0xBF"
  shows "\<exists>cp. scalar cp \<and> 0x80 \<le> cp \<and> [b0, b1] = utf8_bytes cp"
proof -
  define x y where "x = b0 - 0xC0" and "y = b1 - 0x80"
  have xy: "b0 = 0xC0 + x" "b1 = 0x80 + y" "y < 64" "2 \<le> x" "x < 32"
    using assms by (auto simp: x_def y_def)
  then have "scalar (x * 64 + y)" "0x80 \<le> x * 64 + y" "[b0, b1] = utf8_bytes (x * 64 + y)"
    by (auto simp: scalar_def utf8_bytes_def div_mod_64)
  then show ?thesis by blast
qed

lemma utf8_three:
  assumes "0xE0 \<le> b0" "b0 \<le> 0xEF" "0x80 \<le> b1" "b1 \<le> 0xBF" "0x80 \<le> b2" "b2 \<le> 0xBF"
    "b0 = 0xE0 \<longrightarrow> 0xA0 \<le> b1" "b0 = 0xED \<longrightarrow> b1 \<le> 0x9F"
  shows "\<exists>cp. scalar cp \<and> 0x80 \<le> cp \<and> [b0, b1, b2] = utf8_bytes cp"
proof -
  define x y z where "x = b0 - 0xE0" and "y = b1 - 0x80" and "z = b2 - 0x80"
  have xyz: "b0 = 0xE0 + x" "b1 = 0x80 + y" "b2 = 0x80 + z" "z < 64" "y < 64" "x < 16"
    "x = 0 \<longrightarrow> 32 \<le> y" "x = 13 \<longrightarrow> y < 32"
    using assms unfolding x_def y_def z_def by arith+
  define cp where "cp = (x * 64 + y) * 64 + z"
  have "cp div 64 = x * 64 + y" "cp mod 64 = z" unfolding cp_def using xyz by (intro div_mod_64; simp)+
  moreover from this have "cp div 4096 = x" "cp div 64 mod 64 = y"
    using xyz div_mult2_eq [of cp 64 64] by (simp_all add: div_mod_64)
  moreover have "0x800 \<le> cp" "cp < 0x10000" using xyz by (auto simp: cp_def)
  moreover have "scalar cp"
    using xyz by (cases "x < 13"; cases "x = 13") (auto simp: cp_def scalar_def)
  ultimately show ?thesis using xyz by (intro exI [of _ cp]) (simp add: utf8_bytes_def)
qed

lemma utf8_four:
  assumes "0xF0 \<le> b0" "b0 \<le> 0xF4" "0x80 \<le> b1" "b1 \<le> 0xBF" "0x80 \<le> b2" "b2 \<le> 0xBF"
    "0x80 \<le> b3" "b3 \<le> 0xBF" "b0 = 0xF0 \<longrightarrow> 0x90 \<le> b1" "b0 = 0xF4 \<longrightarrow> b1 \<le> 0x8F"
  shows "\<exists>cp. scalar cp \<and> 0x80 \<le> cp \<and> [b0, b1, b2, b3] = utf8_bytes cp"
proof -
  define x y z w where "x = b0 - 0xF0" and "y = b1 - 0x80" and "z = b2 - 0x80" and "w = b3 - 0x80"
  have xyz: "b0 = 0xF0 + x" "b1 = 0x80 + y" "b2 = 0x80 + z" "b3 = 0x80 + w" "w < 64" "z < 64" "y < 64" "x < 5"
    "x = 0 \<longrightarrow> 16 \<le> y" "x = 4 \<longrightarrow> y < 16"
    using assms unfolding x_def y_def z_def w_def by arith+
  define cp where "cp = ((x * 64 + y) * 64 + z) * 64 + w"
  have 1: "cp div 64 = (x * 64 + y) * 64 + z" "cp mod 64 = w" unfolding cp_def using xyz by (intro div_mod_64; simp)+
  have 2: "cp div 4096 = x * 64 + y" using xyz div_mult2_eq [of cp 64 64] 1 by simp
  have 3: "cp div 262144 = x" "cp div 4096 mod 64 = y"
    using xyz div_mult2_eq [of cp 4096 64] 2 by simp_all
  have 4: "cp div 64 mod 64 = z" unfolding 1 using xyz by (intro div_mod_64) simp
  have "0x10000 \<le> cp" "cp < 0x110000" using xyz by (auto simp: cp_def)
  with 1 2 3 4 xyz show ?thesis
    by (intro exI [of _ cp]) (simp add: utf8_bytes_def scalar_def)
qed

end
