(* ===== verification/Json_Reader.thy ===== *)
theory Json_Reader
  imports Utf8 Protocol_Types
begin

text \<open>
  The pull parser of \<open>src/json.cpp\<close>, class \<open>Reader\<close>. A method that returns \<open>bool\<close> and fills
  an output argument is a function from the reader to an optional result and the reader it
  leaves: \<open>None\<close> is the return value \<open>false\<close>, after which no caller looks at the output
  argument. The reader keeps its position into the whole text, the nesting depth, the
  \<open>first_\<close> flags and the first error, as the class does.
\<close>

section \<open>The reader and its primitives\<close>

record reader =
  rd_text :: string
  rd_pos :: nat
  rd_depth :: nat
  rd_first :: "bool list"
  rd_error :: DecodeError
  rd_failed :: bool

definition kMaxDepth :: nat where
  "kMaxDepth = 8"

definition Reader :: "string \<Rightarrow> reader" where
  "Reader txt = \<lparr>rd_text = txt, rd_pos = 0, rd_depth = 0, rd_first = replicate kMaxDepth False,
     rd_error = \<lparr>code = MalformedJson, message = []\<rparr>, rd_failed = False\<rparr>"

definition adv :: "nat \<Rightarrow> reader \<Rightarrow> reader" where
  "adv n r = r\<lparr>rd_pos := rd_pos r + n\<rparr>"

definition starts_with :: "string \<Rightarrow> nat \<Rightarrow> string \<Rightarrow> bool" where
  "starts_with txt pos token \<longleftrightarrow>
     pos \<le> length txt \<and> length txt - pos \<ge> length token \<and> take (length token) (drop pos txt) = token"

definition substr :: "reader \<Rightarrow> nat \<Rightarrow> nat \<Rightarrow> string" where
  "substr r start n = take n (drop start (rd_text r))"

definition fail :: "DecodeErrorCode \<Rightarrow> string \<Rightarrow> reader \<Rightarrow> 'a option \<times> reader" where
  "fail c m r =
     (None, if rd_failed r then r else r\<lparr>rd_failed := True, rd_error := \<lparr>code = c, message = m\<rparr>\<rparr>)"

definition rbind ::
  "'a option \<times> reader \<Rightarrow> ('a \<Rightarrow> reader \<Rightarrow> 'b option \<times> reader) \<Rightarrow> 'b option \<times> reader" where
  "rbind m k = (case m of (None, r) \<Rightarrow> (None, r) | (Some a, r) \<Rightarrow> k a r)"

definition is_space :: "char \<Rightarrow> bool" where
  "is_space c \<longleftrightarrow> c = CHR '' '' \<or> c = CHR 0x09 \<or> c = CHR 0x0A \<or> c = CHR 0x0D"

text \<open>The loops \<open>while (pos_ < text_.size() && ...) ++pos_\<close>.\<close>

function skip_while :: "(char \<Rightarrow> bool) \<Rightarrow> reader \<Rightarrow> reader" where
  "skip_while p r =
     (if rd_pos r < length (rd_text r) \<and> p (rd_text r ! rd_pos r) then skip_while p (adv 1 r) else r)"
  by pat_completeness auto
termination
  by (relation "measure (\<lambda>(p, r). length (rd_text r) - rd_pos r)") (auto simp: adv_def)

declare skip_while.simps [simp del]

definition skip_whitespace :: "reader \<Rightarrow> reader" where
  "skip_whitespace r = skip_while is_space r"

definition peek :: "reader \<Rightarrow> char option \<times> reader" where
  "peek r =
     (let r1 = skip_whitespace r
      in if rd_pos r1 \<ge> length (rd_text r1) then (None, r1) else (Some (rd_text r1 ! rd_pos r1), r1))"

definition expect :: "char \<Rightarrow> reader \<Rightarrow> unit option \<times> reader" where
  "expect c r =
     (case peek r of
        (None, r1) \<Rightarrow> fail MalformedJson (''expected '' @ [CHR 0x27, c, CHR 0x27] @ '', got end of input'') r1
      | (Some seen, r1) \<Rightarrow>
          if seen \<noteq> c then
            fail MalformedJson
              (''expected '' @ [CHR 0x27, c, CHR 0x27] @ '', got byte 0x'' @ hex_byte seen) r1
          else (Some (), adv 1 r1))"

definition push_level :: "reader \<Rightarrow> unit option \<times> reader" where
  "push_level r =
     (if rd_depth r = kMaxDepth then fail MalformedJson ''nesting too deep'' r
      else (Some (), r\<lparr>rd_first := (rd_first r)[rd_depth r := True], rd_depth := rd_depth r + 1\<rparr>))"

definition begin_object :: "reader \<Rightarrow> unit option \<times> reader" where
  "begin_object r = rbind (expect CHR 0x7B r) (\<lambda>_. push_level)"

definition begin_array :: "reader \<Rightarrow> unit option \<times> reader" where
  "begin_array r = rbind (expect CHR 0x5B r) (\<lambda>_. push_level)"

text \<open>The separator before a member or an element: none before the first, a comma after it.\<close>

definition separator :: "reader \<Rightarrow> unit option \<times> reader" where
  "separator r =
     (if rd_first r ! (rd_depth r - 1)
      then (Some (), r\<lparr>rd_first := (rd_first r)[rd_depth r - 1 := False]\<rparr>)
      else expect CHR '','' r)"

definition next_element :: "reader \<Rightarrow> bool option \<times> reader" where
  "next_element r =
     (case peek r of
        (None, r1) \<Rightarrow> fail MalformedJson ''unterminated array'' r1
      | (Some c, r1) \<Rightarrow>
          if c = CHR 0x5D then (Some False, (adv 1 r1)\<lparr>rd_depth := rd_depth r1 - 1\<rparr>)
          else rbind (separator r1) (\<lambda>_ r2. (Some True, r2)))"

section \<open>Strings\<close>

definition hex_digit :: "char \<Rightarrow> uint32 option" where
  "hex_digit c =
     (if is_digit c then Some (word_of_nat (ucode c - ucode CHR ''0''))
      else if ucode CHR ''a'' \<le> ucode c \<and> ucode c \<le> ucode CHR ''f'' then
        Some (word_of_nat (ucode c - ucode CHR ''a'') + 10)
      else if ucode CHR ''A'' \<le> ucode c \<and> ucode c \<le> ucode CHR ''F'' then
        Some (word_of_nat (ucode c - ucode CHR ''A'') + 10)
      else None)"

fun hex_value :: "uint32 \<Rightarrow> string \<Rightarrow> uint32 option" where
  "hex_value v [] = Some v"
| "hex_value v (c # cs) =
     (case hex_digit c of None \<Rightarrow> None | Some digit \<Rightarrow> hex_value (push_bit 4 v OR digit) cs)"

definition read_hex4 :: "reader \<Rightarrow> uint32 option \<times> reader" where
  "read_hex4 r =
     (if rd_pos r + 4 > length (rd_text r) then (None, r)
      else case hex_value 0 (substr r (rd_pos r) 4) of
             None \<Rightarrow> (None, r)
           | Some v \<Rightarrow> (Some v, adv 4 r))"

definition append_code_point :: "string \<Rightarrow> reader \<Rightarrow> string option \<times> reader" where
  "append_code_point out r =
     (case read_hex4 r of
        (None, r1) \<Rightarrow> fail MalformedJson (''invalid '' @ [CHR 0x5C] @ ''u escape'') r1
      | (Some code_point, r1) \<Rightarrow>
          if code_point \<ge> 0xDC00 \<and> code_point \<le> 0xDFFF then
            fail MalformedJson ''no high surrogate in string'' r1
          else if code_point \<ge> 0xD800 \<and> code_point \<le> 0xDBFF then
            if rd_pos r1 + 2 > length (rd_text r1) \<or> rd_text r1 ! rd_pos r1 \<noteq> CHR 0x5C
                \<or> rd_text r1 ! (rd_pos r1 + 1) \<noteq> CHR ''u'' then
              fail MalformedJson ''no low surrogate in string'' r1
            else case read_hex4 (adv 2 r1) of
                   (None, r2) \<Rightarrow> fail MalformedJson ''no low surrogate in string'' r2
                 | (Some low, r2) \<Rightarrow>
                     if low < 0xDC00 \<or> low > 0xDFFF then
                       fail MalformedJson ''no low surrogate in string'' r2
                     else (Some (append_utf8 out
                             (0x10000 + push_bit 10 (code_point - 0xD800) + (low - 0xDC00))), r2)
          else (Some (append_utf8 out code_point), r1))"

definition append_escape :: "string \<Rightarrow> reader \<Rightarrow> string option \<times> reader" where
  "append_escape out r =
     (if rd_pos r \<ge> length (rd_text r) then fail MalformedJson ''unterminated escape sequence'' r
      else let c = rd_text r ! rd_pos r; r1 = adv 1 r
           in if c = CHR 0x22 \<or> c = CHR 0x5C \<or> c = CHR ''/'' then (Some (out @ [c]), r1)
              else if c = CHR ''b'' then (Some (out @ [CHR 0x08]), r1)
              else if c = CHR ''f'' then (Some (out @ [CHR 0x0C]), r1)
              else if c = CHR ''n'' then (Some (out @ [CHR 0x0A]), r1)
              else if c = CHR ''r'' then (Some (out @ [CHR 0x0D]), r1)
              else if c = CHR ''t'' then (Some (out @ [CHR 0x09]), r1)
              else if c = CHR ''u'' then append_code_point out r1
              else fail MalformedJson (''invalid escape: byte 0x'' @ hex_byte c) r1)"

definition utf8_error :: string where
  "utf8_error = ''str is not valid UTF-8''"

definition is_continuation :: "reader \<Rightarrow> nat \<Rightarrow> nat \<Rightarrow> nat \<Rightarrow> bool" where
  "is_continuation r i low high \<longleftrightarrow> low \<le> ucode (rd_text r ! i) \<and> ucode (rd_text r ! i) \<le> high"

text \<open>Length of the sequence a lead byte opens, and the range its second byte must be in.\<close>

definition utf8_lead :: "nat \<Rightarrow> (nat \<times> nat \<times> nat) option" where
  "utf8_lead lead =
     (if lead \<ge> 0xC2 \<and> lead \<le> 0xDF then Some (2, 0x80, 0xBF)
      else if lead \<ge> 0xE0 \<and> lead \<le> 0xEF then
        Some (3, if lead = 0xE0 then 0xA0 else 0x80, if lead = 0xED then 0x9F else 0xBF)
      else if lead \<ge> 0xF0 \<and> lead \<le> 0xF4 then
        Some (4, if lead = 0xF0 then 0x90 else 0x80, if lead = 0xF4 then 0x8F else 0xBF)
      else None)"

definition validate_utf8_run :: "reader \<Rightarrow> unit option \<times> reader" where
  "validate_utf8_run r =
     (case utf8_lead (ucode (rd_text r ! rd_pos r)) of
        None \<Rightarrow> fail MalformedJson utf8_error r
      | Some (len, second_low, second_high) \<Rightarrow>
          if rd_pos r + len > length (rd_text r) then fail MalformedJson utf8_error r
          else if \<not> is_continuation r (rd_pos r + 1) second_low second_high then
            fail MalformedJson utf8_error r
          else if \<not> list_all (\<lambda>i. is_continuation r (rd_pos r + i) 0x80 0xBF) [2..<len] then
            fail MalformedJson utf8_error r
          else (Some (), adv len r))"

section \<open>How an operation moves the reader\<close>

text \<open>
  \<open>rest r\<close> is the text ahead of the reader. \<open>moves r r'\<close> says what every operation keeps: the
  text, a position that only advances and stays within the text, the first error once there is
  one, and error messages that are UTF-8 (they are echoed to the peer).
\<close>

definition rest :: "reader \<Rightarrow> string" where
  "rest r = drop (rd_pos r) (rd_text r)"

definition moves :: "reader \<Rightarrow> reader \<Rightarrow> bool" where
  "moves r r' \<longleftrightarrow>
     rd_text r' = rd_text r \<and> rd_pos r \<le> rd_pos r'
     \<and> rd_pos r' \<le> max (rd_pos r) (length (rd_text r))
     \<and> (rd_failed r \<longrightarrow> rd_failed r' \<and> rd_error r' = rd_error r)
     \<and> (valid_utf8 (message (rd_error r)) \<longrightarrow> valid_utf8 (message (rd_error r')))"

definition same_level :: "reader \<Rightarrow> reader \<Rightarrow> bool" where
  "same_level r r' \<longleftrightarrow> rd_depth r' = rd_depth r \<and> rd_first r' = rd_first r"

lemma moves_refl [simp]: "moves r r" "same_level r r"
  by (simp_all add: moves_def same_level_def)

lemma moves_trans [trans]: "moves r r' \<Longrightarrow> moves r' r'' \<Longrightarrow> moves r r''"
  by (auto simp: moves_def)

lemma same_level_trans [trans]: "same_level r r' \<Longrightarrow> same_level r' r'' \<Longrightarrow> same_level r r''"
  by (auto simp: same_level_def)

lemma moves_text: "moves r r' \<Longrightarrow> rd_text r' = rd_text r"
  and moves_pos: "moves r r' \<Longrightarrow> rd_pos r \<le> rd_pos r'"
  and moves_bound: "moves r r' \<Longrightarrow> rd_pos r \<le> length (rd_text r) \<Longrightarrow> rd_pos r' \<le> length (rd_text r')"
  and moves_failed: "moves r r' \<Longrightarrow> rd_failed r \<Longrightarrow> rd_failed r' \<and> rd_error r' = rd_error r"
  and moves_message: "moves r r' \<Longrightarrow> valid_utf8 (message (rd_error r)) \<Longrightarrow> valid_utf8 (message (rd_error r'))"
  by (auto simp: moves_def)

lemma moves_adv: "rd_pos r + n \<le> length (rd_text r) \<Longrightarrow> moves r (adv n r)"
  by (simp add: moves_def adv_def)

lemma adv_fields [simp]:
  "rd_text (adv n r) = rd_text r" "rd_pos (adv n r) = rd_pos r + n"
  "rd_depth (adv n r) = rd_depth r" "rd_first (adv n r) = rd_first r"
  "rd_error (adv n r) = rd_error r" "rd_failed (adv n r) = rd_failed r"
  "same_level r (adv n r)"
  by (simp_all add: adv_def same_level_def)

lemma adv_adv [simp]: "adv m (adv n r) = adv (n + m) r"
  by (simp add: adv_def)

lemma adv_0 [simp]: "adv 0 r = r"
  by (simp add: adv_def)

lemma rest_adv [simp]: "rest (adv n r) = drop n (rest r)"
  by (simp add: rest_def add.commute)

lemma rest_Cons: "rest r = c # s \<longleftrightarrow>
  rd_pos r < length (rd_text r) \<and> rd_text r ! rd_pos r = c \<and> drop (rd_pos r + 1) (rd_text r) = s"
proof (cases "rd_pos r < length (rd_text r)")
  case True
  then show ?thesis by (simp add: rest_def Cons_nth_drop_Suc [symmetric])
next
  case False
  then show ?thesis by (simp add: rest_def)
qed

lemma rest_Nil: "rest r = [] \<longleftrightarrow> rd_pos r \<ge> length (rd_text r)"
  by (simp add: rest_def)

lemma rest_hd: "rd_pos r < length (rd_text r) \<Longrightarrow> \<exists>s. rest r = rd_text r ! rd_pos r # s"
  by (simp add: rest_Cons)

lemma length_rest: "length (rest r) = length (rd_text r) - rd_pos r"
  by (simp add: rest_def)

lemma moves_adv_rest: "n \<le> length (rest r) \<Longrightarrow> rest r \<noteq> [] \<Longrightarrow> moves r (adv n r)"
  by (rule moves_adv) (auto simp: rest_def)

lemma fail_result [simp]: "fst (fail c m r) = None" "rd_failed (snd (fail c m r))"
  by (simp_all add: fail_def)

lemma fail_eq: "fail c m r = (None, snd (fail c m r))"
  by (simp add: fail_def)

lemma fail_neq_Some [simp]: "fail c m r \<noteq> (Some a, r')"
  by (simp add: fail_def)

lemma moves_fail: "valid_utf8 m \<Longrightarrow> moves r (snd (fail c m r))"
  by (simp add: moves_def fail_def)

lemma same_level_fail [simp]: "same_level r (snd (fail c m r))"
  by (simp add: same_level_def fail_def)

lemma skip_while_eq: "skip_while p r = adv (length (takeWhile p (rest r))) r"
proof (induction p r rule: skip_while.induct)
  case (1 p r)
  show ?case
  proof (cases "rd_pos r < length (rd_text r) \<and> p (rd_text r ! rd_pos r)")
    case True
    then obtain s where "rest r = rd_text r ! rd_pos r # s" using rest_hd by blast
    with True 1 show ?thesis by (simp add: skip_while.simps [of p r])
  next
    case False
    moreover have "rest r = [] \<or> \<not> p (hd (rest r))"
      using False rest_hd [of r] by (cases "rd_pos r < length (rd_text r)") (auto simp: rest_Nil)
    ultimately show ?thesis by (auto simp: skip_while.simps [of p r] takeWhile_eq_Nil_iff [symmetric])
  qed
qed

lemma moves_skip_while: "moves r (skip_while p r)" "same_level r (skip_while p r)"
proof -
  have "length (takeWhile p (rest r)) \<le> length (rest r)" by (rule length_takeWhile_le)
  then show "moves r (skip_while p r)"
    by (cases "rest r = []") (auto simp: skip_while_eq intro: moves_adv_rest)
qed (simp add: skip_while_eq)

lemma moves_skip_whitespace: "moves r (skip_whitespace r)" "same_level r (skip_whitespace r)"
  by (simp_all add: skip_whitespace_def moves_skip_while)

lemma peek_NoneD: "peek r = (None, r1) \<Longrightarrow> moves r r1 \<and> same_level r r1 \<and> rest r1 = []"
  using moves_skip_whitespace [of r] by (auto simp: peek_def Let_def rest_Nil split: if_splits)

lemma peek_SomeD: "peek r = (Some c, r1) \<Longrightarrow> moves r r1 \<and> same_level r r1 \<and> (\<exists>s. rest r1 = c # s)"
  using moves_skip_whitespace [of r] by (auto simp: peek_def Let_def rest_Cons split: if_splits)

lemma rest_nth: "rest r = s \<Longrightarrow> i < length s \<Longrightarrow> rd_text r ! (rd_pos r + i) = s ! i"
  by (auto simp: rest_def)

lemma rest_len: "rest r = c # s \<Longrightarrow> rd_pos r + n > length (rd_text r) \<longleftrightarrow> n > Suc (length s)"
  using length_rest [of r] by (auto simp: rest_Cons)

lemma peek_at: "rest r = c # s \<Longrightarrow> \<not> is_space c \<Longrightarrow> peek r = (Some c, r)"
  by (simp add: peek_def Let_def skip_whitespace_def skip_while.simps [of is_space r] rest_Cons)

lemma not_space [simp]: "\<not> is_space CHR 0x22" "\<not> is_space CHR 0x7B" "\<not> is_space CHR 0x7D"
  "\<not> is_space CHR 0x5B" "\<not> is_space CHR 0x5D" "\<not> is_space CHR '',''" "\<not> is_space CHR '':''"
  "\<not> is_space CHR ''-''" "\<not> is_space CHR ''n''" "\<not> is_space CHR ''t''" "\<not> is_space CHR ''f''"
  by (simp_all add: is_space_def)

section \<open>The contract of an operation\<close>

text \<open>
  Every operation that returns \<open>false\<close> has recorded an error, every operation moves the reader
  as above, and what it returns satisfies \<open>good\<close>. A value operation also consumes something
  when it succeeds and leaves the nesting level alone.
\<close>

definition outcome :: "('a \<Rightarrow> bool) \<Rightarrow> reader \<Rightarrow> 'a option \<times> reader \<Rightarrow> bool" where
  "outcome good r res \<longleftrightarrow>
     moves r (snd res) \<and> (case fst res of None \<Rightarrow> rd_failed (snd res) | Some a \<Rightarrow> good a)"

definition consumes :: "reader \<Rightarrow> 'a option \<times> reader \<Rightarrow> bool" where
  "consumes r res \<longleftrightarrow>
     (fst res \<noteq> None \<longrightarrow> same_level r (snd res) \<and> rd_pos r < rd_pos (snd res))"

lemma outcome_Some [simp]: "outcome good r (Some a, r') \<longleftrightarrow> moves r r' \<and> good a"
  and outcome_None [simp]: "outcome good r (None, r') \<longleftrightarrow> moves r r' \<and> rd_failed r'"
  by (simp_all add: outcome_def)

lemma outcome_fail: "valid_utf8 m \<Longrightarrow> outcome good r (fail c m r)"
  by (simp add: outcome_def moves_fail)

lemma outcome_after: "moves r r1 \<Longrightarrow> outcome good r1 res \<Longrightarrow> outcome good r res"
  by (auto simp: outcome_def intro: moves_trans split: option.splits)

lemma outcome_simple_fail: "moves r r1 \<Longrightarrow> ascii m \<Longrightarrow> outcome good r (fail c m r1)"
  by (rule outcome_after) (auto intro: outcome_fail ascii_valid)

lemma outcome_weaken: "outcome good r res \<Longrightarrow> (\<And>a. good a \<Longrightarrow> good' a) \<Longrightarrow> outcome good' r res"
  by (auto simp: outcome_def split: option.splits)

lemma outcome_rbind:
  assumes "outcome good r m" "\<And>a r1. m = (Some a, r1) \<Longrightarrow> good a \<Longrightarrow> outcome good' r1 (k a r1)"
  shows "outcome good' r (rbind m k)"
  using assms by (cases m; cases "fst m") (auto simp: rbind_def intro: outcome_after)

lemma consumes_simps [simp]: "consumes r (None, r')" "consumes r (fail c m r')"
  "consumes r (Some a, r') \<longleftrightarrow> same_level r r' \<and> rd_pos r < rd_pos r'"
  by (simp_all add: consumes_def)

lemma consumes_after: "same_level r r1 \<Longrightarrow> rd_pos r \<le> rd_pos r1 \<Longrightarrow> consumes r1 res \<Longrightarrow> consumes r res"
  by (auto simp: consumes_def intro: same_level_trans)

lemma rbind_simps [simp]: "rbind (None, r) k = (None, r)" "rbind (Some a, r) k = k a r"
  by (simp_all add: rbind_def)

lemma rbind_fail [simp]: "rbind (fail c m r) k = fail c m r"
  by (simp add: fail_def)

lemma rbind_SomeD: "rbind m k = (Some b, r') \<Longrightarrow> \<exists>a r1. m = (Some a, r1) \<and> k a r1 = (Some b, r')"
  by (auto simp: rbind_def split: prod.splits option.splits)

locale reader_op =
  fixes run :: "reader \<Rightarrow> 'a option \<times> reader" and good :: "'a \<Rightarrow> bool"
  assumes run_outcome: "outcome good r (run r)"
begin

lemma run_NoneD: "run r = (None, r') \<Longrightarrow> moves r r' \<and> rd_failed r'"
  using run_outcome [of r] by simp

lemma run_SomeD: "run r = (Some a, r') \<Longrightarrow> moves r r' \<and> good a"
  using run_outcome [of r] by simp

end

locale value_op = reader_op +
  assumes run_consumes: "consumes r (run r)"

section \<open>The contracts of the structural operations\<close>

lemma expect_outcome:
  assumes c: "ucode c < 128"
  shows "outcome (\<lambda>_. True) r (expect c r)"
proof (cases "peek r")
  case (Pair x r1)
  have m: "moves r r1" using Pair peek_NoneD peek_SomeD by (cases x; blast)
  have "outcome (\<lambda>_. True) r1 (expect c r)"
  proof (cases x)
    case None
    have "ascii (''expected '' @ [CHR 0x27, c, CHR 0x27] @ '', got end of input'')"
      using c by simp
    then show ?thesis
      unfolding expect_def Pair None prod.case option.case by (intro outcome_fail ascii_valid)
  next
    case (Some d)
    then obtain s where "rest r1 = d # s" using Pair peek_SomeD by blast
    then have "moves r1 (adv 1 r1)" by (intro moves_adv_rest) auto
    moreover have "ascii (''expected '' @ [CHR 0x27, c, CHR 0x27] @ '', got byte 0x'' @ hex_byte d)"
      using c ascii_hex_byte [of d] by simp
    ultimately show ?thesis
      unfolding expect_def Pair Some prod.case option.case
      by (cases "d = c") (simp_all only: outcome_Some if_True if_False not_True_eq_False not_False_eq_True simp_thms outcome_fail ascii_valid)
  qed
  with m show ?thesis by (rule outcome_after)
qed

lemma expect_consumes: "consumes r (expect c r)"
proof (cases "peek r")
  case (Pair x r1)
  then have "same_level r r1 \<and> rd_pos r \<le> rd_pos r1"
    using peek_NoneD peek_SomeD moves_pos by (cases x) blast+
  then show ?thesis
    by (cases x) (simp_all add: expect_def Pair same_level_def)
qed

lemma push_level_outcome: "outcome (\<lambda>_. True) r (push_level r)"
proof -
  have "ascii ''nesting too deep''" by simp
  then show ?thesis
    by (auto simp: push_level_def moves_def intro!: outcome_fail ascii_valid)
qed

lemma brackets_ascii [simp]: "ucode CHR 0x7B < 128" "ucode CHR 0x5B < 128" "ucode CHR '','' < 128"
  "ucode CHR '':'' < 128"
  by simp_all

interpretation begin_object: reader_op begin_object "\<lambda>_. True"
  by unfold_locales
     (auto simp: begin_object_def intro!: outcome_rbind [OF expect_outcome] push_level_outcome)

interpretation begin_array: reader_op begin_array "\<lambda>_. True"
  by unfold_locales
     (auto simp: begin_array_def intro!: outcome_rbind [OF expect_outcome] push_level_outcome)

lemma separator_outcome: "outcome (\<lambda>_. True) r (separator r)"
  by (auto simp: separator_def moves_def intro!: expect_outcome)

interpretation next_element: reader_op next_element "\<lambda>_. True"
proof
  fix r
  show "outcome (\<lambda>_. True) r (next_element r)"
  proof (cases "peek r")
    case (Pair x r1)
    have m: "moves r r1" using Pair peek_NoneD peek_SomeD by (cases x; blast)
    have "ascii ''unterminated array''" by simp
    moreover have "moves r1 ((adv 1 r1)\<lparr>rd_depth := rd_depth r1 - 1\<rparr>)" if "x = Some c" for c
      using that Pair peek_SomeD [of r c r1] by (auto simp: moves_def rest_Cons)
    ultimately show ?thesis using Pair
      by (cases x) (auto simp: next_element_def intro!: outcome_after [OF m] outcome_fail ascii_valid
            outcome_rbind [OF separator_outcome] moves_trans [OF m])
  qed
qed

end
