(* ===== verification/Json_Strings.thy ===== *)
theory Json_Strings
  imports Json_Reader
begin

text \<open>
  Strings of \<open>src/json.cpp\<close>: the UTF-8 validator accepts exactly the encodings of Unicode
  scalar values, an accepted escape appends the encoding of one scalar value, so a string that
  is read is UTF-8, and a UTF-8 string that \<open>append_string\<close> wrote is read back as it was.
\<close>

section \<open>The UTF-8 validator accepts exactly the encodings of scalar values\<close>

lemma digit_64:
  fixes q :: nat
  assumes "q div 64 = k" shows "q mod 64 = q - 64 * k" "64 * k \<le> q" "q < 64 * k + 64"
  using assms by (auto simp: minus_mult_div_eq_mod [symmetric])

lemma utf8_lead_bytes: 
  assumes cp: "scalar cp" "0x80 \<le> cp"
  shows "\<exists>b0 bs lo hi. utf8_bytes cp = b0 # bs \<and> utf8_lead b0 = Some (Suc (length bs), lo, hi) \<and>
      lo \<le> hd bs \<and> hd bs \<le> hi \<and> (\<forall>b \<in> set (tl bs). 0x80 \<le> b \<and> b \<le> 0xBF)"
proof -
  have max: "cp < 0x110000" using cp by (auto simp: scalar_def)
  consider "cp < 0x800" | "0x800 \<le> cp" "cp < 0x10000" | "0x10000 \<le> cp" by linarith
  then show ?thesis
  proof cases
    case 1
    with cp show ?thesis by (auto simp: utf8_bytes_def utf8_lead_def)
  next
    case 2
    have q: "cp div 4096 = cp div 64 div 64" by (simp add: div_mult2_eq [symmetric])
    have "32 \<le> cp div 64" "cp div 64 < 864 \<or> 896 \<le> cp div 64"
      using 2 cp(1) by (auto simp: scalar_def)
    then have "cp div 4096 = 0 \<longrightarrow> 32 \<le> cp div 64 mod 64" "cp div 4096 = 13 \<longrightarrow> cp div 64 mod 64 < 32"
      unfolding q using digit_64 [of "cp div 64" 0] digit_64 [of "cp div 64" 13] by (auto simp: less_diff_conv2)
    with 2 show ?thesis by (auto simp: utf8_bytes_def utf8_lead_def)
  next
    case 3
    have q: "cp div 262144 = cp div 4096 div 64" by (simp add: div_mult2_eq [symmetric])
    have "16 \<le> cp div 4096" "cp div 4096 < 272" using 3 max by auto
    then have "cp div 262144 = 0 \<longrightarrow> 16 \<le> cp div 4096 mod 64" "cp div 262144 = 4 \<longrightarrow> cp div 4096 mod 64 < 16"
      unfolding q using digit_64 [of "cp div 4096" 0] digit_64 [of "cp div 4096" 4] by (auto simp: less_diff_conv2)
    moreover have "cp div 262144 \<le> 4" using max by linarith
    ultimately show ?thesis using 3 by (auto simp: utf8_bytes_def utf8_lead_def)
  qed
qed

lemma utf8_lead_decodes:
  assumes "utf8_lead b0 = Some (Suc (length bs), lo, hi)" "lo \<le> hd bs" "hd bs \<le> hi"
    "\<forall>b \<in> set (tl bs). 0x80 \<le> b \<and> b \<le> 0xBF"
  shows "\<exists>cp. scalar cp \<and> 0x80 \<le> cp \<and> b0 # bs = utf8_bytes cp"
proof -
  have len: "length bs = 1 \<and> 0xC2 \<le> b0 \<and> b0 \<le> 0xDF \<or> length bs = 2 \<and> 0xE0 \<le> b0 \<and> b0 \<le> 0xEF
      \<or> length bs = 3 \<and> 0xF0 \<le> b0 \<and> b0 \<le> 0xF4"
    using assms(1) by (simp add: utf8_lead_def split: if_splits)
  have list1: "\<exists>x. xs = [x]" if "length xs = 1" for xs :: "nat list"
    using that by (auto simp: length_Suc_conv)
  have list2: "\<exists>x y. xs = [x, y]" if "length xs = 2" for xs :: "nat list"
    using that by (auto simp: length_Suc_conv numeral_2_eq_2)
  have list3: "\<exists>x y z. xs = [x, y, z]" if "length xs = 3" for xs :: "nat list"
    using that by (auto simp: length_Suc_conv numeral_3_eq_3)
  consider b1 where "bs = [b1]" "0xC2 \<le> b0" "b0 \<le> 0xDF"
    | b1 b2 where "bs = [b1, b2]" "0xE0 \<le> b0" "b0 \<le> 0xEF"
    | b1 b2 b3 where "bs = [b1, b2, b3]" "0xF0 \<le> b0" "b0 \<le> 0xF4"
    using len list1 list2 list3 by metis
  then show ?thesis
  proof cases
    case 1
    with assms utf8_two [of b0 b1] show ?thesis by (auto simp: utf8_lead_def)
  next
    case 2
    with assms utf8_three [of b0 b1 b2] show ?thesis by (auto simp: utf8_lead_def split: if_splits)
  next
    case 3
    with assms utf8_four [of b0 b1 b2 b3] show ?thesis by (auto simp: utf8_lead_def split: if_splits)
  qed
qed

lemma tail_bytes:
  assumes "n \<le> length s"
  shows "list_all (\<lambda>i. P (ucode (s ! (i - 1)))) [2..<Suc n] \<longleftrightarrow> (\<forall>b \<in> set (tl (map ucode (take n s))). P b)"
proof -
  have "map (\<lambda>i. ucode (s ! (i - 1))) [2..<Suc n] = tl (map ucode (take n s))"
    using assms by (intro nth_equalityI) (auto simp: nth_tl simp del: upt_Suc)
  then have "set (tl (map ucode (take n s))) = (\<lambda>i. ucode (s ! (i - 1))) ` set [2..<Suc n]"
    by (metis list.set_map)
  then show ?thesis by (simp add: list_all_iff del: upt_Suc)
qed

lemma utf8_lead_pos: "utf8_lead b = Some (len, lo, hi) \<Longrightarrow> \<exists>n. len = Suc n \<and> 1 \<le> n"
  by (auto simp: utf8_lead_def split: if_splits)

definition sequence_ok :: "nat \<Rightarrow> nat \<Rightarrow> nat list \<Rightarrow> bool" where
  "sequence_ok lo hi bs \<longleftrightarrow> lo \<le> hd bs \<and> hd bs \<le> hi \<and> (\<forall>b \<in> set (tl bs). 0x80 \<le> b \<and> b \<le> 0xBF)"

lemma validate_utf8_run_eq:
  assumes r: "rest r = c # s"
  shows "validate_utf8_run r =
     (case utf8_lead (ucode c) of
        None \<Rightarrow> fail MalformedJson utf8_error r
      | Some (len, lo, hi) \<Rightarrow>
          if len \<le> length (c # s) \<and> sequence_ok lo hi (map ucode (take (len - 1) s))
          then (Some (), adv len r) else fail MalformedJson utf8_error r)"
proof (cases "utf8_lead (ucode c)")
  case None
  with r show ?thesis by (simp add: validate_utf8_run_def rest_Cons)
next
  case (Some a)
  obtain len lo hi where a: "a = (len, lo, hi)" by (cases a)
  with Some obtain n where n: "len = Suc n" "1 \<le> n" using utf8_lead_pos by blast
  have c: "rd_text r ! rd_pos r = c" using r by (simp add: rest_Cons)
  show ?thesis
  proof (cases "n \<le> length s")
    case False
    then show ?thesis
      using Some a n rest_len [OF r, of len] by (simp add: validate_utf8_run_def c)
  next
    case True
    have at: "rd_text r ! (rd_pos r + i) = s ! (i - 1)" if "1 \<le> i" "i \<le> n" for i
      using rest_nth [OF r, of i] that True by (cases i) auto
    have "is_continuation r (rd_pos r + 1) lo hi \<longleftrightarrow>
        lo \<le> hd (map ucode (take n s)) \<and> hd (map ucode (take n s)) \<le> hi"
      using at [of 1] n True by (cases s) (auto simp: is_continuation_def take_Cons')
    moreover have "list_all (\<lambda>i. is_continuation r (rd_pos r + i) 0x80 0xBF) [2..<len] \<longleftrightarrow>
        (\<forall>b \<in> set (tl (map ucode (take n s))). 0x80 \<le> b \<and> b \<le> 0xBF)"
    proof -
      have "list_all (\<lambda>i. is_continuation r (rd_pos r + i) 0x80 0xBF) [2..<Suc n]
         = list_all (\<lambda>i. 0x80 \<le> ucode (s ! (i - 1)) \<and> ucode (s ! (i - 1)) \<le> 0xBF) [2..<Suc n]"
        using at by (intro list.pred_cong) (auto simp: is_continuation_def simp del: upt_Suc)
      then show ?thesis
        unfolding n(1) using tail_bytes [OF True, of "\<lambda>b. 0x80 \<le> b \<and> b \<le> 0xBF"] by simp
    qed
    ultimately show ?thesis
      using Some a n True rest_len [OF r, of len]
      by (simp add: validate_utf8_run_def c sequence_ok_def)
  qed
qed

lemma validate_accepts:
  assumes "scalar cp" "0x80 \<le> cp" "rest r = utf8_char cp @ post"
  shows "validate_utf8_run r = (Some (), adv (length (utf8_char cp)) r)"
proof -
  obtain b0 bs lo hi where u: "utf8_bytes cp = b0 # bs" "utf8_lead b0 = Some (Suc (length bs), lo, hi)"
      "sequence_ok lo hi bs"
    using utf8_lead_bytes [OF assms(1,2)] unfolding sequence_ok_def by blast
  obtain c s where cs: "utf8_char cp = c # s" using u(1) by (simp add: utf8_char_def)
  moreover have "map ucode (utf8_char cp) = b0 # bs"
    using map_ucode_utf8_char [of cp] assms(1) u(1) by (auto simp: scalar_def)
  ultimately have "ucode c = b0" "map ucode s = bs" "length s = length bs" by auto
  with u cs show ?thesis
    using validate_utf8_run_eq [of r c "s @ post"] assms(3) by simp
qed

lemma validate_sound:
  assumes "rest r = c # s" "validate_utf8_run r = (Some (), r')"
  shows "\<exists>cp post. scalar cp \<and> 0x80 \<le> cp \<and> rest r = utf8_char cp @ post \<and> r' = adv (length (utf8_char cp)) r"
proof -
  obtain len lo hi where l: "utf8_lead (ucode c) = Some (len, lo, hi)" "len \<le> length (c # s)"
      "sequence_ok lo hi (map ucode (take (len - 1) s))" "r' = adv len r"
    using assms(2) unfolding validate_utf8_run_eq [OF assms(1)]
    by (auto split: option.splits if_splits)
  obtain n where n: "len = Suc n" using utf8_lead_pos [OF l(1)] by blast
  with l have "utf8_lead (ucode c) = Some (Suc (length (map ucode (take n s))), lo, hi)" by simp
  with l(3) n obtain cp where cp: "scalar cp" "0x80 \<le> cp" "ucode c # map ucode (take n s) = utf8_bytes cp"
    using utf8_lead_decodes [of "ucode c" "map ucode (take n s)" lo hi] unfolding sequence_ok_def by auto
  then have "c # take n s = utf8_char cp" by (intro utf8_char_eqI) simp
  moreover from this have "len = length (utf8_char cp)" using n l(2) by (metis length_Cons length_take min.absorb2 Suc_le_mono)
  moreover have "rest r = (c # take n s) @ drop n s" using assms(1) by simp
  ultimately show ?thesis using cp l(4) by metis
qed

section \<open>Escapes\<close>

text \<open>An escape that is accepted appends the encoding of one scalar value.\<close>

definition extends :: "string \<Rightarrow> string \<Rightarrow> bool" where
  "extends out out' \<longleftrightarrow> (\<exists>cp. scalar cp \<and> out' = out @ utf8_char cp)"

lemma hex_digit_less:
  assumes "hex_digit c = Some d"
  shows "unat d < 16"
proof -
  have "\<exists>n < 16. d = word_of_nat n"
  proof (cases "is_dec c")
    case True
    with assms show ?thesis
      by (intro exI [of _ "ucode c - 48"]) (auto simp: hex_digit_def is_dec_def simp del: of_nat_diff)
  next
    case False
    have ten: "word_of_nat n + 10 = (word_of_nat (n + 10) :: uint32)" for n by simp
    from assms False show ?thesis
      unfolding hex_digit_def ten
      by (auto simp del: of_nat_diff of_nat_add split: if_splits intro!: exI)
  qed
  then show ?thesis by (auto simp: unat_of_nat)
qed

lemma unat_hex_step:
  fixes v d :: uint32
  assumes "unat v < 2 ^ 28" "unat d < 16"
  shows "unat (push_bit 4 v OR d) = 16 * unat v + unat d"
proof -
  have "unat (push_bit 4 v) = unat v * 2 ^ 4"
    using assms(1) by (simp add: push_bit_eq_mult unat_word_ariths)
  moreover from this have "unat (push_bit 4 v OR d) = unat (push_bit 4 v) + unat d"
    using assms(2) by (intro unat_or_bits [where k = 4]) auto
  ultimately show ?thesis by simp
qed

lemma hex_value_less:
  "hex_value v cs = Some w \<Longrightarrow> unat v < 16 ^ k \<Longrightarrow> k + length cs \<le> 7 \<Longrightarrow> unat w < 16 ^ (k + length cs)"
proof (induction v cs arbitrary: k rule: hex_value.induct)
  case (2 v c cs)
  then obtain d where d: "hex_digit c = Some d" "hex_value (push_bit 4 v OR d) cs = Some w"
    by (auto split: option.splits)
  have "(16::nat) ^ k \<le> 16 ^ 7" using 2 by (intro power_increasing) auto
  then have "unat v < 2 ^ 28" using 2(3) by simp
  then have "unat (push_bit 4 v OR d) < 16 ^ Suc k"
    using unat_hex_step [of v d] hex_digit_less [OF d(1)] 2(3) by simp
  from 2(1) [OF d(1) d(2) this] 2(4) show ?case by simp
qed simp

lemma read_hex4_SomeD: "read_hex4 r = (Some v, r') \<Longrightarrow>
   moves r r' \<and> same_level r r' \<and> rd_pos r \<le> rd_pos r' \<and> unat v < 0x10000"
  using hex_value_less [of 0 "substr r (rd_pos r) 4" v 0] moves_adv [of r 4]
  by (auto simp: read_hex4_def substr_def split: if_splits option.splits)

lemma read_hex4_NoneD: "read_hex4 r = (None, r') \<Longrightarrow> r' = r"
  by (auto simp: read_hex4_def split: if_splits option.splits)

lemma unat_pair:
  fixes a b :: uint32
  assumes "unat a < 1024" "unat b < 1024"
  shows "unat (0x10000 + push_bit 10 a + b) = 0x10000 + unat a * 1024 + unat b"
  using assms by (simp add: push_bit_eq_mult unat_word_ariths)

lemma surrogate_pair:
  fixes h l :: uint32
  assumes "0xD800 \<le> h" "h \<le> 0xDBFF" "\<not> l < 0xDC00" "\<not> 0xDFFF < l"
  shows "unat (0x10000 + push_bit 10 (h - 0xD800) + (l - 0xDC00))
       = 0x10000 + (unat h - 0xD800) * 1024 + (unat l - 0xDC00)"
proof -
  have b: "0xD800 \<le> unat h" "unat h \<le> 0xDBFF" "0xDC00 \<le> unat l" "unat l \<le> 0xDFFF"
    using assms by (auto simp: word_le_nat_alt not_less)
  then have d: "unat (h - 0xD800) = unat h - 0xD800" "unat (l - 0xDC00) = unat l - 0xDC00"
    by (simp_all add: unat_sub word_le_nat_alt)
  with b have "unat (h - 0xD800) < 1024" "unat (l - 0xDC00) < 1024" by auto
  from unat_pair [OF this] show ?thesis unfolding d .
qed

lemma surrogate_pair_extends:
  assumes "0xD800 \<le> h" "h \<le> 0xDBFF" "\<not> l < 0xDC00" "\<not> 0xDFFF < l"
  shows "extends out (append_utf8 out (0x10000 + push_bit 10 (h - 0xD800) + (l - 0xDC00)))"
proof -
  define cp where "cp = 0x10000 + push_bit 10 (h - 0xD800) + (l - 0xDC00)"
  have "unat h \<le> 0xDBFF" "unat l \<le> 0xDFFF"
    using assms by (auto simp: word_le_nat_alt not_less)
  then have "unat cp < 0x110000" "0x10000 \<le> unat cp"
    using surrogate_pair [OF assms] unfolding cp_def by auto
  then show ?thesis
    unfolding extends_def cp_def [symmetric]
    by (intro exI [of _ "unat cp"]) (simp add: append_utf8_eq scalar_def)
qed

lemma append_surrogate_outcome:
  assumes "read_hex4 r = (Some h, r1)" "0xD800 \<le> h" "h \<le> 0xDBFF"
  shows "outcome (extends out) r (append_code_point out r)"
proof (cases "rd_pos r1 + 2 > length (rd_text r1) \<or> rd_text r1 ! rd_pos r1 \<noteq> CHR 0x5C
          \<or> rd_text r1 ! (rd_pos r1 + 1) \<noteq> CHR ''u''")
  case True
  have hi: "\<not> (0xDC00 \<le> h \<and> h \<le> 0xDFFF)" using assms(2,3) by (auto simp: word_le_nat_alt)
  show ?thesis
    unfolding append_code_point_def assms(1) prod.case option.case if_not_P [OF hi] if_P [OF conjI [OF assms(2,3)]]
      if_P [OF True] using read_hex4_SomeD [OF assms(1)] by (intro outcome_simple_fail) auto
next
  case False
  have hi: "\<not> (0xDC00 \<le> h \<and> h \<le> 0xDFFF)" using assms(2,3) by (auto simp: word_le_nat_alt)
  have m: "moves r (adv 2 r1)" using False read_hex4_SomeD [OF assms(1)] moves_adv [of r1 2] by (auto intro: moves_trans)
  obtain y r2 where y: "read_hex4 (adv 2 r1) = (y, r2)" by fastforce
  have m2: "moves r r2"
    using y m read_hex4_NoneD read_hex4_SomeD by (cases y) (auto intro: moves_trans)
  have res: "append_code_point out r =
     (case y of None \<Rightarrow> fail MalformedJson ''no low surrogate in string'' r2
      | Some l \<Rightarrow> if l < 0xDC00 \<or> l > 0xDFFF then fail MalformedJson ''no low surrogate in string'' r2
          else (Some (append_utf8 out (0x10000 + push_bit 10 (h - 0xD800) + (l - 0xDC00))), r2))"
    unfolding append_code_point_def assms(1) prod.case option.case if_not_P [OF hi]
      if_P [OF conjI [OF assms(2,3)]] if_not_P [OF False] y by (cases y) simp_all
  show ?thesis
    unfolding res using m2 surrogate_pair_extends [OF assms(2,3)]
    by (auto split: option.split intro!: outcome_simple_fail)
qed

lemma append_code_point_outcome: "outcome (extends out) r (append_code_point out r)"
proof (cases "read_hex4 r")
  case (Pair x r1)
  show ?thesis
  proof (cases x)
    case None
    with Pair have "r1 = r" using read_hex4_NoneD by blast
    with Pair None show ?thesis
      by (auto simp: append_code_point_def intro!: outcome_simple_fail)
  next
    case (Some h)
    note h = read_hex4_SomeD [OF Pair [unfolded Some]]
    consider "0xDC00 \<le> h" "h \<le> 0xDFFF" | "0xD800 \<le> h" "h \<le> 0xDBFF"
      | "h < 0xD800 \<or> 0xDFFF < h"
      by (auto simp: word_le_nat_alt word_less_nat_alt) linarith
    then show ?thesis
    proof cases
      case 1
      with Pair Some h show ?thesis
        by (auto simp: append_code_point_def intro!: outcome_simple_fail)
    next
      case 2
      then show ?thesis by (rule append_surrogate_outcome [OF Pair [unfolded Some]])
    next
      case 3
      then have "scalar (unat h)" using h by (auto simp: scalar_def word_less_nat_alt)
      moreover have "append_utf8 out h = out @ utf8_char (unat h)"
        using h by (intro append_utf8_eq) simp
      moreover have "\<not> (0xDC00 \<le> h \<and> h \<le> 0xDFFF)" "\<not> (0xD800 \<le> h \<and> h \<le> 0xDBFF)"
        using 3 by (auto simp: word_le_nat_alt word_less_nat_alt)
      ultimately show ?thesis
        using Pair Some h by (auto simp: append_code_point_def extends_def)
    qed
  qed
qed

lemma append_code_point_level:
  "append_code_point out r = (Some out', r') \<Longrightarrow> same_level r r'"
  using read_hex4_SomeD same_level_trans
  by (auto simp: append_code_point_def split: prod.splits option.splits if_splits)
    (metis adv_fields(7) same_level_trans)+

lemma extends_ascii: "ucode c < 128 \<Longrightarrow> extends out (out @ [c])"
  unfolding extends_def by (rule exI [of _ "ucode c"]) (simp add: utf8_char_ascii scalar_def)

lemma append_escape_outcome: "outcome (extends out) r (append_escape out r)"
proof (cases "rd_pos r \<ge> length (rd_text r)")
  case True
  then show ?thesis by (auto simp: append_escape_def intro!: outcome_simple_fail)
next
  case False
  then have m: "moves r (adv 1 r)" by (intro moves_adv) simp
  define c where "c = rd_text r ! rd_pos r"
  have "ascii (''invalid escape: byte 0x'' @ hex_byte c)" using ascii_hex_byte by simp
  then have "outcome (extends out) r (fail MalformedJson (''invalid escape: byte 0x'' @ hex_byte c) (adv 1 r))"
    by (rule outcome_simple_fail [OF m])
  moreover have "outcome (extends out) r (append_code_point out (adv 1 r))"
    by (rule outcome_after [OF m append_code_point_outcome])
  ultimately show ?thesis
    using False m unfolding append_escape_def c_def [symmetric] Let_def
    by (simp add: extends_ascii)
qed

lemma append_escape_consumes: "consumes r (append_escape out r)"
proof (cases "append_escape out r")
  case (Pair x r')
  show ?thesis
  proof (cases x)
    case (Some out')
    have "rd_pos (adv 1 r) \<le> rd_pos r'" if "append_code_point out (adv 1 r) = (Some out', r')"
      using append_code_point_outcome [of out "adv 1 r"] that by (auto simp: moves_def)
    moreover have "same_level r r'" if "append_code_point out (adv 1 r) = (Some out', r')"
      using append_code_point_level [OF that] by (auto simp: same_level_def)
    ultimately show ?thesis
      using Pair Some by (auto simp: append_escape_def Let_def split: if_splits)
  qed (simp add: Pair)
qed

lemma validate_utf8_run_outcome: "outcome (\<lambda>_. True) r (validate_utf8_run r)"
  and validate_utf8_run_consumes: "consumes r (validate_utf8_run r)"
proof -
  show "outcome (\<lambda>_. True) r (validate_utf8_run r)"
    by (auto simp: validate_utf8_run_def utf8_error_def intro!: outcome_simple_fail moves_adv
        split: option.splits)
  show "consumes r (validate_utf8_run r)"
    using utf8_lead_pos by (fastforce simp: validate_utf8_run_def split: option.splits)
qed

section \<open>Scanning a string\<close>

text \<open>
  The loop of \<open>scan_string\<close>: \<open>run\<close> is where the pending run of plain bytes began; the run is
  copied when an escape or the closing quote ends it.
\<close>

lemma append_escape_SomeD: "append_escape out r = (Some out', r') \<Longrightarrow>
    moves r r' \<and> same_level r r' \<and> rd_pos r < rd_pos r' \<and> extends out out'"
  using append_escape_outcome [of out r] append_escape_consumes [of r out] by auto

lemma validate_utf8_run_SomeD: "validate_utf8_run r = (Some u, r') \<Longrightarrow>
    moves r r' \<and> same_level r r' \<and> rd_pos r < rd_pos r'"
  using validate_utf8_run_outcome [of r] validate_utf8_run_consumes [of r] by auto

lemma reader_shorter:
  "moves r r1 \<Longrightarrow> rd_pos r < rd_pos r1 \<Longrightarrow> rd_pos r < length (rd_text r) \<Longrightarrow>
     length (rd_text r1) - rd_pos r1 < length (rd_text r) - rd_pos r"
  by (simp add: moves_text)

function scan_loop :: "nat \<Rightarrow> string \<Rightarrow> reader \<Rightarrow> string option \<times> reader" where
  "scan_loop run out r =
     (if rd_pos r \<ge> length (rd_text r) then fail MalformedJson ''unterminated string'' r
      else let byte = rd_text r ! rd_pos r
           in if byte = CHR 0x22 then (Some (out @ substr r run (rd_pos r - run)), adv 1 r)
              else if byte = CHR 0x5C then
                case append_escape (out @ substr r run (rd_pos r - run)) (adv 1 r) of
                  (None, r1) \<Rightarrow> (None, r1)
                | (Some out1, r1) \<Rightarrow> scan_loop (rd_pos r1) out1 r1
              else if ucode byte < 0x20 then
                fail MalformedJson ''unexpected control character in string'' r
              else if ucode byte < 0x80 then scan_loop run out (adv 1 r)
              else case validate_utf8_run r of
                     (None, r1) \<Rightarrow> (None, r1)
                   | (Some _, r1) \<Rightarrow> scan_loop run out r1)"
  by pat_completeness auto
termination
  by (relation "measure (\<lambda>(run, out, r). length (rd_text r) - rd_pos r)")
    (auto dest!: append_escape_SomeD [OF sym] validate_utf8_run_SomeD [OF sym] dest: moves_text)

declare scan_loop.simps [simp del]

definition scan_string :: "reader \<Rightarrow> string option \<times> reader" where
  "scan_string r =
     (case peek r of
        (None, r1) \<Rightarrow> fail WrongType ''expected a string, got end of input'' r1
      | (Some c, r1) \<Rightarrow>
          if c \<noteq> CHR 0x22 then fail WrongType ''expected a string'' r1
          else let r2 = adv 1 r1 in scan_loop (rd_pos r2) [] r2)"

definition read_string :: "reader \<Rightarrow> string option \<times> reader" where
  "read_string r = scan_string r"

definition next_member :: "reader \<Rightarrow> string option option \<times> reader" where
  "next_member r =
     (case peek r of
        (None, r1) \<Rightarrow> fail MalformedJson ''unterminated object'' r1
      | (Some c, r1) \<Rightarrow>
          if c = CHR 0x7D then (Some None, (adv 1 r1)\<lparr>rd_depth := rd_depth r1 - 1\<rparr>)
          else rbind (separator r1) (\<lambda>_ r2. rbind (scan_string r2) (\<lambda>key r3.
                 rbind (expect CHR '':'' r3) (\<lambda>_ r4. (Some (Some key), r4)))))"

text \<open>
  The pending run, seen as text: reading plain bytes keeps it UTF-8, so that what is appended
  is UTF-8 whenever the string ends.
\<close>

definition pending :: "nat \<Rightarrow> string \<Rightarrow> reader \<Rightarrow> string" where
  "pending run out r = out @ substr r run (rd_pos r - run)"

lemma pending_start [simp]: "run = rd_pos r \<Longrightarrow> pending run out r = out"
  by (simp add: pending_def substr_def)

lemma pending_adv:
  assumes "run \<le> rd_pos r" "rest r = s @ post"
  shows "pending run out (adv (length s) r) = pending run out r @ s"
proof -
  define k where "k = rd_pos r - run"
  have "take (k + length s) (drop run (rd_text r)) = take k (drop run (rd_text r)) @ take (length s) (drop k (drop run (rd_text r)))"
    by (rule take_add)
  moreover have "drop k (drop run (rd_text r)) = rest r" using assms(1) by (simp add: k_def rest_def)
  ultimately show ?thesis using assms by (simp add: pending_def substr_def k_def)
qed

lemma scan_loop_end: "rest r = [] \<Longrightarrow> scan_loop run out r = fail MalformedJson ''unterminated string'' r"
  by (simp add: scan_loop.simps [of run out r] rest_Nil)

lemma scan_loop_quote:
  "rest r = CHR 0x22 # s \<Longrightarrow> scan_loop run out r = (Some (pending run out r), adv 1 r)"
  by (simp add: scan_loop.simps [of run out r] rest_Cons pending_def)

lemma scan_loop_escape:
  "rest r = CHR 0x5C # s \<Longrightarrow> scan_loop run out r =
     rbind (append_escape (pending run out r) (adv 1 r)) (\<lambda>out1 r1. scan_loop (rd_pos r1) out1 r1)"
  by (simp add: scan_loop.simps [of run out r] rest_Cons pending_def rbind_def)

lemma scan_loop_control:
  "rest r = c # s \<Longrightarrow> ucode c < 0x20 \<Longrightarrow>
     scan_loop run out r = fail MalformedJson ''unexpected control character in string'' r"
  by (auto simp: scan_loop.simps [of run out r] rest_Cons)

lemma scan_loop_plain:
  "rest r = c # s \<Longrightarrow> 0x20 \<le> ucode c \<Longrightarrow> ucode c < 0x80 \<Longrightarrow> c \<noteq> CHR 0x22 \<Longrightarrow> c \<noteq> CHR 0x5C \<Longrightarrow>
     scan_loop run out r = scan_loop run out (adv 1 r)"
  by (simp add: scan_loop.simps [of run out r] rest_Cons)

lemma scan_loop_multibyte:
  "rest r = c # s \<Longrightarrow> 0x80 \<le> ucode c \<Longrightarrow>
     scan_loop run out r = rbind (validate_utf8_run r) (\<lambda>_. scan_loop run out)"
  by (auto simp: scan_loop.simps [of run out r] rest_Cons rbind_def)

lemma char_classes:
  obtains "c = CHR 0x22" | "c = CHR 0x5C" | "ucode c < 0x20"
    | "0x20 \<le> ucode c" "ucode c < 0x80" "c \<noteq> CHR 0x22" "c \<noteq> CHR 0x5C" | "0x80 \<le> ucode c"
  by fastforce

text \<open>The loop one character later, where the rest of it is known to behave.\<close>

definition scans_on :: "reader \<Rightarrow> bool" where
  "scans_on r \<longleftrightarrow> (\<forall>run1 out1 r1. moves r r1 \<longrightarrow> same_level r r1 \<longrightarrow> rd_pos r < rd_pos r1 \<longrightarrow> run1 \<le> rd_pos r1 \<longrightarrow>
     valid_utf8 (pending run1 out1 r1) \<longrightarrow>
     outcome valid_utf8 r (scan_loop run1 out1 r1) \<and> consumes r (scan_loop run1 out1 r1))"

lemma scan_escape_outcome:
  assumes "rest r = CHR 0x5C # s" "valid_utf8 (pending run out r)" "moves r (adv 1 r)" "scans_on r"
  shows "outcome valid_utf8 r (scan_loop run out r) \<and> consumes r (scan_loop run out r)"
proof -
  obtain x r1 where e: "append_escape (pending run out r) (adv 1 r) = (x, r1)" by fastforce
  show ?thesis
  proof (cases x)
    case None
    with e append_escape_outcome [of "pending run out r" "adv 1 r"] assms show ?thesis
      by (auto simp: scan_loop_escape intro: moves_trans)
  next
    case (Some out1)
    with e have s: "moves (adv 1 r) r1" "same_level (adv 1 r) r1" "rd_pos r + 1 < rd_pos r1"
        "extends (pending run out r) out1"
      using append_escape_SomeD by fastforce+
    then have "valid_utf8 out1"
      using assms(2) by (auto simp: extends_def intro: valid_utf8_char)
    then show ?thesis
      using assms(4) [unfolded scans_on_def, rule_format, of r1 "rd_pos r1" out1] s assms(1,3) e Some
      by (auto simp: scan_loop_escape same_level_def intro: moves_trans)
  qed
qed

lemma scan_multibyte_outcome:
  assumes "rest r = c # s" "0x80 \<le> ucode c" "run \<le> rd_pos r" "valid_utf8 (pending run out r)" "scans_on r"
  shows "outcome valid_utf8 r (scan_loop run out r) \<and> consumes r (scan_loop run out r)"
proof -
  obtain x r1 where v: "validate_utf8_run r = (x, r1)" by fastforce
  show ?thesis
  proof (cases x)
    case None
    with v validate_utf8_run_outcome [of r] assms(1,2) show ?thesis by (simp add: scan_loop_multibyte)
  next
    case (Some u)
    with v obtain cp post where cp: "scalar cp" "rest r = utf8_char cp @ post" "r1 = adv (length (utf8_char cp)) r"
      using validate_sound [OF assms(1)] by (metis (full_types) old.unit.exhaust)
    then have "valid_utf8 (pending run out r1)"
      using pending_adv [OF assms(3) cp(2)] assms(4) by (auto intro: valid_utf8_char)
    then show ?thesis
      using assms(5) [unfolded scans_on_def, rule_format, of r1 run out] validate_utf8_run_SomeD [of r u r1] v Some assms(1-3)
      by (auto simp: scan_loop_multibyte)
  qed
qed

lemma scan_loop_outcome:
  "run \<le> rd_pos r \<Longrightarrow> valid_utf8 (pending run out r) \<Longrightarrow>
     outcome valid_utf8 r (scan_loop run out r) \<and> consumes r (scan_loop run out r)"
proof (induction "length (rd_text r) - rd_pos r" arbitrary: run out r rule: less_induct)
  case less
  show ?case
  proof (cases "rest r")
    case Nil
    then show ?thesis by (auto simp: scan_loop_end intro!: outcome_simple_fail)
  next
    case (Cons c s)
    have c: "rd_pos r < length (rd_text r)" using Cons by (simp add: rest_Cons)
    have m: "moves r (adv 1 r)" using c by (intro moves_adv) simp
    have continue: "outcome valid_utf8 r (scan_loop run1 out1 r1) \<and> consumes r (scan_loop run1 out1 r1)"
      if "moves r r1" "same_level r r1" "rd_pos r < rd_pos r1" "run1 \<le> rd_pos r1"
        "valid_utf8 (pending run1 out1 r1)" for run1 out1 r1
      using less(1) [OF reader_shorter [OF that(1,3) c] that(4,5)] that(1-3)
      by (auto intro: outcome_after consumes_after)
    have on: "scans_on r" unfolding scans_on_def using continue by blast
    show ?thesis
    proof (cases c rule: char_classes)
      case 1
      with Cons m less.prems show ?thesis by (simp add: scan_loop_quote)
    next
      case 2
      then show ?thesis using scan_escape_outcome [OF _ less.prems(2) m on] Cons by simp
    next
      case 3
      with Cons show ?thesis by (auto simp: scan_loop_control intro!: outcome_simple_fail)
    next
      case 4
      have "valid_utf8 (pending run out (adv 1 r))"
        using pending_adv [of run r "[c]" s out] Cons less.prems 4 valid_utf8_append [OF _ ascii_valid [of "[c]"]]
        by simp
      with continue [of "adv 1 r" run out] m less.prems show ?thesis
        using scan_loop_plain [OF Cons 4] by simp
    next
      case 5
      then show ?thesis by (rule scan_multibyte_outcome [OF Cons _ less.prems on])
    qed
  qed
qed

interpretation read_string: value_op read_string valid_utf8
proof
  fix r
  obtain x r1 where p: "peek r = (x, r1)" by fastforce
  have "moves r r1" "same_level r r1" using p peek_NoneD peek_SomeD by (cases x; blast)+
  note after = outcome_after [OF this(1)] consumes_after [OF this(2) moves_pos [OF this(1)]]
  have "outcome valid_utf8 r1 (read_string r) \<and> consumes r1 (read_string r)"
  proof (cases x)
    case None
    with p show ?thesis
      by (auto simp: read_string_def scan_string_def intro!: outcome_simple_fail)
  next
    case (Some c)
    then obtain s where "rest r1 = c # s" using p peek_SomeD by blast
    then have m: "moves r1 (adv 1 r1)" by (intro moves_adv_rest) auto
    have "outcome valid_utf8 (adv 1 r1) (scan_loop (rd_pos (adv 1 r1)) [] (adv 1 r1)) \<and>
        consumes (adv 1 r1) (scan_loop (rd_pos (adv 1 r1)) [] (adv 1 r1))"
      by (rule scan_loop_outcome) (simp_all only: pending_start [OF refl] valid_utf8_Nil order_refl)
    with m show ?thesis
      using p Some consumes_after [of r1 "adv 1 r1" "scan_loop (rd_pos r1 + 1) [] (adv 1 r1)"]
      by (cases "c = CHR 0x22")
        (auto simp: read_string_def scan_string_def Let_def simp del: One_nat_def
          intro!: outcome_simple_fail intro: outcome_after)
  qed
  then show "outcome valid_utf8 r (read_string r)" "consumes r (read_string r)"
    by (blast intro: after)+
qed

section \<open>Reading back what the writer escaped\<close>

lemma hex_digit_kHexDigits: "k < 16 \<Longrightarrow> hex_digit (kHexDigits ! k) = Some (word_of_nat k)"
proof -
  have "\<forall>k \<in> set [0..<16]. hex_digit (kHexDigits ! k) = Some (word_of_nat k)"
    unfolding kHexDigits_def by code_simp
  then show "k < 16 \<Longrightarrow> ?thesis" by simp
qed

lemma hex_value_byte:
  assumes "n < 256"
  shows "hex_value 0 [CHR ''0'', CHR ''0'', kHexDigits ! (n div 16), kHexDigits ! (n mod 16)] = Some (word_of_nat n)"
proof -
  have "n div 16 < 16" using assms by linarith
  have z: "hex_digit CHR ''0'' = Some 0" by (simp add: hex_digit_def is_dec_def)
  have "push_bit 4 (word_of_nat (n div 16)) OR word_of_nat (n mod 16) = (word_of_nat n :: uint32)"
    using assms unat_hex_step [of "word_of_nat (n div 16)" "word_of_nat (n mod 16)"]
    by (simp add: word_unat_eq_iff unat_of_nat)
  then show ?thesis
    using \<open>n div 16 < 16\<close> by (simp add: z hex_digit_kHexDigits)
qed

lemma read_hex4_text:
  assumes "rest r = a # b # c # d # post" "hex_value 0 [a, b, c, d] = Some v"
  shows "read_hex4 r = (Some v, adv 4 r)"
proof -
  have "\<not> rd_pos r + 4 > length (rd_text r)" using rest_len [OF assms(1), of 4] by simp
  moreover have "substr r (rd_pos r) 4 = [a, b, c, d]" using assms(1) by (simp add: substr_def rest_def)
  ultimately show ?thesis using assms(2) by (simp add: read_hex4_def)
qed

lemma escape_char_simps:
  "escape_char CHR 0x22 = [CHR 0x5C, CHR 0x22]" "escape_char CHR 0x5C = [CHR 0x5C, CHR 0x5C]"
  "escape_char CHR 0x08 = [CHR 0x5C, CHR ''b'']" "escape_char CHR 0x0C = [CHR 0x5C, CHR ''f'']"
  "escape_char CHR 0x0A = [CHR 0x5C, CHR ''n'']" "escape_char CHR 0x0D = [CHR 0x5C, CHR ''r'']"
  "escape_char CHR 0x09 = [CHR 0x5C, CHR ''t'']"
  by (simp_all add: escape_char_def append_string_char_def append_text_def)

lemma escape_char_u:
  assumes "c \<notin> {CHR 0x08, CHR 0x0C, CHR 0x0A, CHR 0x0D, CHR 0x09}" "ucode c < 0x20"
  shows "escape_char c = [CHR 0x5C, CHR ''u'', CHR ''0'', CHR ''0'',
    kHexDigits ! (ucode c div 16), kHexDigits ! (ucode c mod 16)]"
proof -
  have "c \<noteq> CHR 0x22" "c \<noteq> CHR 0x5C" using assms(2) by auto
  with assms show ?thesis by (simp add: escape_char_def append_string_char_def append_text_def)
qed

lemma escape_char_plain:
  assumes "c \<noteq> CHR 0x22" "c \<noteq> CHR 0x5C" "0x20 \<le> ucode c"
  shows "escape_char c = [c]"
proof -
  have "c \<noteq> CHR 0x08" "c \<noteq> CHR 0x0C" "c \<noteq> CHR 0x0A" "c \<noteq> CHR 0x0D" "c \<noteq> CHR 0x09"
    using assms(3) by auto
  with assms show ?thesis by (simp add: escape_char_def append_string_char_def)
qed

lemma append_escape_u:
  assumes "rest r = CHR ''u'' # CHR ''0'' # CHR ''0'' # kHexDigits ! (ucode c div 16) # kHexDigits ! (ucode c mod 16) # post"
    "ucode c < 0x80"
  shows "append_escape out r = (Some (out @ [c]), adv 5 r)"
proof -
  have w: "unat (word_of_nat (ucode c) :: uint32) = ucode c" using assms(2) by (simp add: unat_of_nat)
  have "rd_pos r < length (rd_text r)" "rd_text r ! rd_pos r = CHR ''u''" using assms(1) by (auto simp: rest_Cons)
  then have "append_escape out r = append_code_point out (adv 1 r)" by (simp add: append_escape_def)
  also have "read_hex4 (adv 1 r) = (Some (word_of_nat (ucode c)), adv 4 (adv 1 r))"
    by (rule read_hex4_text [OF _ hex_value_byte]) (use assms in simp_all)
  then have "append_code_point out (adv 1 r) = (Some (append_utf8 out (word_of_nat (ucode c))), adv 5 r)"
    using assms(2) by (simp add: append_code_point_def word_le_nat_alt w)
  also have "append_utf8 out (word_of_nat (ucode c)) = out @ [c]"
    using append_utf8_eq [of "word_of_nat (ucode c)" out] assms(2) by (simp add: w utf8_char_ascii)
  finally show ?thesis .
qed

lemma append_escape_text:
  assumes "escape_char c = CHR 0x5C # e" "rest r = e @ post"
  shows "append_escape out r = (Some (out @ [c]), adv (length e) r)"
proof -
  have short: "append_escape out r = (Some (out @ [c]), adv 1 r)" if "rest r = x # post"
    "(x, c) \<in> {(CHR 0x22, CHR 0x22), (CHR 0x5C, CHR 0x5C), (CHR ''b'', CHR 0x08), (CHR ''f'', CHR 0x0C),
       (CHR ''n'', CHR 0x0A), (CHR ''r'', CHR 0x0D), (CHR ''t'', CHR 0x09)}" for x
    using that by (auto simp: append_escape_def rest_Cons)
  consider "c \<in> {CHR 0x22, CHR 0x5C, CHR 0x08, CHR 0x0C, CHR 0x0A, CHR 0x0D, CHR 0x09}"
    | "c \<notin> {CHR 0x08, CHR 0x0C, CHR 0x0A, CHR 0x0D, CHR 0x09}" "ucode c < 0x20"
    | "c \<noteq> CHR 0x22" "c \<noteq> CHR 0x5C" "0x20 \<le> ucode c"
    by fastforce
  then show ?thesis
  proof cases
    case 1
    then show ?thesis using assms short [of "hd e"] by (auto simp: escape_char_simps)
  next
    case 2
    then show ?thesis using assms append_escape_u [of r c post out] by (auto simp: escape_char_u)
  next
    case 3
    with assms(1) show ?thesis by (simp add: escape_char_plain)
  qed
qed

lemma escape_char_cases:
  obtains "escape_char c = [c]" "0x20 \<le> ucode c" "c \<noteq> CHR 0x22" "c \<noteq> CHR 0x5C"
    | e where "escape_char c = CHR 0x5C # e" "ucode c < 0x80"
proof (cases "c \<noteq> CHR 0x22 \<and> c \<noteq> CHR 0x5C \<and> 0x20 \<le> ucode c")
  case True
  then show ?thesis by (intro that(1)) (auto intro: escape_char_plain)
next
  case False
  show ?thesis
  proof (cases "c \<in> {CHR 0x22, CHR 0x5C, CHR 0x08, CHR 0x0C, CHR 0x0A, CHR 0x0D, CHR 0x09}")
    case True
    then show ?thesis using that(2) by (auto simp: escape_char_simps)
  next
    case other: False
    with False have "ucode c < 0x20" by auto
    with other show ?thesis by (intro that(2)) (auto simp: escape_char_u)
  qed
qed

lemma utf8_char_high:
  assumes "scalar cp" "0x80 \<le> cp"
  shows "\<forall>c \<in> set (utf8_char cp). 0x80 \<le> ucode c"
proof -
  have "set (map ucode (utf8_char cp)) = set (utf8_bytes cp)"
    using assms by (intro arg_cong [of _ _ set] map_ucode_utf8_char) (auto simp: scalar_def)
  moreover have "\<forall>b \<in> set (utf8_bytes cp). 0x80 \<le> b"
    using assms(2) by (auto simp: utf8_bytes_def)
  ultimately show ?thesis by auto
qed

lemma escape_utf8_char:
  assumes "scalar cp" "0x80 \<le> cp"
  shows "concat (map escape_char (utf8_char cp)) = utf8_char cp"
proof -
  have "map escape_char (utf8_char cp) = map (\<lambda>c. [c]) (utf8_char cp)"
    using utf8_char_high [OF assms] by (intro map_cong refl escape_char_plain) fastforce+
  then show ?thesis by (simp only: concat_map_singleton map_ident)
qed

lemma utf8_char_nonempty [simp]: "utf8_char cp \<noteq> []"
  by (simp add: utf8_char_def utf8_bytes_def)

lemma scan_loop_text:
  assumes "\<forall>cp \<in> set cps. scalar cp" "run \<le> rd_pos r"
    "rest r = concat (map escape_char (utf8 cps)) @ CHR 0x22 # post"
  shows "scan_loop run out r =
    (Some (pending run out r @ utf8 cps), adv (length (concat (map escape_char (utf8 cps))) + 1) r)"
  using assms
proof (induction cps arbitrary: run out r)
  case Nil
  then show ?case by (simp add: scan_loop_quote)
next
  case (Cons cp cps)
  define t where "t = concat (map escape_char (utf8 cps)) @ CHR 0x22 # post"
  show ?case
  proof (cases "cp < 0x80")
    case False
    then have cp: "rest r = utf8_char cp @ t" "scalar cp" "0x80 \<le> cp"
      using Cons by (auto simp: escape_utf8_char t_def)
    then obtain c s where "utf8_char cp = c # s" "0x80 \<le> ucode c"
      using utf8_char_high [OF cp(2,3)] by (cases "utf8_char cp") auto
    then have "scan_loop run out r = scan_loop run out (adv (length (utf8_char cp)) r)"
      using scan_loop_multibyte [of r c "s @ t"] validate_accepts [OF cp(2,3,1)] cp by simp
    then show ?thesis
      using Cons.IH [of run "adv (length (utf8_char cp)) r" out] Cons.prems cp pending_adv [OF _ cp(1)]
      by (simp add: t_def escape_utf8_char add.assoc)
  next
    case True
    define c where "c = (char_of cp :: char)"
    have c: "utf8_char cp = [c]" using True by (simp add: utf8_char_def utf8_bytes_def c_def)
    have r: "rest r = escape_char c @ t" using Cons.prems(3) by (simp add: c t_def)
    show ?thesis
    proof (cases c rule: escape_char_cases)
      case 1
      then have "scan_loop run out r = scan_loop run out (adv 1 r)"
        using scan_loop_plain [of r c t] r True by (simp add: c_def ucode_char_of)
      then show ?thesis
        using Cons.IH [of run "adv 1 r" out] Cons.prems 1 r c pending_adv [of run r "[c]" t out]
        by (simp add: t_def)
    next
      case (2 e)
      have "append_escape (pending run out r) (adv 1 r) = (Some (pending run out r @ [c]), adv (length e) (adv 1 r))"
        by (rule append_escape_text [of _ _ _ t]) (use 2 r in simp_all)
      then show ?thesis
        using scan_loop_escape [of r "e @ t" run out] r 2 c Cons.prems
          Cons.IH [of "rd_pos (adv (1 + length e) r)" "adv (1 + length e) r" "pending run out r @ [c]"]
        by (simp add: t_def)
    qed
  qed
qed


text \<open>What \<open>append_string\<close> wrote, \<open>scan_string\<close> reads, and nothing after it.\<close>

lemma read_string_text [reader_steps]:
  assumes "valid_utf8 s" "rest r = json_string s @ post"
  shows "read_string r = (Some s, adv (length (json_string s)) r)"
proof -
  obtain cps where cps: "\<forall>cp \<in> set cps. scalar cp" "s = utf8 cps"
    using assms(1) by (auto simp: valid_utf8_def)
  have "rest (adv 1 r) = concat (map escape_char (utf8 cps)) @ CHR 0x22 # post"
    using assms(2) cps(2) by (simp add: json_string_def)
  from scan_loop_text [OF cps(1) order_refl this, of "[]"] show ?thesis
    using assms(2) cps(2) peek_at [of r "CHR 0x22"]
    by (simp add: read_string_def scan_string_def json_string_def)
qed

end
