(* ===== verification/Json_Numbers.thy ===== *)
theory Json_Numbers
  imports Json_Strings
begin

text \<open>
  The scalar readers of \<open>src/json.cpp\<close>: \<open>scan_number\<close> with its three phases, \<open>read_int\<close>,
  \<open>read_double\<close>, \<open>read_bool\<close>, \<open>read_null\<close> and the end-of-document test. \<open>scan_number\<close> is
  shown to accept the JSON number grammar, and the readers to return what the token denotes.
\<close>

section \<open>Scanning a number\<close>

definition at_char :: "(char \<Rightarrow> bool) \<Rightarrow> reader \<Rightarrow> bool" where
  "at_char p r \<longleftrightarrow> rd_pos r < length (rd_text r) \<and> p (rd_text r ! rd_pos r)"

definition scan_integer :: "reader \<Rightarrow> unit option \<times> reader" where
  "scan_integer r =
     (if rd_text r ! rd_pos r = CHR ''0'' then
        if at_char is_digit (adv 1 r)
        then fail MalformedJson ''number with leading zero is not allowed'' (adv 1 r)
        else (Some (), adv 1 r)
      else (Some (), skip_while is_digit r))"

text \<open>The result says whether the part was there, which makes the number not integral.\<close>

definition scan_fraction :: "reader \<Rightarrow> bool option \<times> reader" where
  "scan_fraction r =
     (if at_char (\<lambda>c. c = CHR ''.'') r then
        if \<not> at_char is_digit (adv 1 r) then fail MalformedJson ''no digit after decimal point'' (adv 1 r)
        else (Some True, skip_while is_digit (adv 1 r))
      else (Some False, r))"

definition scan_exponent :: "reader \<Rightarrow> bool option \<times> reader" where
  "scan_exponent r =
     (if at_char (\<lambda>c. c = CHR ''e'' \<or> c = CHR ''E'') r then
        let r1 = adv 1 r;
            r2 = (if at_char (\<lambda>c. c = CHR ''+'' \<or> c = CHR ''-'') r1 then adv 1 r1 else r1)
        in if \<not> at_char is_digit r2 then fail MalformedJson ''no digit after exponent'' r2
           else (Some True, skip_while is_digit r2)
      else (Some False, r))"

definition scan_number :: "reader \<Rightarrow> (string \<times> bool) option \<times> reader" where
  "scan_number r =
     (case peek r of
        (None, r1) \<Rightarrow> fail WrongType ''expected a number, got end of input'' r1
      | (Some c, r1) \<Rightarrow>
          if c \<noteq> CHR ''-'' \<and> \<not> is_digit c then fail WrongType ''expected a number'' r1
          else let start = rd_pos r1;
                   r2 = (if c = CHR ''-'' then adv 1 r1 else r1)
               in if \<not> at_char is_digit r2 then fail MalformedJson ''no digit after sign'' r2
                  else rbind (scan_integer r2) (\<lambda>_ r3.
                       rbind (scan_fraction r3) (\<lambda>fraction r4.
                       rbind (scan_exponent r4) (\<lambda>exponent r5.
                         (Some (substr r5 start (rd_pos r5 - start), \<not> fraction \<and> \<not> exponent), r5)))))"

definition read_int :: "reader \<Rightarrow> int64 option \<times> reader" where
  "read_int r =
     rbind (scan_number r) (\<lambda>(token, integral) r1.
       if \<not> integral then fail WrongType (''expected an integer, got '' @ token) r1
       else case from_chars_int64 token of
              Result_out_of_range \<Rightarrow> fail OutOfRange (''integer out of range: '' @ token) r1
            | Invalid_argument \<Rightarrow> fail MalformedJson (''malformed integer: '' @ token) r1
            | Parsed v \<Rightarrow> (Some v, r1))"

definition read_double :: "reader \<Rightarrow> double option \<times> reader" where
  "read_double r =
     rbind (scan_number r) (\<lambda>(token, integral) r1.
       case from_chars_double token of
         Result_out_of_range \<Rightarrow> fail OutOfRange (''number out of range: '' @ token) r1
       | Invalid_argument \<Rightarrow> fail MalformedJson (''malformed number: '' @ token) r1
       | Parsed v \<Rightarrow> (Some v, r1))"

definition read_bool :: "reader \<Rightarrow> bool option \<times> reader" where
  "read_bool r =
     (case peek r of
        (None, r1) \<Rightarrow> fail WrongType ''expected a boolean, got end of input'' r1
      | (Some _, r1) \<Rightarrow>
          if starts_with (rd_text r1) (rd_pos r1) ''true'' then (Some True, adv 4 r1)
          else if starts_with (rd_text r1) (rd_pos r1) ''false'' then (Some False, adv 5 r1)
          else fail WrongType ''expected a boolean'' r1)"

definition at_null :: "reader \<Rightarrow> bool \<times> reader" where
  "at_null r = (let r1 = skip_whitespace r in (starts_with (rd_text r1) (rd_pos r1) ''null'', r1))"

definition read_null :: "reader \<Rightarrow> unit option \<times> reader" where
  "read_null r =
     (case at_null r of
        (False, r1) \<Rightarrow> fail WrongType ''expected null'' r1
      | (True, r1) \<Rightarrow> (Some (), adv 4 r1))"

definition at_document_end :: "reader \<Rightarrow> unit option \<times> reader" where
  "at_document_end r =
     (let r1 = skip_whitespace r
      in if rd_pos r1 \<noteq> length (rd_text r1) then fail MalformedJson ''unexpected content after document'' r1
         else (Some (), r1))"

section \<open>The number grammar\<close>

definition fraction_ok :: "string \<Rightarrow> bool" where
  "fraction_ok fp \<longleftrightarrow> fp = [] \<or> (hd fp = CHR ''.'' \<and> digit_run (tl fp))"

definition exponent_ok :: "string \<Rightarrow> bool" where
  "exponent_ok ex \<longleftrightarrow> ex = [] \<or>
     (\<exists>m sg ds. ex = m # sg @ ds \<and> (m = CHR ''e'' \<or> m = CHR ''E'') \<and> sg \<in> {[], ''+'', ''-''} \<and> digit_run ds)"

definition integer_ok :: "string \<Rightarrow> bool" where
  "integer_ok ip \<longleftrightarrow> digit_run ip \<and> (hd ip = CHR ''0'' \<longrightarrow> length ip = 1)"

definition json_number :: "string \<Rightarrow> bool \<Rightarrow> bool" where
  "json_number tok integral \<longleftrightarrow>
     (\<exists>sg ip fp ex. tok = sg @ ip @ fp @ ex \<and> sg \<in> {[], ''-''} \<and> integer_ok ip \<and> fraction_ok fp
        \<and> exponent_ok ex \<and> integral = (fp = [] \<and> ex = []))"

text \<open>What may follow a number without being taken for a part of it.\<close>

definition number_end :: "string \<Rightarrow> bool" where
  "number_end post \<longleftrightarrow> post = [] \<or> (\<not> is_dec (hd post) \<and> hd post \<notin> {CHR ''.'', CHR ''e'', CHR ''E''})"

lemma at_char_rest: "at_char p r \<longleftrightarrow> rest r \<noteq> [] \<and> p (hd (rest r))"
  by (auto simp: at_char_def rest_def hd_drop_conv_nth)

lemma skip_digits_at:
  "\<forall>c \<in> set ds. is_dec c \<Longrightarrow> rest r = ds @ t \<Longrightarrow> t = [] \<or> \<not> is_dec (hd t) \<Longrightarrow>
     skip_while is_dec r = adv (length ds) r"
  by (simp only: skip_while_eq takeWhile_dec_append)

lemma scan_integer_at:
  assumes "integer_ok ip" "rest r = ip @ t" "t = [] \<or> \<not> is_dec (hd t)"
  shows "scan_integer r = (Some (), adv (length ip) r)"
proof -
  have ip: "ip \<noteq> []" "\<forall>c \<in> set ip. is_dec c" using assms(1) by (auto simp: integer_ok_def digit_run_def)
  then have hd: "rd_text r ! rd_pos r = hd ip" using assms(2) by (cases ip) (auto simp: rest_Cons)
  show ?thesis
  proof (cases "hd ip = CHR ''0''")
    case True
    with assms(1) ip obtain "ip = [CHR ''0'']" by (cases ip) (auto simp: integer_ok_def)
    with assms(2,3) hd show ?thesis by (auto simp: scan_integer_def at_char_rest)
  next
    case False
    with ip hd assms(2,3) show ?thesis by (simp add: scan_integer_def skip_digits_at)
  qed
qed

lemma scan_fraction_at:
  assumes "fraction_ok fp" "rest r = fp @ t" "t = [] \<or> (\<not> is_dec (hd t) \<and> hd t \<noteq> CHR ''.'')"
  shows "scan_fraction r = (Some (fp \<noteq> []), adv (length fp) r)"
proof (cases fp)
  case Nil
  with assms show ?thesis by (auto simp: scan_fraction_def at_char_rest)
next
  case (Cons c ds)
  with assms(1) have c: "c = CHR ''.''" "ds \<noteq> []" "\<forall>c \<in> set ds. is_dec c"
    by (auto simp: fraction_ok_def digit_run_def)
  then have "skip_while is_dec (adv 1 r) = adv (length ds) (adv 1 r)"
    using assms Cons by (intro skip_digits_at [of _ _ t]) auto
  moreover have "is_dec (hd (ds @ t))" using c by (cases ds) auto
  ultimately show ?thesis
    using Cons c assms(2) by (auto simp: scan_fraction_def at_char_rest)
qed

lemma scan_exponent_at:
  assumes "exponent_ok ex" "rest r = ex @ t" "number_end t"
  shows "scan_exponent r = (Some (ex \<noteq> []), adv (length ex) r)"
proof (cases "ex = []")
  case True
  with assms show ?thesis by (auto simp: scan_exponent_def at_char_rest number_end_def)
next
  case False
  then obtain m sg ds where e: "ex = m # sg @ ds" "m = CHR ''e'' \<or> m = CHR ''E''" "sg \<in> {[], ''+'', ''-''}"
      "ds \<noteq> []" "\<forall>c \<in> set ds. is_dec c"
    using assms(1) by (auto simp: exponent_ok_def digit_run_def)
  then have "skip_while is_dec (adv (1 + length sg) r) = adv (length ds) (adv (1 + length sg) r)"
    using assms by (intro skip_digits_at [of _ _ t]) (auto simp: number_end_def)
  moreover have "is_dec (hd (ds @ t))" using e by (cases ds) auto
  moreover from this have "hd (ds @ t) \<noteq> CHR ''+''" "hd (ds @ t) \<noteq> CHR ''-''" by auto
  ultimately show ?thesis
    using e assms(2) by (auto simp: scan_exponent_def at_char_rest Let_def)
qed

lemma number_end_dec: "number_end t \<Longrightarrow> t = [] \<or> \<not> is_dec (hd t)"
  by (auto simp: number_end_def)

lemma parts_follow:
  assumes "fraction_ok fp" "exponent_ok ex" "number_end t"
  shows "fp @ ex @ t = [] \<or> \<not> is_dec (hd (fp @ ex @ t))"
    and "ex @ t = [] \<or> \<not> is_dec (hd (ex @ t)) \<and> hd (ex @ t) \<noteq> CHR ''.''"
proof -
  show ex: "ex @ t = [] \<or> \<not> is_dec (hd (ex @ t)) \<and> hd (ex @ t) \<noteq> CHR ''.''"
    using assms(2,3) by (cases ex) (auto simp: exponent_ok_def number_end_def)
  then show "fp @ ex @ t = [] \<or> \<not> is_dec (hd (fp @ ex @ t))"
    using assms(1) by (cases fp) (auto simp: fraction_ok_def)
qed

lemma scan_number_at:
  assumes "json_number tok integral" "rest r = tok @ post" "number_end post"
  shows "scan_number r = (Some (tok, integral), adv (length tok) r)"
proof -
  obtain sg ip fp ex where n: "tok = sg @ ip @ fp @ ex" "sg \<in> {[], ''-''}" "integer_ok ip" "fraction_ok fp"
      "exponent_ok ex" "integral = (fp = [] \<and> ex = [])"
    using assms(1) by (auto simp: json_number_def)
  note follow = parts_follow [OF n(4,5) assms(3)]
  have ip: "ip \<noteq> []" "is_dec (hd ip)"
    using n(3) by (auto simp: integer_ok_def digit_run_def)
  define r2 where "r2 = adv (length sg) r"
  have r2: "rest r2 = ip @ fp @ ex @ post" using assms(2) n(1) by (simp add: r2_def)
  define r3 where "r3 = adv (length ip) r2"
  define r4 where "r4 = adv (length fp) r3"
  define r5 where "r5 = adv (length ex) r4"
  have i: "scan_integer r2 = (Some (), r3)"
    unfolding r3_def by (rule scan_integer_at [OF n(3) r2 follow(1)])
  have f: "scan_fraction r3 = (Some (fp \<noteq> []), r4)"
    unfolding r4_def by (rule scan_fraction_at [OF n(4) _ follow(2)]) (simp add: r3_def r2)
  have e: "scan_exponent r4 = (Some (ex \<noteq> []), r5)"
    unfolding r5_def by (rule scan_exponent_at [OF n(5) _ assms(3)]) (simp add: r4_def r3_def r2)
  have d: "at_char is_dec r2" using ip r2 by (simp add: at_char_rest)
  have r5: "r5 = adv (length tok) r" by (simp add: r5_def r4_def r3_def r2_def n(1))
  have tok: "substr r5 (rd_pos r) (rd_pos r5 - rd_pos r) = tok"
    using assms(2) by (simp add: r5 substr_def rest_def)
  define c where "c = hd tok"
  have c: "(c = CHR ''-'') = (sg \<noteq> [])" "c = CHR ''-'' \<or> is_dec c" "\<not> is_space c"
    using n(1,2) ip by (auto simp: c_def is_space_def is_dec_def)
  have "tok = c # tl tok" using n(1) ip(1) by (cases tok) (auto simp: c_def)
  then have p: "peek r = (Some c, r)"
    using assms(2) c(3) by (intro peek_at [of r c "tl tok @ post"]) (metis append_Cons)
  have "(if c = CHR ''-'' then adv 1 r else r) = r2"
    using c(1) n(2) by (auto simp: r2_def)
  then show ?thesis
    using p c(2) d i f e tok r5 n(6) by (auto simp: scan_number_def Let_def)
qed

section \<open>What an accepted number is\<close>

text \<open>
  \<open>takes ok r res\<close>: the operation either failed, or consumed exactly a text \<open>s\<close> that is
  \<open>ok\<close> for the value it returned.
\<close>

definition takes :: "(string \<Rightarrow> 'a \<Rightarrow> bool) \<Rightarrow> reader \<Rightarrow> 'a option \<times> reader \<Rightarrow> bool" where
  "takes ok r res \<longleftrightarrow>
     (case fst res of
        None \<Rightarrow> moves r (snd res) \<and> rd_failed (snd res)
      | Some a \<Rightarrow> \<exists>s t. rest r = s @ t \<and> ok s a \<and> snd res = adv (length s) r)"

lemma moves_adv_prefix: "rest r = s @ t \<Longrightarrow> moves r (adv (length s) r)"
  using moves_adv_rest [of "length s" r] by (cases "s = []") auto

lemma takes_Some: "takes ok r (Some a, r') \<longleftrightarrow> (\<exists>s t. rest r = s @ t \<and> ok s a \<and> r' = adv (length s) r)"
  by (simp add: takes_def)

lemma takes_fail: "moves r r1 \<Longrightarrow> ascii m \<Longrightarrow> takes ok r (fail c m r1)"
  using outcome_simple_fail [of r r1 m _ c] by (auto simp: takes_def outcome_def)

lemma takesI: "rest r = s @ t \<Longrightarrow> ok s a \<Longrightarrow> r' = adv (length s) r \<Longrightarrow> takes ok r (Some a, r')"
  by (auto simp: takes_def)

lemma takes_rbind:
  assumes "takes ok1 r m" "\<And>s a r1. ok1 s a \<Longrightarrow> takes (\<lambda>s'. ok (s @ s')) r1 (k a r1)"
  shows "takes ok r (rbind m k)"
proof -
  obtain x r1 where m: "m = (x, r1)" by fastforce
  show ?thesis
  proof (cases x)
    case (Some a)
    with m assms(1) obtain s t where s: "rest r = s @ t" "ok1 s a" "r1 = adv (length s) r"
      by (auto simp: takes_Some)
    obtain y r2 where y: "k a r1 = (y, r2)" by fastforce
    show ?thesis
    proof (cases y)
      case None
      then show ?thesis
        using assms(2) [OF s(2), of r1] y m Some s moves_adv_prefix [OF s(1)]
        by (auto simp: takes_def intro: moves_trans)
    next
      case b: (Some b)
      then obtain s' t' where "rest r1 = s' @ t'" "ok (s @ s') b" "r2 = adv (length s') r1"
        using assms(2) [OF s(2), of r1] y by (auto simp: takes_Some)
      then show ?thesis
        using s m Some b y by (auto intro!: takesI [of _ "s @ s'" t'])
    qed
  qed (use assms(1) m in \<open>simp add: takes_def\<close>)
qed

lemma takes_outcome:
  assumes "takes ok r res" "\<And>s a. ok s a \<Longrightarrow> s \<noteq> []"
  shows "outcome (\<lambda>a. \<exists>s. ok s a) r res" "consumes r res"
  using assms moves_adv_prefix [of r]
  by (auto simp: takes_def outcome_def consumes_def same_level_def split: option.splits)

lemma skip_digits_takes:
  assumes "at_char is_dec r"
  shows "\<exists>ds t. rest r = ds @ t \<and> digit_run ds \<and> skip_while is_dec r = adv (length ds) r \<and> hd ds = hd (rest r)"
proof (intro exI conjI)
  show "rest r = takeWhile is_dec (rest r) @ dropWhile is_dec (rest r)" by simp
  show "digit_run (takeWhile is_dec (rest r))"
    using assms by (auto simp: digit_run_def at_char_rest takeWhile_eq_Nil_iff dest: set_takeWhileD)
  show "hd (takeWhile is_dec (rest r)) = hd (rest r)"
    using assms by (cases "rest r") (auto simp: at_char_rest)
qed (rule skip_while_eq)

lemma at_char_moves: "at_char p r \<Longrightarrow> moves r (adv 1 r)"
  by (rule moves_adv) (auto simp: at_char_def)

lemma scan_integer_takes:
  assumes "at_char is_dec r"
  shows "takes (\<lambda>s _. integer_ok s) r (scan_integer r)"
proof -
  obtain ds t where ds: "rest r = ds @ t" "digit_run ds" "skip_while is_dec r = adv (length ds) r" "hd ds = hd (rest r)"
    using skip_digits_takes [OF assms] by blast
  have hd: "rd_text r ! rd_pos r = hd (rest r)" using assms by (simp add: at_char_def rest_def hd_drop_conv_nth)
  show ?thesis
  proof (cases "hd (rest r) = CHR ''0''")
    case True
    then have "rest r = [CHR ''0''] @ tl (rest r)" using assms by (cases "rest r") (auto simp: at_char_rest)
    then have "takes (\<lambda>s _. integer_ok s) r (Some (), adv 1 r)"
      by (rule takesI) (auto simp: integer_ok_def digit_run_def is_dec_def)
    with True hd at_char_moves [OF assms] show ?thesis
      by (auto simp: scan_integer_def intro!: takes_fail)
  next
    case False
    with hd ds show ?thesis
      by (auto simp: scan_integer_def integer_ok_def intro!: takesI)
  qed
qed

lemma scan_fraction_takes: "takes (\<lambda>s b. fraction_ok s \<and> b = (s \<noteq> [])) r (scan_fraction r)"
proof (cases "at_char (\<lambda>c. c = CHR ''.'') r")
  case True
  then obtain t where t: "rest r = CHR ''.'' # t" by (cases "rest r") (auto simp: at_char_rest)
  show ?thesis
  proof (cases "at_char is_dec (adv 1 r)")
    case d: True
    obtain ds u where "rest (adv 1 r) = ds @ u" "digit_run ds" "skip_while is_dec (adv 1 r) = adv (length ds) (adv 1 r)"
      using skip_digits_takes [OF d] by blast
    then show ?thesis
      using True d t by (auto simp: scan_fraction_def fraction_ok_def intro!: takesI [of _ "CHR ''.'' # ds" u])
  qed (use True at_char_moves in \<open>auto simp: scan_fraction_def intro!: takes_fail\<close>)
next
  case False
  then show ?thesis by (auto simp: scan_fraction_def fraction_ok_def intro!: takesI [of _ "[]"])
qed

lemma scan_exponent_takes: "takes (\<lambda>s b. exponent_ok s \<and> b = (s \<noteq> [])) r (scan_exponent r)"
proof (cases "at_char (\<lambda>c. c = CHR ''e'' \<or> c = CHR ''E'') r")
  case True
  then obtain m t where t: "rest r = m # t" "m = CHR ''e'' \<or> m = CHR ''E''"
    by (cases "rest r") (auto simp: at_char_rest)
  define sg where "sg = (if at_char (\<lambda>c. c = CHR ''+'' \<or> c = CHR ''-'') (adv 1 r) then [hd t] else [])"
  define r2 where "r2 = adv (1 + length sg) r"
  have sg: "sg \<in> {[], ''+'', ''-''}" "\<exists>u. t = sg @ u"
    using t by (cases t; auto simp: sg_def at_char_rest)+
  then have r: "rest r = (m # sg) @ rest r2" using t by (auto simp: r2_def)
  have "(if at_char (\<lambda>c. c = CHR ''+'' \<or> c = CHR ''-'') (adv 1 r) then adv 1 (adv 1 r) else adv 1 r) = r2"
    by (simp add: sg_def r2_def)
  then have res: "scan_exponent r = (if \<not> at_char is_dec r2 then fail MalformedJson ''no digit after exponent'' r2
           else (Some True, skip_while is_dec r2))"
    using True unfolding scan_exponent_def Let_def is_digit_is_dec by (simp only: if_True)
  have m: "moves r r2" using moves_adv_prefix [OF r] by (simp add: r2_def)
  show ?thesis
  proof (cases "at_char is_dec r2")
    case d: True
    obtain ds u where ds: "rest r2 = ds @ u" "digit_run ds" "skip_while is_dec r2 = adv (length ds) r2"
      using skip_digits_takes [OF d] by blast
    have "exponent_ok (m # sg @ ds)"
      unfolding exponent_ok_def using t(2) sg(1) ds(2) by blast
    moreover have "rest r = (m # sg @ ds) @ u" by (simp add: r ds(1))
    moreover have "skip_while is_dec r2 = adv (length (m # sg @ ds)) r"
      by (simp only: ds(3)) (simp add: r2_def)
    ultimately show ?thesis using d res by (auto intro!: takesI [of _ "m # sg @ ds" u])
  qed (use res m in \<open>auto intro!: takes_fail\<close>)
next
  case False
  then show ?thesis by (auto simp: scan_exponent_def exponent_ok_def intro!: takesI [of _ "[]"])
qed

text \<open>
  \<open>scan_number\<close>: white space, then a token of the number grammar, and the flag says whether
  it has neither fraction nor exponent.
\<close>

definition number_token :: "string \<Rightarrow> string \<times> bool \<Rightarrow> bool" where
  "number_token s res \<longleftrightarrow> json_number (fst res) (snd res) \<and> (\<exists>ws. s = ws @ fst res \<and> (\<forall>c \<in> set ws. is_space c))"

lemma takes_weaken: "takes ok r res \<Longrightarrow> (\<And>s a. ok s a \<Longrightarrow> ok' s a) \<Longrightarrow> takes ok' r res"
  by (auto simp: takes_def split: option.splits)

lemma peek_takes: "peek r = (x, r1) \<Longrightarrow> \<exists>ws t. rest r = ws @ t \<and> (\<forall>c \<in> set ws. is_space c) \<and> r1 = adv (length ws) r"
  by (intro exI [of _ "takeWhile is_space (rest r)"] exI [of _ "dropWhile is_space (rest r)"])
    (auto simp: peek_def Let_def skip_whitespace_def skip_while_eq dest: set_takeWhileD split: if_splits)

lemma json_number_nonempty: "json_number tok i \<Longrightarrow> tok \<noteq> []"
  by (auto simp: json_number_def integer_ok_def digit_run_def)

definition number_parts :: "string \<Rightarrow> bool \<times> bool \<Rightarrow> bool" where
  "number_parts s fe \<longleftrightarrow>
     (\<exists>ip fp ex. s = ip @ fp @ ex \<and> integer_ok ip \<and> fraction_ok fp \<and> exponent_ok ex
        \<and> fe = (fp \<noteq> [], ex \<noteq> []))"

definition scan_parts :: "reader \<Rightarrow> (bool \<times> bool) option \<times> reader" where
  "scan_parts r =
     rbind (scan_integer r) (\<lambda>_ r3. rbind (scan_fraction r3) (\<lambda>fraction r4.
        rbind (scan_exponent r4) (\<lambda>exponent r5. (Some (fraction, exponent), r5))))"

lemma rbind_assoc: "rbind (rbind m k) l = rbind m (\<lambda>a r. rbind (k a r) l)"
  by (simp add: rbind_def split: prod.splits option.splits)

lemma scan_parts_takes:
  assumes "at_char is_dec r"
  shows "takes number_parts r (scan_parts r)"
  unfolding scan_parts_def
proof (rule takes_rbind [OF scan_integer_takes [OF assms]])
  fix ip r3
  assume ip: "integer_ok ip"
  show "takes (\<lambda>s. number_parts (ip @ s)) r3
      (rbind (scan_fraction r3) (\<lambda>fraction r4. rbind (scan_exponent r4) (\<lambda>exponent r5. (Some (fraction, exponent), r5))))"
  proof (rule takes_rbind [OF scan_fraction_takes])
    fix fp b r4
    assume fp: "fraction_ok fp \<and> b = (fp \<noteq> [])"
    show "takes (\<lambda>s. number_parts (ip @ fp @ s)) r4
       (rbind (scan_exponent r4) (\<lambda>exponent r5. (Some (b, exponent), r5)))"
    proof (rule takes_rbind [OF scan_exponent_takes])
      fix ex e r5
      assume "exponent_ok ex \<and> e = (ex \<noteq> [])"
      with ip fp have "number_parts (ip @ fp @ ex) (b, e)" unfolding number_parts_def by blast
      then show "takes (\<lambda>s. number_parts (ip @ fp @ ex @ s)) r5 (Some (b, e), r5)"
        by (intro takesI [of _ "[]"]) auto
    qed
  qed
qed

lemma parts_number_token:
  assumes r: "rest r = (ws @ sg) @ rest r2" "r2 = adv (length (ws @ sg)) r"
    and ok: "\<forall>c \<in> set ws. is_space c" "sg \<in> {[], ''-''}"
    and "takes number_parts r2 k"
  shows "takes number_token r
    (rbind k (\<lambda>(fraction, exponent) r5.
       (Some (substr r5 (rd_pos r + length ws) (rd_pos r5 - (rd_pos r + length ws)), \<not> fraction \<and> \<not> exponent), r5)))"
proof -
  have m2: "moves r r2" using moves_adv_prefix [OF r(1)] r(2) by simp
  obtain y r5 where y: "k = (y, r5)" by fastforce
  show ?thesis
  proof (cases y)
    case None
    with assms y m2 show ?thesis by (auto simp: takes_def intro: moves_trans)
  next
    case (Some fe)
    obtain s u where s: "rest r2 = s @ u" "number_parts s fe" "r5 = adv (length s) r2"
      using assms(5) unfolding y Some takes_Some by blast
    then obtain ip fp ex where p: "s = ip @ fp @ ex" "integer_ok ip" "fraction_ok fp" "exponent_ok ex"
        "fe = (fp \<noteq> [], ex \<noteq> [])"
      unfolding number_parts_def by blast
    have r5: "r5 = adv (length (ws @ sg @ s)) r" unfolding s(3) r(2) by simp
    have rr: "rest r = (ws @ sg @ s) @ u" by (simp add: r(1) s(1))
    have "drop (rd_pos r + length ws) (rd_text r) = drop (length ws) (rest r)"
      by (simp add: rest_def add.commute)
    then have sub: "substr r5 (rd_pos r + length ws) (rd_pos r5 - (rd_pos r + length ws)) = sg @ s"
      by (simp add: r5 rr substr_def)
    have "json_number (sg @ s) (fp = [] \<and> ex = [])"
      unfolding json_number_def p(1) using ok(2) p(2-4) by blast
    then have "takes number_token r (Some (sg @ s, fp = [] \<and> ex = []), r5)"
      using ok(1) by (intro takesI [OF rr _ r5]) (auto simp: number_token_def)
    then show ?thesis using y Some p(5) sub by simp
  qed
qed

lemma scan_number_takes: "takes number_token r (scan_number r)"
proof -
  obtain x r1 where p: "peek r = (x, r1)" by fastforce
  then obtain ws t where ws: "rest r = ws @ t" "\<forall>c \<in> set ws. is_space c" "r1 = adv (length ws) r"
    using peek_takes by blast
  have m: "moves r r1" using moves_adv_prefix [OF ws(1)] ws(3) by simp
  show ?thesis
  proof (cases x)
    case None
    with p m show ?thesis by (auto simp: scan_number_def intro!: takes_fail)
  next
    case (Some c)
    then obtain t' where t: "t = c # t'" using p peek_SomeD [of r c r1] ws by auto
    define sg where "sg = (if c = CHR ''-'' then ''-'' else [])"
    define r2 where "r2 = adv (length sg) r1"
    have sg: "sg \<in> {[], ''-''}" "\<exists>u. t = sg @ u" using t by (auto simp: sg_def)
    have r2: "(if c = CHR ''-'' then adv 1 r1 else r1) = r2" by (simp add: sg_def r2_def)
    have r1: "rest r = (ws @ sg) @ rest r2" "r2 = adv (length (ws @ sg)) r" using sg(2) ws by (auto simp: r2_def)
    have m2: "moves r r2" using moves_adv_prefix [OF r1(1)] r1(2) by simp
    have "scan_number r = (if c \<noteq> CHR ''-'' \<and> \<not> is_dec c then fail WrongType ''expected a number'' r1
        else if \<not> at_char is_dec r2 then fail MalformedJson ''no digit after sign'' r2
        else rbind (scan_parts r2) (\<lambda>(fraction, exponent) r5.
          (Some (substr r5 (rd_pos r1) (rd_pos r5 - rd_pos r1), \<not> fraction \<and> \<not> exponent), r5)))"
      unfolding scan_number_def p Some prod.case option.case Let_def r2 is_digit_is_dec
      by (simp add: scan_parts_def rbind_assoc)
    then show ?thesis
      using m m2 parts_number_token [OF r1 ws(2) sg(1) scan_parts_takes] ws(3)
      by (auto intro!: takes_fail)
  qed
qed

section \<open>The scalar readers\<close>

lemma json_number_ascii: "json_number tok i \<Longrightarrow> ascii tok"
proof -
  assume "json_number tok i"
  then obtain sg ip fp ex where n: "tok = sg @ ip @ fp @ ex" "sg \<in> {[], ''-''}" "integer_ok ip" "fraction_ok fp" "exponent_ok ex"
    unfolding json_number_def by blast
  have "ascii ip" using n(3) by (auto simp: integer_ok_def digit_run_def intro: ascii_dec)
  moreover have "ascii fp" using n(4) by (cases fp) (auto simp: fraction_ok_def digit_run_def intro: ascii_dec)
  moreover have "ascii ex" using n(5) by (auto simp: exponent_ok_def digit_run_def intro: ascii_dec)
  ultimately show ?thesis using n(1,2) by auto
qed

lemma number_token_ascii: "number_token s (tok, i) \<Longrightarrow> ascii tok"
  by (auto simp: number_token_def intro: json_number_ascii)

lemma number_token_nonempty: "number_token s res \<Longrightarrow> s \<noteq> []"
  using json_number_nonempty by (auto simp: number_token_def)

definition int_token :: "string \<Rightarrow> int64 \<Rightarrow> bool" where
  "int_token s v \<longleftrightarrow> (\<exists>tok. number_token s (tok, True) \<and> parse_int tok = Some (sint v))"

definition double_token :: "string \<Rightarrow> double \<Rightarrow> bool" where
  "double_token s d \<longleftrightarrow> (\<exists>tok i. number_token s (tok, i) \<and> from_chars_double tok = Parsed d)"

lemma from_chars_int64_ParsedD: "from_chars_int64 s = Parsed v \<Longrightarrow> parse_int s = Some (sint v)"
  by (auto simp: from_chars_int64_def signed_of_int signed_take_bit_int_eq_self
      split: option.splits if_splits)

lemma from_chars_double_finite: "from_chars_double s = Parsed d \<Longrightarrow> is_finite d"
proof -
  assume "from_chars_double s = Parsed d"
  then obtain neg i where "d = of_index neg i" "i < inf_index"
    by (auto simp: from_chars_double_def Let_def split: option.splits if_splits)
  moreover have "inf_index < 2 ^ 63" by (simp add: inf_index_def)
  ultimately show ?thesis by (simp add: is_finite_def)
qed

lemma read_int_takes: "takes int_token r (read_int r)"
  unfolding read_int_def
proof (rule takes_rbind [OF scan_number_takes])
  fix s a r1
  assume a: "number_token s a"
  obtain tok i where ai: "a = (tok, i)" by fastforce
  have "ascii tok" using a ai number_token_ascii by blast
  then show "takes (\<lambda>s'. int_token (s @ s')) r1 ((\<lambda>(token, integral) r1.
       if \<not> integral then fail WrongType (''expected an integer, got '' @ token) r1
       else case from_chars_int64 token of
              Result_out_of_range \<Rightarrow> fail OutOfRange (''integer out of range: '' @ token) r1
            | Invalid_argument \<Rightarrow> fail MalformedJson (''malformed integer: '' @ token) r1
            | Parsed v \<Rightarrow> (Some v, r1)) a r1)"
    using a ai by (fastforce simp: int_token_def split: from_chars_result.splits
        intro!: takes_fail takesI [of _ "[]"] intro: from_chars_int64_ParsedD)
qed

lemma read_double_takes: "takes double_token r (read_double r)"
  unfolding read_double_def
proof (rule takes_rbind [OF scan_number_takes])
  fix s a r1
  assume a: "number_token s a"
  obtain tok i where ai: "a = (tok, i)" by fastforce
  have "ascii tok" using a ai number_token_ascii by blast
  then show "takes (\<lambda>s'. double_token (s @ s')) r1 ((\<lambda>(token, integral) r1.
       case from_chars_double token of
         Result_out_of_range \<Rightarrow> fail OutOfRange (''number out of range: '' @ token) r1
       | Invalid_argument \<Rightarrow> fail MalformedJson (''malformed number: '' @ token) r1
       | Parsed v \<Rightarrow> (Some v, r1)) a r1)"
    using a ai by (fastforce simp: double_token_def split: from_chars_result.splits
        intro!: takes_fail takesI [of _ "[]"])
qed

interpretation read_int: value_op read_int "\<lambda>_. True"
proof
  fix r
  have ne: "int_token s v \<Longrightarrow> s \<noteq> []" for s v
    using number_token_nonempty by (auto simp: int_token_def)
  show "outcome (\<lambda>_. True) r (read_int r)" "consumes r (read_int r)"
    using takes_outcome [OF read_int_takes, of r] ne by (auto elim: outcome_weaken)
qed

interpretation read_double: value_op read_double is_finite
proof
  fix r
  have ne: "double_token s v \<Longrightarrow> s \<noteq> []" for s v
    using number_token_nonempty by (auto simp: double_token_def)
  show "outcome is_finite r (read_double r)" "consumes r (read_double r)"
    using takes_outcome [OF read_double_takes, of r] ne from_chars_double_finite
    by (auto simp: double_token_def elim!: outcome_weaken)
qed

lemma starts_with_rest: "starts_with (rd_text r) (rd_pos r) tok \<Longrightarrow> \<exists>t. rest r = tok @ t"
  by (metis append_take_drop_id rest_def starts_with_def)

interpretation read_bool: value_op read_bool "\<lambda>_. True"
proof
  fix r
  obtain x r1 where p: "peek r = (x, r1)" by fastforce
  have m: "moves r r1" "same_level r r1" using p peek_NoneD peek_SomeD by (cases x; blast)+
  have "moves r (adv n r1)" if "starts_with (rd_text r1) (rd_pos r1) tok" "n = length tok" for tok n
    unfolding that(2) using moves_trans [OF m(1)] moves_adv_prefix starts_with_rest [OF that(1)] by blast
  from this [of "''true''" 4] this [of "''false''" 5] show "outcome (\<lambda>_. True) r (read_bool r)"
    using p m by (auto simp: read_bool_def intro!: outcome_simple_fail split: option.splits)
  show "consumes r (read_bool r)"
    using p m moves_pos [OF m(1)] by (auto simp: read_bool_def same_level_def split: option.splits)
qed

lemma at_null_moves: "at_null r = (b, r1) \<Longrightarrow> moves r r1 \<and> same_level r r1"
  using moves_skip_whitespace by (auto simp: at_null_def Let_def)

interpretation read_null: value_op read_null "\<lambda>_. True"
proof
  fix r
  obtain b r1 where p: "at_null r = (b, r1)" by fastforce
  note m = at_null_moves [OF p]
  have "moves r (adv 4 r1)" if b
  proof -
    have "\<exists>t. rest r1 = ''null'' @ t"
      using p that by (intro starts_with_rest) (auto simp: at_null_def Let_def)
    then have "moves r1 (adv (length ''null'') r1)" using moves_adv_prefix by blast
    then have "moves r1 (adv 4 r1)" by (simp add: eval_nat_numeral)
    with m show ?thesis by (auto intro: moves_trans)
  qed
  then show "outcome (\<lambda>_. True) r (read_null r)"
    using p m by (cases b) (auto simp: read_null_def intro!: outcome_simple_fail)
  show "consumes r (read_null r)"
    using p m moves_pos [of r r1] by (cases b) (auto simp: read_null_def same_level_def)
qed

lemma at_document_end_outcome: "outcome (\<lambda>_. True) r (at_document_end r)"
  using moves_skip_whitespace [of r]
  by (auto simp: at_document_end_def Let_def intro!: outcome_simple_fail)


section \<open>Reading back what the writer wrote\<close>

lemma json_number_to_chars: "json_number (to_chars_int v) True"
proof -
  have "integer_ok (nat_digits n)" for n
  proof (cases "n = 0")
    case True
    then show ?thesis by (simp add: nat_digits.simps [of 0] integer_ok_def digit_run_def digit_char_0 is_dec_def)
  next
    case False
    then show ?thesis using hd_nat_digits [of n] nat_digits_dec [of n] by (simp add: integer_ok_def digit_run_def)
  qed
  then show ?thesis
    unfolding json_number_def
    by (intro exI [of _ "if v < 0 then ''-'' else []"] exI [of _ "nat_digits (nat \<bar>v\<bar>)"] exI [of _ "[]"])
      (simp add: to_chars_int_def fraction_ok_def exponent_ok_def)
qed

lemma json_number_number_text:
  assumes "number_ok ip fp ex" "fp \<noteq> None \<or> ex \<noteq> None"
  shows "json_number (number_text neg ip fp ex) False"
proof -
  define f where "f = (case fp of None \<Rightarrow> [] | Some f \<Rightarrow> CHR ''.'' # f)"
  define e where "e = (case ex of None \<Rightarrow> [] | Some (sg, e) \<Rightarrow> CHR ''e'' # sg # e)"
  have "fraction_ok f" using assms(1) by (auto simp: f_def fraction_ok_def number_ok_def split: option.splits)
  moreover have "exponent_ok e"
  proof (cases ex)
    case (Some x)
    obtain sg ds where x: "x = (sg, ds)" by fastforce
    then have "e = CHR ''e'' # [sg] @ ds" "[sg] \<in> {[], ''+'', ''-''}" "digit_run ds"
      using Some assms(1) by (auto simp: e_def number_ok_def)
    then show ?thesis unfolding exponent_ok_def by blast
  qed (simp add: e_def exponent_ok_def)
  moreover have "integer_ok ip" using assms(1) by (simp add: integer_ok_def number_ok_def)
  moreover have "f \<noteq> [] \<or> e \<noteq> []" using assms(2) by (auto simp: f_def e_def)
  ultimately show ?thesis
    unfolding json_number_def
    by (intro exI [of _ "if neg then ''-'' else []"] exI [of _ ip] exI [of _ f] exI [of _ e])
      (auto simp: number_text_def f_def e_def)
qed

lemma read_int_text [reader_steps]:
  assumes "rest r = to_chars_int (sint v) @ post" "number_end post"
  shows "read_int r = (Some v, adv (length (to_chars_int (sint v))) r)"
  using scan_number_at [OF json_number_to_chars assms]
  by (simp add: read_int_def from_to_chars_int64)

lemma read_double_text [reader_steps]:
  assumes "is_finite d" "rest r = format_double d @ post" "number_end post"
  shows "read_double r = (Some d, adv (length (format_double d)) r)"
proof -
  obtain ip fp ex where s: "number_ok ip fp ex" "format_double d = number_text (negative d) ip fp ex"
    "fp \<noteq> None \<or> ex \<noteq> None" "from_chars_double (format_double d) = Parsed d"
    using format_double_shape [OF assms(1)] .
  have "json_number (format_double d) False" using json_number_number_text s by simp
  from scan_number_at [OF this assms(2,3)] show ?thesis
    by (simp add: read_double_def s(4))
qed

lemma starts_with_at: "rest r = tok @ post \<Longrightarrow> tok \<noteq> [] \<Longrightarrow> starts_with (rd_text r) (rd_pos r) tok"
  by (cases "rd_pos r \<le> length (rd_text r)") (auto simp: starts_with_def rest_def dest: arg_cong [of _ _ length])

lemma starts_with_neq:
  "rest r = tok @ post \<Longrightarrow> starts_with (rd_text r) (rd_pos r) tok' \<Longrightarrow> tok \<noteq> [] \<Longrightarrow> tok' \<noteq> [] \<Longrightarrow> hd tok = hd tok'"
  using starts_with_rest [of r tok'] by (metis hd_append2)

definition bool_text :: "bool \<Rightarrow> string" where
  "bool_text b = (if b then ''true'' else ''false'')"

lemma read_bool_text [reader_steps]:
  assumes "rest r = bool_text b @ post"
  shows "read_bool r = (Some b, adv (length (bool_text b)) r)"
proof -
  have "peek r = (Some (hd (bool_text b)), r)"
    by (rule peek_at [of _ _ "tl (bool_text b) @ post"]) (use assms in \<open>simp_all add: bool_text_def split: if_splits\<close>)
  moreover have "starts_with (rd_text r) (rd_pos r) (bool_text b)"
    by (rule starts_with_at [OF assms]) (simp add: bool_text_def)
  moreover have "\<not> starts_with (rd_text r) (rd_pos r) ''true''" if "\<not> b"
    using starts_with_neq [OF assms, of "''true''"] that by (auto simp: bool_text_def)
  ultimately show ?thesis
    by (cases b) (simp_all add: read_bool_def bool_text_def eval_nat_numeral)
qed

lemma at_null_text: "rest r = ''null'' @ post \<Longrightarrow> at_null r = (True, r)"
  using starts_with_at [of r "''null''" post]
  by (simp add: at_null_def Let_def skip_whitespace_def skip_while.simps [of is_space r] rest_Cons)

lemma at_null_other:
  assumes "rest r = c # post" "\<not> is_space c" "c \<noteq> CHR ''n''"
  shows "at_null r = (False, r)"
proof -
  have "skip_whitespace r = r"
    using assms by (simp add: skip_whitespace_def skip_while.simps [of is_space r] rest_Cons)
  moreover have "\<not> starts_with (rd_text r) (rd_pos r) ''null''"
    using starts_with_neq [of r "[c]" post "''null''"] assms by auto
  ultimately show ?thesis by (simp add: at_null_def)
qed

lemma read_null_text [reader_steps]: "rest r = ''null'' @ post \<Longrightarrow> read_null r = (Some (), adv 4 r)"
  by (simp only: read_null_def at_null_text prod.case bool.case)

lemma expect_text [reader_steps]: "rest r = c # post \<Longrightarrow> \<not> is_space c \<Longrightarrow> expect c r = (Some (), adv 1 r)"
  by (simp add: expect_def peek_at)

lemma at_document_end_text [reader_steps]:
  "rest r = [] \<Longrightarrow> rd_pos r \<le> length (rd_text r) \<Longrightarrow> at_document_end r = (Some (), r)"
  by (simp add: at_document_end_def Let_def skip_whitespace_def skip_while.simps [of is_space r] rest_Nil)

end
