(* ===== verification/Json_Nesting.thy ===== *)
theory Json_Nesting
  imports Json_Numbers
begin

text \<open>
  Nesting of \<open>src/json.cpp\<close>: the \<open>first_\<close> flags seen as a stack with one flag per open
  object or array, and what \<open>begin_object\<close>, \<open>next_member\<close>, \<open>begin_array\<close> and
  \<open>next_element\<close> do to that stack and to the text ahead.
\<close>

definition level :: "reader \<Rightarrow> bool list \<Rightarrow> bool" where
  "level r bs \<longleftrightarrow> rd_depth r = length bs \<and> length (rd_first r) = kMaxDepth \<and> length bs \<le> kMaxDepth
     \<and> take (length bs) (rd_first r) = rev bs"

text \<open>The reader stands at the text \<open>s\<close> inside the open levels \<open>bs\<close>, innermost first.\<close>

definition stands :: "reader \<Rightarrow> bool list \<Rightarrow> string \<Rightarrow> bool" where
  "stands r bs s \<longleftrightarrow> level r bs \<and> rest r = s \<and> rd_pos r \<le> length (rd_text r)"

definition sep_text :: "bool \<Rightarrow> string" where
  "sep_text first = (if first then [] else '','')"

lemma stands_Reader: "stands (Reader txt) [] txt"
  by (simp add: stands_def level_def Reader_def rest_def)

lemma take_update_last: "n < length xs \<Longrightarrow> take (Suc n) (xs[n := x]) = take n xs @ [x]"
  by (simp add: take_Suc_conv_app_nth)

lemma level_top: "level r (b # bs) \<Longrightarrow> rd_first r ! (rd_depth r - 1) = b"
proof -
  assume l: "level r (b # bs)"
  then have "length bs < length (rd_first r)" by (simp add: level_def)
  then have "take (Suc (length bs)) (rd_first r) = take (length bs) (rd_first r) @ [rd_first r ! length bs]"
    by (rule take_Suc_conv_app_nth)
  with l show ?thesis by (simp add: level_def)
qed

lemma level_same: "same_level r r' \<Longrightarrow> level r bs \<Longrightarrow> level r' bs"
  by (simp add: same_level_def level_def)

lemma level_pop: "level r (b # bs) \<Longrightarrow> level (r\<lparr>rd_depth := rd_depth r - 1\<rparr>) bs"
  using take_Suc_conv_app_nth [of "length bs" "rd_first r"] by (simp add: level_def)

lemma level_first: "level r (b # bs) \<Longrightarrow> level (r\<lparr>rd_first := (rd_first r)[rd_depth r - 1 := b']\<rparr>) (b' # bs)"
  using take_Suc_conv_app_nth [of "length bs" "rd_first r"] by (simp add: level_def take_update_last)

lemma level_push: "level r bs \<Longrightarrow> length bs < kMaxDepth \<Longrightarrow>
    level (r\<lparr>rd_first := (rd_first r)[rd_depth r := True], rd_depth := rd_depth r + 1\<rparr>) (True # bs)"
  by (simp add: level_def take_update_last)

lemma stands_adv: "stands r bs (s @ t) \<Longrightarrow> stands (adv (length s) r) bs t"
proof -
  assume st: "stands r bs (s @ t)"
  then have "level (adv (length s) r) bs" using level_same [of r "adv (length s) r" bs] by (simp add: stands_def)
  moreover have "rd_pos r + length s \<le> length (rd_text r)"
    using st length_rest [of r] by (auto simp: stands_def)
  ultimately show ?thesis using st by (simp add: stands_def)
qed

lemma stands_adv1: "stands r bs (c # t) \<Longrightarrow> stands (adv 1 r) bs t"
  using stands_adv [of r bs "[c]" t] by simp

lemma stands_rest: "stands r bs s \<Longrightarrow> rest r = s"
  by (simp add: stands_def)

lemma expect_stands:
  "stands r bs (c # t) \<Longrightarrow> \<not> is_space c \<Longrightarrow> \<exists>r'. expect c r = (Some (), r') \<and> stands r' bs t"
  using expect_text [of r c t] stands_adv1 [of r bs c t] by (auto simp: stands_def)

lemma push_level_stands:
  "stands r bs t \<Longrightarrow> length bs < kMaxDepth \<Longrightarrow> \<exists>r'. push_level r = (Some (), r') \<and> stands r' (True # bs) t"
  using level_push [of r bs] by (auto simp: push_level_def stands_def level_def rest_def)

lemma begin_object_stands:
  "stands r bs (CHR 0x7B # t) \<Longrightarrow> length bs < kMaxDepth \<Longrightarrow>
     \<exists>r'. begin_object r = (Some (), r') \<and> stands r' (True # bs) t"
  using expect_stands [of r bs "CHR 0x7B" t] push_level_stands by (fastforce simp: begin_object_def)

lemma begin_array_stands:
  "stands r bs (CHR 0x5B # t) \<Longrightarrow> length bs < kMaxDepth \<Longrightarrow>
     \<exists>r'. begin_array r = (Some (), r') \<and> stands r' (True # bs) t"
  using expect_stands [of r bs "CHR 0x5B" t] push_level_stands by (fastforce simp: begin_array_def)

lemma separator_stands:
  assumes "stands r (b # bs) (sep_text b @ t)"
  shows "\<exists>r'. separator r = (Some (), r') \<and> stands r' (False # bs) t"
proof (cases b)
  case True
  with assms level_top [of r b bs] level_first [of r b bs False] show ?thesis
    by (auto simp: separator_def stands_def sep_text_def rest_def)
next
  case False
  with assms have "stands r (False # bs) (CHR '','' # t)" by (simp add: sep_text_def)
  with level_top [of r b bs] expect_stands [OF this] False assms show ?thesis
    by (auto simp: separator_def stands_def)
qed

lemma peek_stands: "stands r bs (c # t) \<Longrightarrow> \<not> is_space c \<Longrightarrow> peek r = (Some c, r)"
  by (simp add: stands_def peek_at)

lemma pop_stands:
  "stands r (b # bs) (c # t) \<Longrightarrow> stands ((adv 1 r)\<lparr>rd_depth := rd_depth r - 1\<rparr>) bs t"
  using stands_adv1 [of r "b # bs" c t] level_pop [of "adv 1 r" b bs] by (auto simp: stands_def rest_def)

lemma sep_hd: "c \<noteq> CHR 0x5D \<Longrightarrow> c \<noteq> CHR 0x7D \<Longrightarrow> \<not> is_space c \<Longrightarrow>
    \<exists>c' u. sep_text b @ c # t = c' # u \<and> c' \<noteq> CHR 0x5D \<and> c' \<noteq> CHR 0x7D \<and> \<not> is_space c'"
  by (cases b) (auto simp: sep_text_def)

lemma next_element_stands:
  assumes "stands r (b # bs) (sep_text b @ c # t)" "c \<noteq> CHR 0x5D" "c \<noteq> CHR 0x7D" "\<not> is_space c"
  shows "\<exists>r'. next_element r = (Some True, r') \<and> stands r' (False # bs) (c # t)"
proof -
  obtain c' u where "sep_text b @ c # t = c' # u" "c' \<noteq> CHR 0x5D" "\<not> is_space c'"
    using sep_hd [OF assms(2-4)] by blast
  with assms(1) peek_stands [of r "b # bs" c' u] separator_stands [OF assms(1)] show ?thesis
    by (auto simp: next_element_def)
qed

lemma next_element_end:
  "stands r (b # bs) (CHR 0x5D # t) \<Longrightarrow> \<exists>r'. next_element r = (Some False, r') \<and> stands r' bs t"
  using peek_stands [of r "b # bs" "CHR 0x5D" t] pop_stands by (auto simp: next_element_def)

lemma read_string_stands:
  assumes "valid_utf8 s" "stands r bs (json_string s @ t)"
  shows "\<exists>r'. read_string r = (Some s, r') \<and> stands r' bs t"
  using read_string_text [OF assms(1), of r t] stands_adv [OF assms(2)] assms(2) by (auto simp: stands_def)

lemma read_int_stands:
  assumes "stands r bs (to_chars_int (sint v) @ t)" "number_end t"
  shows "\<exists>r'. read_int r = (Some v, r') \<and> stands r' bs t"
  using read_int_text [of r v t] stands_adv [OF assms(1)] assms by (auto simp: stands_def)

lemma read_double_stands:
  assumes "is_finite d" "stands r bs (format_double d @ t)" "number_end t"
  shows "\<exists>r'. read_double r = (Some d, r') \<and> stands r' bs t"
  using read_double_text [OF assms(1), of r t] stands_adv [OF assms(2)] assms by (auto simp: stands_def)

lemma read_bool_stands:
  assumes "stands r bs (bool_text b @ t)"
  shows "\<exists>r'. read_bool r = (Some b, r') \<and> stands r' bs t"
  using read_bool_text [of r b t] stands_adv [OF assms] assms by (auto simp: stands_def)

lemma next_member_stands:
  assumes "stands r (b # bs) (sep_text b @ json_string key @ CHR '':'' # t)" "valid_utf8 key"
  shows "\<exists>r'. next_member r = (Some (Some key), r') \<and> stands r' (False # bs) t"
proof -
  obtain r2 where r2: "separator r = (Some (), r2)" "stands r2 (False # bs) (json_string key @ CHR '':'' # t)"
    using separator_stands [OF assms(1)] by blast
  then obtain r3 where r3: "read_string r2 = (Some key, r3)" "stands r3 (False # bs) (CHR '':'' # t)"
    using read_string_stands [OF assms(2)] by blast
  then obtain r4 where r4: "expect CHR '':'' r3 = (Some (), r4)" "stands r4 (False # bs) t"
    using expect_stands [OF r3(2)] by auto
  obtain c' u where "sep_text b @ json_string key @ CHR '':'' # t = c' # u" "c' \<noteq> CHR 0x7D" "\<not> is_space c'"
    using sep_hd [of "CHR 0x22" b] by (fastforce simp: json_string_def)
  with assms(1) peek_stands [of r "b # bs" c' u] r2 r3 r4 show ?thesis
    by (auto simp: next_member_def read_string_def)
qed

lemma next_member_end:
  "stands r (b # bs) (CHR 0x7D # t) \<Longrightarrow> \<exists>r'. next_member r = (Some None, r') \<and> stands r' bs t"
  using peek_stands [of r "b # bs" "CHR 0x7D" t] pop_stands by (auto simp: next_member_def)

section \<open>Contracts of the nesting operations\<close>

interpretation next_member: reader_op next_member "\<lambda>x. \<forall>key. x = Some key \<longrightarrow> valid_utf8 key"
proof
  fix r
  obtain x r1 where p: "peek r = (x, r1)" by fastforce
  have m: "moves r r1" using p peek_NoneD peek_SomeD by (cases x; blast)
  have "outcome (\<lambda>x. \<forall>key. x = Some key \<longrightarrow> valid_utf8 key) r1
     (rbind (separator r1) (\<lambda>_ r2. rbind (scan_string r2) (\<lambda>key r3.
                 rbind (expect CHR '':'' r3) (\<lambda>_ r4. (Some (Some key), r4)))))"
    by (intro outcome_rbind [OF separator_outcome]
        outcome_rbind [OF read_string.run_outcome [unfolded read_string_def]] outcome_rbind [OF expect_outcome])
      auto
  moreover have "moves r1 ((adv 1 r1)\<lparr>rd_depth := rd_depth r1 - 1\<rparr>)" if "x = Some c" for c
    using that p peek_SomeD [of r c r1] by (auto simp: moves_def rest_Cons)
  ultimately show "outcome (\<lambda>x. \<forall>key. x = Some key \<longrightarrow> valid_utf8 key) r (next_member r)"
    using p by (cases x) (auto simp: next_member_def intro!: outcome_simple_fail outcome_after [OF m] moves_trans [OF m] m)
qed

text \<open>A member or an array that was opened has consumed at least one byte.\<close>

lemma rbind_consumes:
  assumes "rbind m k = (Some b, r')" "consumes r m" "\<And>a r1. k a r1 = (Some b, r') \<Longrightarrow> rd_pos r1 \<le> rd_pos r'"
  shows "rd_pos r < rd_pos r'"
  using rbind_SomeD [OF assms(1)] assms(2,3) by (fastforce simp: consumes_def)

lemma moved_within:
  "moves r r' \<Longrightarrow> rd_pos r < rd_pos r' \<Longrightarrow> rd_pos r < length (rd_text r)"
  by (auto simp: moves_def)

lemma begin_array_progress:
  assumes "begin_array r = (Some u, r')"
  shows "rd_pos r < rd_pos r'"
  using assms unfolding begin_array_def
  by (rule rbind_consumes [OF _ expect_consumes]) (auto simp: push_level_def split: if_splits)

lemma next_member_progress:
  assumes "next_member r = (Some (Some key), r')"
  shows "rd_pos r < rd_pos r'"
proof -
  obtain c r1 where p: "peek r = (Some c, r1)" "c \<noteq> CHR 0x7D"
    using assms by (auto simp: next_member_def split: prod.splits option.splits if_splits)
  then obtain r2 r3 r4 where k: "separator r1 = (Some (), r2)" "scan_string r2 = (Some key, r3)"
      "expect CHR '':'' r3 = (Some (), r4)" "r' = r4"
    using assms by (auto simp: next_member_def dest!: rbind_SomeD)
  have "rd_pos r \<le> rd_pos r1" using p peek_SomeD [of r c r1] by (simp add: moves_def)
  moreover have "rd_pos r1 \<le> rd_pos r2" using separator_outcome [of r1] k(1) by (simp add: moves_def)
  moreover have "rd_pos r2 < rd_pos r3" using read_string.run_consumes [of r2] k(2) by (simp add: read_string_def)
  moreover have "rd_pos r3 < rd_pos r4" using expect_consumes [of r3 "CHR '':''"] k(3) by simp
  ultimately show ?thesis using k(4) by simp
qed

end
