(* ===== verification/Json_Properties.thy ===== *)
theory Json_Properties
  imports Json_Nesting
begin

text \<open>
  The properties of the JSON layer as its users see them: what the writers write is what the
  readers read, and what the readers accept is what the grammar of JSON and UTF-8 allow.
\<close>

section \<open>Properties of the JSON layer\<close>

text \<open>
  C27: the shortest-digits text of a finite double, in fixed or scientific layout, reads back as
  the same double, the sign of zero included.
\<close>

theorem format_double_roundtrip:
  assumes "is_finite d"
  shows "from_chars_double (format_double d) = Parsed d"
  using format_double_shape [OF assms] by metis

lemma finite_sample: "is_finite (of_index True 0x3F847AE147AE147B)"
  by (simp add: is_finite_def inf_index_def)

theorem format_double_roundtrip_witness:
  "is_finite (of_index True 0x3F847AE147AE147B) \<and>
   from_chars_double (format_double (of_index True 0x3F847AE147AE147B)) = Parsed (of_index True 0x3F847AE147AE147B)"
  using format_double_roundtrip [OF finite_sample] finite_sample by blast

text \<open>No double, infinities and NaNs included, needs more than 24 of the 32 characters of the buffer.\<close>

lemma format_double_bounded: "length (format_double d) \<le> 24 \<and> 24 \<le> kDoubleBufferSize"
  using format_double_length_le by (simp add: kDoubleBufferSize_def)

text \<open>
  C28: a string that is valid UTF-8, written by \<open>append_string\<close>, is read back exactly, whatever it
  holds (quotes, control characters, any scalar value) and whatever follows it; the reader stops
  right behind the closing quote. Other bytes are written unchanged and refused by the reader.
\<close>

theorem read_string_roundtrip:
  assumes "valid_utf8 s" "map as_byte (rest r) = append_string [] s @ post"
  shows "read_string r = (Some s, adv (length (append_string [] s)) r)"
proof -
  have "rest r = map as_char (map as_byte (rest r))" by (simp add: comp_def)
  also have "\<dots> = json_string s @ map as_char post" by (simp only: assms(2)) (simp add: append_string_eq comp_def)
  finally show ?thesis using read_string_text [OF assms(1), of r] by (simp add: append_string_eq)
qed

theorem read_string_roundtrip_witness:
  "read_string (Reader (json_string [CHR 0x22, CHR 0x01, CHR ''x''] @ '',1'')) =
     (Some [CHR 0x22, CHR 0x01, CHR ''x''],
      adv (length (append_string [] [CHR 0x22, CHR 0x01, CHR ''x''])) (Reader (json_string [CHR 0x22, CHR 0x01, CHR ''x''] @ '',1'')))"
  by (rule read_string_roundtrip [where post = "map as_byte '',1''"])
    (simp_all add: ascii_valid append_string_eq rest_def Reader_def)

text \<open>
  C29: whatever is read as a string is well-formed UTF-8, escapes included, so no lone surrogate
  and no overlong form leaves the reader; a failure leaves a recorded error.
\<close>

theorem read_string_utf8:
  "case read_string r of
     (Some s, r') \<Rightarrow> valid_utf8 s \<and> rd_pos r < rd_pos r' \<and> rd_pos r' \<le> max (rd_pos r) (length (rd_text r))
   | (None, r') \<Rightarrow> rd_failed r'"
  using read_string.run_outcome [of r] read_string.run_consumes [of r]
  by (auto simp: outcome_def consumes_def moves_def split: prod.splits option.splits)

text \<open>
  C30: the byte-level validator accepts exactly the encodings of the scalar values above ASCII and
  steps over one of them.
\<close>

theorem validate_utf8_run_exact:
  assumes "rest r \<noteq> []"
  shows "validate_utf8_run r = (Some (), r') \<longleftrightarrow>
     (\<exists>cp post. scalar cp \<and> 0x80 \<le> cp \<and> rest r = utf8_char cp @ post \<and> r' = adv (length (utf8_char cp)) r)"
proof -
  obtain c s where "rest r = c # s" using assms by (cases "rest r") simp_all
  from validate_sound [OF this] show ?thesis using validate_accepts by blast
qed

theorem validate_utf8_run_exact_witness:
  "rest (Reader [CHR 0xC3, CHR 0xA9]) \<noteq> [] \<and>
   validate_utf8_run (Reader [CHR 0xC3, CHR 0xA9]) = (Some (), adv 2 (Reader [CHR 0xC3, CHR 0xA9]))"
proof -
  have c: "utf8_char 0xE9 = [CHR 0xC3, CHR 0xA9]"
    by (simp add: utf8_char_def utf8_bytes_def char_of_def bit_0)
  have r: "rest (Reader [CHR 0xC3, CHR 0xA9]) = utf8_char 0xE9 @ []" by (simp add: c rest_def Reader_def)
  have s: "scalar 0xE9" "(0x80::nat) \<le> 0xE9" by (simp_all add: scalar_def)
  have "rest (Reader [CHR 0xC3, CHR 0xA9]) \<noteq> []" by (simp add: rest_def Reader_def)
  with validate_utf8_run_exact [OF this, of "adv 2 (Reader [CHR 0xC3, CHR 0xA9])"] r s c show ?thesis
    by (metis length_Cons list.size(3) numeral_2_eq_2)
qed

lemma scan_number_sound:
  assumes "scan_number r = (Some (tok, integral), r')"
  shows "json_number tok integral \<and>
     (\<exists>ws t. rest r = ws @ tok @ t \<and> (\<forall>c \<in> set ws. is_space c) \<and> r' = adv (length ws + length tok) r)"
proof -
  obtain ws t where "json_number tok integral" "rest r = (ws @ tok) @ t" "\<forall>c \<in> set ws. is_space c"
      "r' = adv (length (ws @ tok)) r"
    using scan_number_takes [of r] assms by (auto simp: takes_Some number_token_def)
  then have "json_number tok integral \<and> rest r = ws @ tok @ t \<and> (\<forall>c \<in> set ws. is_space c) \<and>
      r' = adv (length ws + length tok) r" by simp
  then show ?thesis by blast
qed

text \<open>
  C31: the scanner takes exactly the numbers of the JSON grammar: a token in front of something that
  cannot continue it is scanned whole, with the flag that says whether it has neither fraction
  nor exponent, if and only if the grammar derives it.
\<close>

theorem scan_number_exact:
  assumes "rest r = tok @ post" "number_end post"
  shows "(scan_number r = (Some (tok, integral), adv (length tok) r)) = json_number tok integral"
  using scan_number_at [of tok integral r post] assms scan_number_sound [of r tok integral] by blast

lemma number_sample: "json_number ''-12.5e3'' False"
  unfolding json_number_def integer_ok_def fraction_ok_def exponent_ok_def digit_run_def
  by (rule exI [of _ "''-''"], rule exI [of _ "''12''"], rule exI [of _ "''.5''"], rule exI [of _ "''e3''"])
    (simp add: is_dec_def exI [of _ "[]"])

lemma rest_sample: "rest (Reader s) = s"
  by (simp add: rest_def Reader_def)

lemma comma_ends: "number_end '',''"
  by (simp add: number_end_def is_dec_def)

theorem scan_number_exact_witness:
  "scan_number (Reader ''-12.5e3,'') = (Some (''-12.5e3'', False), adv (length ''-12.5e3'') (Reader ''-12.5e3,''))"
  using scan_number_exact [of "Reader ''-12.5e3,''" "''-12.5e3''" "'',''" False] number_sample comma_ends
  by (simp add: rest_sample)

text \<open>
  An integer that is read is the number its digits denote, never a wrapped one: a token
  outside the 64-bit range is an error.
\<close>

lemma read_int_exact:
  assumes "read_int r = (Some v, r')"
  shows "\<exists>ws tok t. rest r = ws @ tok @ t \<and> (\<forall>c \<in> set ws. is_space c) \<and> json_number tok True \<and>
     parse_int tok = Some (sint v) \<and> r' = adv (length ws + length tok) r"
  using read_int_takes [of r] assms
  by (auto simp: takes_Some int_token_def number_token_def) force

lemma read_int_sample: "read_int (Reader ''42'') = (Some 42, adv 2 (Reader ''42''))"
proof -
  have "to_chars_int (sint (42 :: int64)) = ''42''"
    by (simp add: to_chars_int_def nat_digits.simps digit_char_def char_of_def bit_0)
  then show ?thesis
    using read_int_text [of "Reader ''42''" 42 "[]"] by (simp add: rest_sample number_end_def)
qed

end
