(* ===== verification/Protocol.thy ===== *)
theory Protocol
  imports Json_Nesting
begin

text \<open>
  The wire protocol of \<open>src/protocol.cpp\<close>: frames of a four-byte big-endian length and a JSON
  body, encoded and decoded for the two messages of the wake channel. A field reader that
  returns \<open>std::optional<DecodeError>\<close> and fills a message is a function to an error or the
  message filled; after an error no caller looks at the message again.
\<close>

section \<open>The required fields\<close>

definition kSchemaVersionBit :: uint32 where "kSchemaVersionBit = push_bit 0 1"
definition kCorrelationIdBit :: uint32 where "kCorrelationIdBit = push_bit 1 1"
definition kMarketTickerBit :: uint32 where "kMarketTickerBit = push_bit 2 1"
definition kAssetBit :: uint32 where "kAssetBit = push_bit 3 1"
definition kDirectionBit :: uint32 where "kDirectionBit = push_bit 4 1"
definition kKalshiPriceBit :: uint32 where "kKalshiPriceBit = push_bit 5 1"
definition kModelProbabilityBit :: uint32 where "kModelProbabilityBit = push_bit 6 1"
definition kFeeBit :: uint32 where "kFeeBit = push_bit 7 1"
definition kEdgeBit :: uint32 where "kEdgeBit = push_bit 8 1"
definition kDecisionTsMsBit :: uint32 where "kDecisionTsMsBit = push_bit 9 1"
definition kSentAtMsBit :: uint32 where "kSentAtMsBit = push_bit 10 1"
definition kSentAtNsBit :: uint32 where "kSentAtNsBit = push_bit 11 1"
definition kReceivedAtMsBit :: uint32 where "kReceivedAtMsBit = push_bit 12 1"
definition kStatusBit :: uint32 where "kStatusBit = push_bit 13 1"

lemmas bit_defs = kSchemaVersionBit_def kCorrelationIdBit_def kMarketTickerBit_def kAssetBit_def
  kDirectionBit_def kKalshiPriceBit_def kModelProbabilityBit_def kFeeBit_def kEdgeBit_def
  kDecisionTsMsBit_def kSentAtMsBit_def kSentAtNsBit_def kReceivedAtMsBit_def kStatusBit_def

definition kWakeMessageRequired :: "(uint32 \<times> string) list" where
  "kWakeMessageRequired =
     [(kSchemaVersionBit, ''schema_version''), (kCorrelationIdBit, ''correlation_id''),
      (kMarketTickerBit, ''market_ticker''), (kAssetBit, ''asset''), (kDirectionBit, ''direction''),
      (kKalshiPriceBit, ''kalshi_price''), (kModelProbabilityBit, ''model_probability''),
      (kFeeBit, ''fee''), (kEdgeBit, ''edge''), (kDecisionTsMsBit, ''decision_ts_ms''),
      (kSentAtMsBit, ''sent_at_ms''), (kSentAtNsBit, ''sent_at_ns'')]"

definition kWakeAckRequired :: "(uint32 \<times> string) list" where
  "kWakeAckRequired =
     [(kSchemaVersionBit, ''schema_version''), (kCorrelationIdBit, ''correlation_id''),
      (kReceivedAtMsBit, ''received_at_ms''), (kStatusBit, ''status'')]"

definition kWakeMessageRequiredMask :: uint32 where
  "kWakeMessageRequiredMask =
     kSchemaVersionBit OR kCorrelationIdBit OR kMarketTickerBit OR kAssetBit OR kDirectionBit OR
     kKalshiPriceBit OR kModelProbabilityBit OR kFeeBit OR kEdgeBit OR kDecisionTsMsBit OR
     kSentAtMsBit OR kSentAtNsBit"

definition kWakeAckRequiredMask :: uint32 where
  "kWakeAckRequiredMask = kSchemaVersionBit OR kCorrelationIdBit OR kReceivedAtMsBit OR kStatusBit"

fun missing_field :: "uint32 \<Rightarrow> (uint32 \<times> string) list \<Rightarrow> 'a Decoded" where
  "missing_field seen [] = decode_fail MissingField ''missing required field''"
| "missing_field seen ((b, name) # required) =
     (if seen AND b = 0 then decode_fail MissingField (''missing required field: '' @ name)
      else missing_field seen required)"

section \<open>Frames\<close>

definition text_of :: "byte list \<Rightarrow> string" where
  "text_of body = map as_char body"

definition write_length_prefix :: "byte list \<Rightarrow> byte list" where
  "write_length_prefix out =
     (let len = word_of_nat (length out - kFrameLengthBytes) :: uint32
      in out[0 := ucast (drop_bit 24 len AND 0xFF), 1 := ucast (drop_bit 16 len AND 0xFF),
             2 := ucast (drop_bit 8 len AND 0xFF), 3 := ucast (len AND 0xFF)])"

definition name_of_direction :: "Direction \<Rightarrow> string" where
  "name_of_direction d = (if d = Yes then ''yes'' else ''no'')"

definition name_of_status :: "WakeAckStatus \<Rightarrow> string" where
  "name_of_status s = (if s = Accepted then ''accepted'' else ''rejected'')"

text \<open>The raw literals of the source: a quoted key and its colon.\<close>

definition key_text :: "string \<Rightarrow> string" where
  "key_text name = CHR 0x22 # name @ [CHR 0x22, CHR '':'']"

definition push_char :: "byte list \<Rightarrow> char \<Rightarrow> byte list" where
  "push_char out c = out @ [as_byte c]"

definition append_price_range :: "bool \<times> byte list \<Rightarrow> PriceRange \<Rightarrow> bool \<times> byte list" where
  "append_price_range st rng =
     (let (first, out) = st;
          out = (if \<not> first then push_char out CHR '','' else out);
          out = push_char out CHR 0x5B;
          out = append_double out (pr_start rng);
          out = push_char out CHR '','';
          out = append_double out (pr_end rng);
          out = push_char out CHR '','';
          out = append_double out (pr_step rng);
          out = push_char out CHR 0x5D
      in (False, out))"

definition encode_frame_into_message :: "WakeMessage \<Rightarrow> byte list \<Rightarrow> byte list" where
  "encode_frame_into_message m out =
     (let out = replicate kFrameLengthBytes 0;
          out = append_text out (''{'' @ key_text ''schema_version'');
          out = append_int out (schema_version m);
          out = append_text out ('','' @ key_text ''correlation_id'');
          out = append_string out (correlation_id m);
          out = append_text out ('','' @ key_text ''market_ticker'');
          out = append_string out (market_ticker m);
          out = append_text out ('','' @ key_text ''asset'');
          out = append_string out (asset m);
          out = append_text out ('','' @ key_text ''direction'');
          out = append_string out (name_of_direction (direction m));
          out = append_text out ('','' @ key_text ''kalshi_price'');
          out = append_double out (kalshi_price m);
          out = append_text out ('','' @ key_text ''model_probability'');
          out = append_double out (model_probability m);
          out = append_text out ('','' @ key_text ''fee'');
          out = append_double out (fee m);
          out = append_text out ('','' @ key_text ''edge'');
          out = append_double out (edge m);
          out = append_text out ('','' @ key_text ''decision_ts_ms'');
          out = append_int out (decision_ts_ms m);
          out = append_text out ('','' @ key_text ''sent_at_ms'');
          out = append_int out (sent_at_ms m);
          out = append_text out ('','' @ key_text ''sent_at_ns'');
          out = append_int out (sent_at_ns m);
          out = append_text out ('','' @ key_text ''recv_ns'');
          out = append_int out (recv_ns m);
          out = append_text out ('','' @ key_text ''clock_domain'');
          out = append_string out (clock_domain m);
          out = append_text out ('','' @ key_text ''dry_run'');
          out = append_text out (if dry_run m then ''true'' else ''false'');
          out = append_text out ('','' @ key_text ''wire_price_yes_dollars'');
          out = append_double out (wire_price_yes_dollars m);
          out = append_text out ('','' @ key_text ''exchange_index'');
          out = append_int out (exchange_index m);
          out = append_text out ('','' @ key_text ''available_size_contracts'');
          out = append_double out (available_size_contracts m);
          out = append_text out ('','' @ key_text ''price_ranges'' @ ''['');
          (first, out) = foldl append_price_range (True, out) (price_ranges m);
          out = push_char out CHR 0x5D;
          out = append_text out ('','' @ key_text ''correlation_group'');
          out = append_string out (correlation_group m);
          out = push_char out CHR 0x7D
      in write_length_prefix out)"

definition encode_frame_into_ack :: "WakeAck \<Rightarrow> byte list \<Rightarrow> byte list" where
  "encode_frame_into_ack a out =
     (let out = replicate kFrameLengthBytes 0;
          out = append_text out (''{'' @ key_text ''schema_version'');
          out = append_int out (ack_schema_version a);
          out = append_text out ('','' @ key_text ''correlation_id'');
          out = append_string out (ack_correlation_id a);
          out = append_text out ('','' @ key_text ''received_at_ms'');
          out = append_int out (ack_received_at_ms a);
          out = append_text out ('','' @ key_text ''status'');
          out = append_string out (name_of_status (ack_status a));
          out = append_text out ('','' @ key_text ''reason'');
          out = (case ack_reason a of
                   Some reason \<Rightarrow> append_string out reason
                 | None \<Rightarrow> append_text out ''null'');
          out = push_char out CHR 0x7D
      in write_length_prefix out)"

definition encode_frame_message :: "WakeMessage \<Rightarrow> byte list" where
  "encode_frame_message m = encode_frame_into_message m []"

definition encode_frame_ack :: "WakeAck \<Rightarrow> byte list" where
  "encode_frame_ack a = encode_frame_into_ack a []"

definition decode_frame_length :: "byte list \<Rightarrow> uint32 Decoded" where
  "decode_frame_length prefix =
     (if length prefix \<noteq> kFrameLengthBytes then decode_fail MalformedFrame ''length prefix must be 4 bytes''
      else let len = foldl (\<lambda>len b. push_bit 8 len OR ucast b) 0 prefix
           in if len > kMaxFrameBytes then
                decode_fail FrameTooLarge
                  (''frame length '' @ nat_digits (unat len) @ '' exceeds max '' @ nat_digits (unat kMaxFrameBytes))
              else Inr len)"

definition is_clock_comparable_to :: "WakeMessage \<Rightarrow> string \<Rightarrow> bool" where
  "is_clock_comparable_to m local_clock_domain \<longleftrightarrow>
     sint (recv_ns m) > 0 \<and> local_clock_domain \<noteq> [] \<and> clock_domain m = local_clock_domain"

section \<open>Reading fields\<close>

type_synonym 'a reading = "'a Decoded \<times> reader"

definition reading :: "'a option \<times> reader \<Rightarrow> ('a \<Rightarrow> 'b) \<Rightarrow> 'b reading" where
  "reading res f =
     (case res of (None, r) \<Rightarrow> (Inl (rd_error r), r) | (Some a, r) \<Rightarrow> (Inr (f a), r))"

definition dbind :: "'a reading \<Rightarrow> ('a \<Rightarrow> reader \<Rightarrow> 'b reading) \<Rightarrow> 'b reading" where
  "dbind m k = (case m of (Inl e, r) \<Rightarrow> (Inl e, r) | (Inr a, r) \<Rightarrow> k a r)"

definition price_range_arity_error :: DecodeError where
  "price_range_arity_error =
     \<lparr>code = MalformedPriceRange, message = ''price_ranges entry is not [start, end, step]''\<rparr>"

definition read_bound :: "reader \<Rightarrow> double reading" where
  "read_bound r =
     dbind (reading (next_element r) id) (\<lambda>has_bound r1.
       if \<not> has_bound then (Inl price_range_arity_error, r1) else reading (read_double r1) id)"

definition read_bounds :: "reader \<Rightarrow> PriceRange reading" where
  "read_bounds r =
     dbind (read_bound r) (\<lambda>b0 r1. dbind (read_bound r1) (\<lambda>b1 r2. dbind (read_bound r2) (\<lambda>b2 r3.
     dbind (reading (next_element r3) id) (\<lambda>extra r4.
       if extra then (Inl price_range_arity_error, r4)
       else (Inr \<lparr>pr_start = b0, pr_end = b1, pr_step = b2\<rparr>, r4)))))"

definition read_price_range :: "reader \<Rightarrow> PriceRange reading" where
  "read_price_range r = dbind (reading (begin_array r) id) (\<lambda>_. read_bounds)"

lemma dbind_SomeD: "dbind m k = (Inr b, r') \<Longrightarrow> \<exists>a r1. m = (Inr a, r1) \<and> k a r1 = (Inr b, r')"
  by (auto simp: dbind_def split: prod.splits sum.splits)

lemma reading_SomeD: "reading m f = (Inr b, r') \<Longrightarrow> \<exists>a. m = (Some a, r') \<and> b = f a"
  by (auto simp: reading_def split: prod.splits option.splits)

text \<open>
  \<open>dout good r res\<close>: the reader moves as its operations promise, an error carries a UTF-8
  message (if the reader's own recorded message is one), and a value satisfies \<open>good\<close>.
\<close>

definition utf8_reader :: "reader \<Rightarrow> bool" where
  "utf8_reader r \<longleftrightarrow> valid_utf8 (message (rd_error r))"

definition dout :: "('a \<Rightarrow> bool) \<Rightarrow> reader \<Rightarrow> 'a reading \<Rightarrow> bool" where
  "dout good r res \<longleftrightarrow>
     moves r (snd res) \<and>
     (case fst res of Inl e \<Rightarrow> utf8_reader r \<longrightarrow> valid_utf8 (message e) | Inr a \<Rightarrow> good a)"

lemma utf8_reader_moves: "moves r r' \<Longrightarrow> utf8_reader r \<Longrightarrow> utf8_reader r'"
  by (simp add: utf8_reader_def moves_def)

lemma dout_simps [simp]:
  "dout good r (Inr a, r') \<longleftrightarrow> moves r r' \<and> good a"
  "dout good r (Inl e, r') \<longleftrightarrow> moves r r' \<and> (utf8_reader r \<longrightarrow> valid_utf8 (message e))"
  by (simp_all add: dout_def)

lemma dout_after: "moves r r1 \<Longrightarrow> dout good r1 res \<Longrightarrow> dout good r res"
  by (auto simp: dout_def intro: moves_trans utf8_reader_moves split: sum.splits)

lemma dout_reading: "outcome good r m \<Longrightarrow> (\<And>a. good a \<Longrightarrow> good' (f a)) \<Longrightarrow> dout good' r (reading m f)"
  by (cases m; cases "fst m") (auto simp: reading_def utf8_reader_def moves_def)

lemma dout_dbind:
  assumes "dout good r m" "\<And>a r1. good a \<Longrightarrow> dout good' r1 (k a r1)"
  shows "dout good' r (dbind m k)"
  using assms by (cases m; cases "fst m") (auto simp: dbind_def intro: dout_after)

definition finite_range :: "PriceRange \<Rightarrow> bool" where
  "finite_range p \<longleftrightarrow> is_finite (pr_start p) \<and> is_finite (pr_end p) \<and> is_finite (pr_step p)"

lemma arity_error_valid [simp]: "valid_utf8 (message price_range_arity_error)"
  by (rule ascii_valid) (simp add: price_range_arity_error_def)

lemma next_element_dout: "dout (\<lambda>_. True) r (reading (next_element r) id)"
  and begin_array_dout: "dout (\<lambda>_. True) r (reading (begin_array r) id)"
  by (auto intro: dout_reading next_element.run_outcome begin_array.run_outcome)

lemma read_bound_dout: "dout is_finite r (read_bound r)"
  unfolding read_bound_def
  by (rule dout_dbind [OF next_element_dout]) (auto intro!: dout_reading [OF read_double.run_outcome])

lemma read_bounds_dout: "dout finite_range r (read_bounds r)"
  unfolding read_bounds_def
  by (intro dout_dbind [OF read_bound_dout] dout_dbind [OF next_element_dout]) (auto simp: finite_range_def)

lemma read_price_range_dout: "dout finite_range r (read_price_range r)"
  unfolding read_price_range_def by (rule dout_dbind [OF begin_array_dout read_bounds_dout])

lemma dout_moves: "dout good r res \<Longrightarrow> moves r (snd res)"
  by (simp add: dout_def)

lemma read_price_range_progress:
  assumes "read_price_range r = (Inr p, r')"
  shows "rd_pos r < rd_pos r'"
proof -
  obtain u r1 where b: "begin_array r = (Some u, r1)" "read_bounds r1 = (Inr p, r')"
    using assms unfolding read_price_range_def by (auto dest!: dbind_SomeD reading_SomeD)
  have "rd_pos r1 \<le> rd_pos r'" using read_bounds_dout [of r1] b(2) by (simp add: moves_def)
  with begin_array_progress [OF b(1)] show ?thesis by simp
qed

lemma read_price_range_SomeD: "read_price_range r = (Inr p, r') \<Longrightarrow> moves r r' \<and> finite_range p \<and> rd_pos r < rd_pos r'"
  using read_price_range_dout [of r] read_price_range_progress [of r p r'] by simp

function read_ranges_loop :: "PriceRange list \<Rightarrow> reader \<Rightarrow> PriceRange list reading" where
  "read_ranges_loop ranges r =
     (case next_element r of
        (None, r1) \<Rightarrow> (Inl (rd_error r1), r1)
      | (Some has_entry, r1) \<Rightarrow>
          if \<not> has_entry then (Inr ranges, r1)
          else case read_price_range r1 of
                 (Inl e, r2) \<Rightarrow> (Inl e, r2)
               | (Inr rng, r2) \<Rightarrow> read_ranges_loop (ranges @ [rng]) r2)"
  by pat_completeness auto
termination
proof (relation "measure (\<lambda>(ranges, r). length (rd_text r) - rd_pos r)", goal_cases)
  case (2 ranges r x r1 a y r2 p)
  have "moves r r1" using next_element.run_SomeD 2 by metis
  moreover have "moves r1 r2" "rd_pos r1 < rd_pos r2"
    using read_price_range_SomeD 2 by metis+
  ultimately show ?case using moved_within [of r1 r2] by (auto simp: moves_def)
qed simp

declare read_ranges_loop.simps [simp del]

definition read_price_ranges :: "reader \<Rightarrow> PriceRange list reading" where
  "read_price_ranges r = dbind (reading (begin_array r) id) (\<lambda>_. read_ranges_loop [])"

definition read_direction :: "reader \<Rightarrow> Direction reading" where
  "read_direction r =
     dbind (reading (read_string r) id) (\<lambda>txt r1.
       if txt = ''yes'' then (Inr Yes, r1)
       else if txt = ''no'' then (Inr No, r1)
       else (Inl \<lparr>code = UnknownEnumValue, message = ''direction must be yes or no, got '' @ txt\<rparr>, r1))"

definition read_status :: "reader \<Rightarrow> WakeAckStatus reading" where
  "read_status r =
     dbind (reading (read_string r) id) (\<lambda>txt r1.
       if txt = ''accepted'' then (Inr Accepted, r1)
       else if txt = ''rejected'' then (Inr Rejected, r1)
       else (Inl \<lparr>code = UnknownEnumValue,
                 message = ''status must be accepted or rejected, got '' @ txt\<rparr>, r1))"

definition dmap :: "('a \<Rightarrow> 'b) \<Rightarrow> 'a reading \<Rightarrow> 'b reading" where
  "dmap f m = dbind m (\<lambda>a r. (Inr (f a), r))"

definition unexpected_field :: "string \<Rightarrow> DecodeError" where
  "unexpected_field key = \<lparr>code = UnknownField, message = ''unexpected field: '' @ key\<rparr>"

definition read_wake_field :: "string \<Rightarrow> WakeMessage \<Rightarrow> uint32 \<Rightarrow> reader \<Rightarrow> (WakeMessage \<times> uint32) reading" where
  "read_wake_field key m seen r =
     (if key = ''schema_version'' then
        reading (read_int r) (\<lambda>v. (m\<lparr>schema_version := v\<rparr>, seen OR kSchemaVersionBit))
      else if key = ''correlation_id'' then
        reading (read_string r) (\<lambda>v. (m\<lparr>correlation_id := v\<rparr>, seen OR kCorrelationIdBit))
      else if key = ''market_ticker'' then
        reading (read_string r) (\<lambda>v. (m\<lparr>market_ticker := v\<rparr>, seen OR kMarketTickerBit))
      else if key = ''asset'' then
        reading (read_string r) (\<lambda>v. (m\<lparr>asset := v\<rparr>, seen OR kAssetBit))
      else if key = ''direction'' then
        dmap (\<lambda>v. (m\<lparr>direction := v\<rparr>, seen OR kDirectionBit)) (read_direction r)
      else if key = ''kalshi_price'' then
        reading (read_double r) (\<lambda>v. (m\<lparr>kalshi_price := v\<rparr>, seen OR kKalshiPriceBit))
      else if key = ''model_probability'' then
        reading (read_double r) (\<lambda>v. (m\<lparr>model_probability := v\<rparr>, seen OR kModelProbabilityBit))
      else if key = ''fee'' then
        reading (read_double r) (\<lambda>v. (m\<lparr>fee := v\<rparr>, seen OR kFeeBit))
      else if key = ''edge'' then
        reading (read_double r) (\<lambda>v. (m\<lparr>edge := v\<rparr>, seen OR kEdgeBit))
      else if key = ''decision_ts_ms'' then
        reading (read_int r) (\<lambda>v. (m\<lparr>decision_ts_ms := v\<rparr>, seen OR kDecisionTsMsBit))
      else if key = ''sent_at_ms'' then
        reading (read_int r) (\<lambda>v. (m\<lparr>sent_at_ms := v\<rparr>, seen OR kSentAtMsBit))
      else if key = ''sent_at_ns'' then
        reading (read_int r) (\<lambda>v. (m\<lparr>sent_at_ns := v\<rparr>, seen OR kSentAtNsBit))
      else if key = ''recv_ns'' then
        reading (read_int r) (\<lambda>v. (m\<lparr>recv_ns := v\<rparr>, seen))
      else if key = ''clock_domain'' then
        reading (read_string r) (\<lambda>v. (m\<lparr>clock_domain := v\<rparr>, seen))
      else if key = ''dry_run'' then
        reading (read_bool r) (\<lambda>v. (m\<lparr>dry_run := v\<rparr>, seen))
      else if key = ''wire_price_yes_dollars'' then
        reading (read_double r) (\<lambda>v. (m\<lparr>wire_price_yes_dollars := v\<rparr>, seen))
      else if key = ''exchange_index'' then
        reading (read_int r) (\<lambda>v. (m\<lparr>exchange_index := v\<rparr>, seen))
      else if key = ''available_size_contracts'' then
        reading (read_double r) (\<lambda>v. (m\<lparr>available_size_contracts := v\<rparr>, seen))
      else if key = ''price_ranges'' then
        dmap (\<lambda>v. (m\<lparr>price_ranges := v\<rparr>, seen)) (read_price_ranges r)
      else if key = ''correlation_group'' then
        reading (read_string r) (\<lambda>v. (m\<lparr>correlation_group := v\<rparr>, seen))
      else (Inl (unexpected_field key), r))"

definition read_ack_field :: "string \<Rightarrow> WakeAck \<Rightarrow> uint32 \<Rightarrow> reader \<Rightarrow> (WakeAck \<times> uint32) reading" where
  "read_ack_field key a seen r =
     (if key = ''schema_version'' then
        reading (read_int r) (\<lambda>v. (a\<lparr>ack_schema_version := v\<rparr>, seen OR kSchemaVersionBit))
      else if key = ''correlation_id'' then
        reading (read_string r) (\<lambda>v. (a\<lparr>ack_correlation_id := v\<rparr>, seen OR kCorrelationIdBit))
      else if key = ''received_at_ms'' then
        reading (read_int r) (\<lambda>v. (a\<lparr>ack_received_at_ms := v\<rparr>, seen OR kReceivedAtMsBit))
      else if key = ''status'' then
        dmap (\<lambda>v. (a\<lparr>ack_status := v\<rparr>, seen OR kStatusBit)) (read_status r)
      else if key = ''reason'' then
        (case at_null r of
           (True, r1) \<Rightarrow> reading (read_null r1) (\<lambda>_. (a\<lparr>ack_reason := None\<rparr>, seen))
         | (False, r1) \<Rightarrow> reading (read_string r1) (\<lambda>v. (a\<lparr>ack_reason := Some v\<rparr>, seen)))
      else (Inl (unexpected_field key), r))"

section \<open>What a decoded message satisfies\<close>

definition wf_message :: "WakeMessage \<Rightarrow> bool" where
  "wf_message m \<longleftrightarrow>
     (\<forall>s \<in> {correlation_id m, market_ticker m, asset m, clock_domain m, correlation_group m}. valid_utf8 s) \<and>
     (\<forall>d \<in> {kalshi_price m, model_probability m, fee m, edge m, wire_price_yes_dollars m,
        available_size_contracts m}. is_finite d) \<and>
     (\<forall>p \<in> set (price_ranges m). finite_range p)"

definition wf_ack :: "WakeAck \<Rightarrow> bool" where
  "wf_ack a \<longleftrightarrow> valid_utf8 (ack_correlation_id a) \<and> (\<forall>s. ack_reason a = Some s \<longrightarrow> valid_utf8 s)"

lemma dout_weaken: "dout good r res \<Longrightarrow> (\<And>a. good a \<Longrightarrow> good' a) \<Longrightarrow> dout good' r res"
  by (auto simp: dout_def split: sum.splits)

lemma dout_dmap: "dout good r m \<Longrightarrow> (\<And>a. good a \<Longrightarrow> good' (f a)) \<Longrightarrow> dout good' r (dmap f m)"
  unfolding dmap_def by (erule dout_dbind) simp

lemma read_ranges_loop_dout:
  "(\<forall>p \<in> set ranges. finite_range p) \<Longrightarrow>
     dout (\<lambda>ranges. \<forall>p \<in> set ranges. finite_range p) r (read_ranges_loop ranges r)"
proof (induction ranges r rule: read_ranges_loop.induct)
  case (1 ranges r)
  obtain x r1 where n: "next_element r = (x, r1)" by fastforce
  show ?case
  proof (cases x)
    case None
    with n show ?thesis
      using next_element.run_NoneD [of r r1] utf8_reader_moves [of r r1]
      by (simp add: read_ranges_loop.simps [of ranges r] utf8_reader_def)
  next
    case (Some has)
    have m: "moves r r1" using n Some next_element.run_SomeD by blast
    obtain y r2 where y: "read_price_range r1 = (y, r2)" by fastforce
    have d: "dout finite_range r1 (y, r2)" using read_price_range_dout [of r1] y by simp
    show ?thesis
    proof (cases "has \<and> (\<exists>p. y = Inr p)")
      case True
      then obtain p where p: "y = Inr p" "has" by auto
      have "dout (\<lambda>ranges. \<forall>p \<in> set ranges. finite_range p) r2 (read_ranges_loop (ranges @ [p]) r2)"
        by (rule "1.IH" [OF n [symmetric] Some]) (use p y d 1(2) in auto)
      then have "dout (\<lambda>ranges. \<forall>p \<in> set ranges. finite_range p) r (read_ranges_loop (ranges @ [p]) r2)"
        using m d p by (auto intro: dout_after moves_trans)
      with n Some p y show ?thesis by (simp add: read_ranges_loop.simps [of ranges r])
    next
      case False
      then show ?thesis
        using n Some y d m 1(2) utf8_reader_moves [OF m]
        by (cases y) (auto simp: read_ranges_loop.simps [of ranges r] intro: moves_trans)
    qed
  qed
qed

lemma read_price_ranges_dout: "dout (\<lambda>ranges. \<forall>p \<in> set ranges. finite_range p) r (read_price_ranges r)"
  unfolding read_price_ranges_def by (rule dout_dbind [OF begin_array_dout read_ranges_loop_dout]) simp

lemma read_string_dout: "dout valid_utf8 r (reading (read_string r) id)"
  by (rule dout_reading [OF read_string.run_outcome]) simp

lemma read_direction_dout: "dout (\<lambda>_. True) r (read_direction r)"
  unfolding read_direction_def
  by (rule dout_dbind [OF read_string_dout]) (auto intro!: valid_utf8_asciiI [where s = "''direction must be yes or no, got ''", simplified])


lemma read_status_dout: "dout (\<lambda>_. True) r (read_status r)"
  unfolding read_status_def
  by (rule dout_dbind [OF read_string_dout])
    (auto intro!: valid_utf8_asciiI [where s = "''status must be accepted or rejected, got ''", simplified])

lemma unexpected_field_valid: "valid_utf8 key \<Longrightarrow> valid_utf8 (message (unexpected_field key))"
  using valid_utf8_asciiI [of "''unexpected field: ''" key] by (simp add: unexpected_field_def)

lemma dout_if: "(c \<Longrightarrow> dout good r a) \<Longrightarrow> (\<not> c \<Longrightarrow> dout good r b) \<Longrightarrow> dout good r (if c then a else b)"
  by simp

definition wake_bit :: "string \<Rightarrow> uint32" where
  "wake_bit key = (case map_of (map (\<lambda>(b, n). (n, b)) kWakeMessageRequired) key of None \<Rightarrow> 0 | Some b \<Rightarrow> b)"

definition ack_bit :: "string \<Rightarrow> uint32" where
  "ack_bit key = (case map_of (map (\<lambda>(b, n). (n, b)) kWakeAckRequired) key of None \<Rightarrow> 0 | Some b \<Rightarrow> b)"

lemma read_wake_field_dout:
  assumes "wf_message m" "valid_utf8 key"
  shows "dout (\<lambda>(m', seen'). wf_message m' \<and> seen' = seen OR wake_bit key) r (read_wake_field key m seen r)"
  unfolding read_wake_field_def
  apply (intro dout_if dout_reading [OF read_int.run_outcome] dout_reading [OF read_string.run_outcome]
      dout_reading [OF read_double.run_outcome] dout_reading [OF read_bool.run_outcome]
      dout_dmap [OF read_direction_dout] dout_dmap [OF read_price_ranges_dout])
  using assms unexpected_field_valid [OF assms(2)]
  by (simp_all add: wf_message_def wake_bit_def kWakeMessageRequired_def)

lemma read_ack_field_dout:
  assumes "wf_ack a" "valid_utf8 key"
  shows "dout (\<lambda>(a', seen'). wf_ack a' \<and> seen' = seen OR ack_bit key) r (read_ack_field key a seen r)"
proof -
  obtain b r1 where n: "at_null r = (b, r1)" by fastforce
  then have "moves r r1" using at_null_moves by blast
  then show ?thesis
    unfolding read_ack_field_def n prod.case
    apply (intro dout_if dout_reading [OF read_int.run_outcome] dout_reading [OF read_string.run_outcome]
      dout_dmap [OF read_status_dout])
    using assms unexpected_field_valid [OF assms(2)]
    by (auto simp: wf_ack_def ack_bit_def kWakeAckRequired_def split: bool.splits
        intro!: dout_after [OF \<open>moves r r1\<close>] dout_reading [OF read_null.run_outcome] dout_reading [OF read_string.run_outcome])
qed

section \<open>The member loops\<close>

lemma snd_reading [simp]: "snd (reading m f) = snd m"
  by (auto simp: reading_def split: prod.splits option.splits)

lemma snd_dmap [simp]: "snd (dmap f m) = snd m"
  by (auto simp: dmap_def dbind_def split: prod.splits sum.splits)

lemmas reader_moves = read_int.run_outcome read_string.run_outcome read_double.run_outcome
  read_bool.run_outcome read_null.run_outcome

lemma outcome_moves: "outcome good r res \<Longrightarrow> moves r (snd res)"
  by (simp add: outcome_def)

lemma read_wake_field_moves: "moves r (snd (read_wake_field key m seen r))"
  unfolding read_wake_field_def
  by (simp add: reader_moves [THEN outcome_moves] dout_moves [OF read_direction_dout]
      dout_moves [OF read_price_ranges_dout])

lemma read_ack_field_moves: "moves r (snd (read_ack_field key a seen r))"
proof -
  obtain b r1 where n: "at_null r = (b, r1)" by fastforce
  then have "moves r r1" using at_null_moves by blast
  then have "moves r (snd (read_null r1))" "moves r (snd (read_string r1))"
    using moves_trans reader_moves [THEN outcome_moves] by blast+
  then show ?thesis
    unfolding read_ack_field_def n
    by (simp add: reader_moves [THEN outcome_moves] dout_moves [OF read_status_dout] split: bool.splits)
qed

lemma member_step_shorter:
  assumes "next_member r = (Some (Some key), r1)" "moves r1 r2"
  shows "length (rd_text r2) - rd_pos r2 < length (rd_text r) - rd_pos r"
proof -
  have "moves r r1" using assms(1) next_member.run_SomeD by blast
  moreover from this have "rd_pos r < length (rd_text r)"
    using moved_within next_member_progress [OF assms(1)] by blast
  ultimately show ?thesis
    using reader_shorter [of r r2] moves_trans [OF _ assms(2)] next_member_progress [OF assms(1)] moves_pos [OF assms(2)]
    by fastforce
qed

function wake_members :: "WakeMessage \<Rightarrow> uint32 \<Rightarrow> reader \<Rightarrow> (WakeMessage \<times> uint32) reading" where
  "wake_members m seen r =
     (case next_member r of
        (None, r1) \<Rightarrow> (Inl (rd_error r1), r1)
      | (Some None, r1) \<Rightarrow> (Inr (m, seen), r1)
      | (Some (Some key), r1) \<Rightarrow>
          (case read_wake_field key m seen r1 of
             (Inl failure, r2) \<Rightarrow> (Inl failure, r2)
           | (Inr (m1, seen1), r2) \<Rightarrow> wake_members m1 seen1 r2))"
  by pat_completeness auto
termination
proof (relation "measure (\<lambda>(m, seen, r). length (rd_text r) - rd_pos r)", goal_cases)
  case (2 m seen r x r1 y key z r2 v m1 seen1)
  then have "moves r1 r2" using read_wake_field_moves [of r1 key m seen] by (metis snd_conv)
  with 2 show ?case by (auto intro: member_step_shorter [OF sym])
qed simp

function ack_members :: "WakeAck \<Rightarrow> uint32 \<Rightarrow> reader \<Rightarrow> (WakeAck \<times> uint32) reading" where
  "ack_members a seen r =
     (case next_member r of
        (None, r1) \<Rightarrow> (Inl (rd_error r1), r1)
      | (Some None, r1) \<Rightarrow> (Inr (a, seen), r1)
      | (Some (Some key), r1) \<Rightarrow>
          (case read_ack_field key a seen r1 of
             (Inl failure, r2) \<Rightarrow> (Inl failure, r2)
           | (Inr (a1, seen1), r2) \<Rightarrow> ack_members a1 seen1 r2))"
  by pat_completeness auto
termination
proof (relation "measure (\<lambda>(a, seen, r). length (rd_text r) - rd_pos r)", goal_cases)
  case (2 m seen r x r1 y key z r2 v m1 seen1)
  then have "moves r1 r2" using read_ack_field_moves [of r1 key m seen] by (metis snd_conv)
  with 2 show ?case by (auto intro: member_step_shorter [OF sym])
qed simp

declare wake_members.simps [simp del] ack_members.simps [simp del]

definition reader_failure :: "reader \<Rightarrow> 'a Decoded" where
  "reader_failure r = decode_fail (code (rd_error r)) (message (rd_error r))"

definition decode_wake_message :: "byte list \<Rightarrow> WakeMessage Decoded" where
  "decode_wake_message body =
     (case begin_object (Reader (text_of body)) of
        (None, r) \<Rightarrow> reader_failure r
      | (Some _, r) \<Rightarrow>
          (case wake_members default_WakeMessage 0 r of
             (Inl failure, _) \<Rightarrow> decode_fail (code failure) (message failure)
           | (Inr (m, seen), r1) \<Rightarrow>
               (case at_document_end r1 of
                  (None, r2) \<Rightarrow> reader_failure r2
                | (Some _, _) \<Rightarrow>
                    if seen AND kWakeMessageRequiredMask \<noteq> kWakeMessageRequiredMask
                    then missing_field seen kWakeMessageRequired
                    else Inr m)))"

definition decode_wake_ack :: "byte list \<Rightarrow> WakeAck Decoded" where
  "decode_wake_ack body =
     (case begin_object (Reader (text_of body)) of
        (None, r) \<Rightarrow> reader_failure r
      | (Some _, r) \<Rightarrow>
          (case ack_members default_WakeAck 0 r of
             (Inl failure, _) \<Rightarrow> decode_fail (code failure) (message failure)
           | (Inr (a, seen), r1) \<Rightarrow>
               (case at_document_end r1 of
                  (None, r2) \<Rightarrow> reader_failure r2
                | (Some _, _) \<Rightarrow>
                    if seen AND kWakeAckRequiredMask \<noteq> kWakeAckRequiredMask
                    then missing_field seen kWakeAckRequired
                    else Inr a)))"

section \<open>The contract of a member loop\<close>

text \<open>
  \<open>members field m seen r keys m' seen' r'\<close>: reading members from \<open>r\<close> to the closing brace
  meets the keys \<open>keys\<close> in this order and takes the message and the bits from \<open>m\<close>, \<open>seen\<close>
  to \<open>m'\<close>, \<open>seen'\<close>.
\<close>

inductive members ::
  "(string \<Rightarrow> 'm \<Rightarrow> uint32 \<Rightarrow> reader \<Rightarrow> ('m \<times> uint32) reading) \<Rightarrow> 'm \<Rightarrow> uint32 \<Rightarrow> reader \<Rightarrow>
     string list \<Rightarrow> 'm \<Rightarrow> uint32 \<Rightarrow> reader \<Rightarrow> bool"
  for field where
  members_end: "next_member r = (Some None, r') \<Longrightarrow> members field m seen r [] m seen r'"
| members_step:
    "next_member r = (Some (Some key), r1) \<Longrightarrow> field key m seen r1 = (Inr (m1, seen1), r2) \<Longrightarrow>
       members field m1 seen1 r2 keys m' seen' r' \<Longrightarrow> members field m seen r (key # keys) m' seen' r'"

text \<open>A member as the encoder writes it: its key, the text of its value and what it does.\<close>

type_synonym 'm member = "string \<times> string \<times> ('m \<Rightarrow> 'm)"

fun members_text :: "bool \<Rightarrow> 'm member list \<Rightarrow> string" where
  "members_text first [] = [CHR 0x7D]"
| "members_text first ((key, val, upd) # ms) =
     sep_text first @ json_string key @ CHR '':'' # val @ members_text False ms"

locale member_loop =
  fixes field :: "string \<Rightarrow> 'm \<Rightarrow> uint32 \<Rightarrow> reader \<Rightarrow> ('m \<times> uint32) reading"
    and run :: "'m \<Rightarrow> uint32 \<Rightarrow> reader \<Rightarrow> ('m \<times> uint32) reading"
    and good :: "'m \<Rightarrow> bool"
    and bit_of :: "string \<Rightarrow> uint32"
  assumes run_eq: "run m seen r =
     (case next_member r of
        (None, r1) \<Rightarrow> (Inl (rd_error r1), r1)
      | (Some None, r1) \<Rightarrow> (Inr (m, seen), r1)
      | (Some (Some key), r1) \<Rightarrow>
          (case field key m seen r1 of
             (Inl failure, r2) \<Rightarrow> (Inl failure, r2)
           | (Inr (m1, seen1), r2) \<Rightarrow> run m1 seen1 r2))"
    and field_moves: "moves r (snd (field key m seen r))"
    and field_dout: "good m \<Longrightarrow> valid_utf8 key \<Longrightarrow>
      dout (\<lambda>(m', seen'). good m' \<and> seen' = seen OR bit_of key) r (field key m seen r)"
begin

lemma run_dout: "good m \<Longrightarrow> dout (\<lambda>(m', seen'). good m') r (run m seen r)"
proof (induction "length (rd_text r) - rd_pos r" arbitrary: m seen r rule: less_induct)
  case less
  obtain x r1 where n: "next_member r = (x, r1)" by fastforce
  consider "x = None" | "x = Some None" | key where "x = Some (Some key)" by (cases x) auto
  then show ?case
  proof cases
    case 1
    with n show ?thesis
      using next_member.run_NoneD [of r r1] utf8_reader_moves [of r r1]
      by (simp add: run_eq [of m seen r] utf8_reader_def)
  next
    case 2
    with n less.prems show ?thesis using next_member.run_SomeD [of r None r1] by (simp add: run_eq [of m seen r])
  next
    case (3 key)
    then have m1: "moves r r1" and k: "valid_utf8 key" using n next_member.run_SomeD by blast+
    obtain y r2 where y: "field key m seen r1 = (y, r2)" by fastforce
    have d: "dout (\<lambda>(m', seen'). good m' \<and> seen' = seen OR bit_of key) r1 (y, r2)"
      using field_dout [OF less.prems k, of seen r1] y by simp
    show ?thesis
    proof (cases y)
      case (Inl e)
      with d n 3 y show ?thesis
        using m1 utf8_reader_moves [OF m1] by (auto simp: run_eq [of m seen r] intro: moves_trans)
    next
      case (Inr v)
      obtain m' seen' where v: "v = (m', seen')" by fastforce
      have "moves r r2" "moves r1 r2" "good m'" using d Inr v m1 by (auto intro: moves_trans)
      then have "dout (\<lambda>(m', seen'). good m') r (run m' seen' r2)"
        using less.hyps [OF member_step_shorter [OF n [unfolded 3]]] by (blast intro: dout_after)
      with n 3 y Inr v show ?thesis by (simp add: run_eq [of m seen r])
    qed
  qed
qed

lemma run_members:
  "run m seen r = (Inr (m', seen'), r') \<Longrightarrow> \<exists>keys. members field m seen r keys m' seen' r'"
proof (induction "length (rd_text r) - rd_pos r" arbitrary: m seen r rule: less_induct)
  case less
  obtain x r1 where n: "next_member r = (x, r1)" by fastforce
  consider "x = None" | "x = Some None" | key where "x = Some (Some key)" by (cases x) auto
  then show ?case
  proof cases
    case 1
    with n less.prems show ?thesis by (simp add: run_eq [of m seen r])
  next
    case 2
    with n less.prems show ?thesis by (auto simp: run_eq [of m seen r] intro: members_end)
  next
    case (3 key)
    with n less.prems obtain m1 seen1 r2 where s: "field key m seen r1 = (Inr (m1, seen1), r2)"
        "run m1 seen1 r2 = (Inr (m', seen'), r')"
      by (auto simp: run_eq [of m seen r] split: prod.splits sum.splits)
    have "moves r1 r2" using field_moves [of r1 key m seen] s(1) by simp
    then show ?thesis
      using less.hyps [OF member_step_shorter [OF n [unfolded 3]] s(2)] members_step [where field = field, OF n [unfolded 3] s(1)] by blast
  qed
qed

lemma members_run:
  "members field m seen r keys m' seen' r' \<Longrightarrow> run m seen r = (Inr (m', seen'), r')"
  by (induction rule: members.induct) (simp_all add: run_eq [of _ _ r for r])

lemma members_seen:
  "members field m seen r keys m' seen' r' \<Longrightarrow> good m \<Longrightarrow>
     good m' \<and> seen' = fold (\<lambda>key s. s OR bit_of key) keys seen"
proof (induction rule: members.induct)
  case (members_step r key r1 m seen m1 seen1 r2 keys m' seen' r')
  have "valid_utf8 key" using members_step(1) next_member.run_SomeD by blast
  then have "good m1 \<and> seen1 = seen OR bit_of key"
    using field_dout [OF members_step.prems, of key seen r1] members_step(2) by simp
  with members_step.IH show ?case by simp
qed simp

text \<open>
  If each member's value text is read by the field reader as its update, the loop reads the
  whole object and applies the updates in order.
\<close>

lemma run_text:
  assumes "\<And>key val upd. (key, val, upd) \<in> set ms \<Longrightarrow> valid_utf8 key"
    and "\<And>key val upd m seen r bs c t. (key, val, upd) \<in> set ms \<Longrightarrow> stands r bs (val @ c # t) \<Longrightarrow>
        length bs < 4 \<Longrightarrow> c \<in> {CHR '','', CHR 0x7D} \<Longrightarrow>
        \<exists>r'. field key m seen r = (Inr (upd m, seen OR bit_of key), r') \<and> stands r' bs (c # t)"
    and "stands r (b # bs) (members_text b ms @ t)" "length bs < 3"
  shows "\<exists>r'. run m seen r = (Inr (fold (\<lambda>mem. snd (snd mem)) ms m,
      fold (\<lambda>mem s. s OR bit_of (fst mem)) ms seen), r') \<and> stands r' bs t"
  using assms
proof (induction ms arbitrary: b m seen r)
  case Nil
  then show ?case using next_member_end [of r b bs t] by (auto simp: run_eq [of m seen r])
next
  case (Cons mem ms)
  obtain key val upd where mem: "mem = (key, val, upd)" by (cases mem)
  obtain c u where c: "members_text False ms @ t = c # u" "c \<in> {CHR '','', CHR 0x7D}"
    by (cases ms) (auto simp: sep_text_def)
  have "stands r (b # bs) (sep_text b @ json_string key @ CHR '':'' # val @ c # u)"
    using Cons.prems(3) c(1) by (simp add: mem)
  then obtain r1 where r1: "next_member r = (Some (Some key), r1)" "stands r1 (False # bs) (val @ c # u)"
    using next_member_stands [of r b bs key "val @ c # u"] Cons.prems(1) [of key val upd] mem by auto
  have "(key, val, upd) \<in> set (mem # ms)" "length (False # bs) < 4" using mem Cons.prems(4) by simp_all
  then obtain r2 where r2: "field key m seen r1 = (Inr (upd m, seen OR bit_of key), r2)" "stands r2 (False # bs) (c # u)"
    using Cons.prems(2) [OF _ r1(2) _ c(2)] by blast
  have "run m seen r = run (upd m) (seen OR bit_of key) r2"
    by (simp add: run_eq [of m seen r] r1(1) r2(1))
  moreover have "\<exists>r'. run (upd m) (seen OR bit_of key) r2 = (Inr (fold (\<lambda>mem. snd (snd mem)) ms (upd m),
      fold (\<lambda>mem s. s OR bit_of (fst mem)) ms (seen OR bit_of key)), r') \<and> stands r' bs t"
  proof (rule Cons.IH)
    show "valid_utf8 k" if "(k, v, u) \<in> set ms" for k v u
      using Cons.prems(1) [of k v u] that by simp
    show "\<exists>r'. field k m seen r = (Inr (u m, seen OR bit_of k), r') \<and> stands r' bs (c # t)"
      if "(k, v, u) \<in> set ms" "stands r bs (v @ c # t)" "length bs < 4" "c \<in> {CHR '','', CHR 0x7D}"
      for k v u m seen r bs c t
      using Cons.prems(2) [of k v u r bs c t m seen] that by simp
    show "stands r2 (False # bs) (members_text False ms @ t)" using r2(2) c(1) by simp
    show "length bs < 3" by (rule Cons.prems(4))
  qed
  ultimately show ?case by (simp add: mem)
qed

end

interpretation wake: member_loop read_wake_field wake_members wf_message wake_bit
  by unfold_locales (auto intro: wake_members.simps read_wake_field_moves read_wake_field_dout)

interpretation ack: member_loop read_ack_field ack_members wf_ack ack_bit
  by unfold_locales (auto intro: ack_members.simps read_ack_field_moves read_ack_field_dout)

end
