(* ===== verification/Protocol_Roundtrip.thy ===== *)
theory Protocol_Roundtrip
  imports Protocol
begin

text \<open>
  What the two encoders write, as text, and that the two decoders read it back: the text of a
  frame's members, the length prefix, and the round trip of every field, of \<open>WakeMessage\<close> and
  of \<open>WakeAck\<close>.
\<close>

section \<open>The text of a frame\<close>

text \<open>The list of price ranges as the encoder lays it out, after its opening bracket.\<close>

fun ranges_text :: "bool \<Rightarrow> PriceRange list \<Rightarrow> string" where
  "ranges_text first [] = [CHR 0x5D]"
| "ranges_text first (p # ps) =
     sep_text first @ CHR 0x5B # format_double (pr_start p) @ CHR '','' # format_double (pr_end p)
       @ CHR '','' # format_double (pr_step p) @ CHR 0x5D # ranges_text False ps"

lemma append_price_ranges:
  "push_char (snd (foldl append_price_range (first, out) ps)) CHR 0x5D = out @ map as_byte (ranges_text first ps)"
proof (induction ps arbitrary: first out)
  case (Cons p ps)
  have "append_price_range (first, out) p = (False, out @ map as_byte (sep_text first @ CHR 0x5B # format_double (pr_start p)
      @ CHR '','' # format_double (pr_end p) @ CHR '','' # format_double (pr_step p) @ [CHR 0x5D]))"
    by (simp add: append_price_range_def Let_def push_char_def sep_text_def append_double_def append_text_def)
  with Cons show ?case by simp
qed (simp add: push_char_def)

definition message_members :: "WakeMessage \<Rightarrow> WakeMessage member list" where
  "message_members m =
     [(''schema_version'', to_chars_int (sint (schema_version m)), schema_version_update (\<lambda>_. schema_version m)),
      (''correlation_id'', json_string (correlation_id m), correlation_id_update (\<lambda>_. correlation_id m)),
      (''market_ticker'', json_string (market_ticker m), market_ticker_update (\<lambda>_. market_ticker m)),
      (''asset'', json_string (asset m), asset_update (\<lambda>_. asset m)),
      (''direction'', json_string (name_of_direction (direction m)), direction_update (\<lambda>_. direction m)),
      (''kalshi_price'', format_double (kalshi_price m), kalshi_price_update (\<lambda>_. kalshi_price m)),
      (''model_probability'', format_double (model_probability m), model_probability_update (\<lambda>_. model_probability m)),
      (''fee'', format_double (fee m), fee_update (\<lambda>_. fee m)),
      (''edge'', format_double (edge m), edge_update (\<lambda>_. edge m)),
      (''decision_ts_ms'', to_chars_int (sint (decision_ts_ms m)), decision_ts_ms_update (\<lambda>_. decision_ts_ms m)),
      (''sent_at_ms'', to_chars_int (sint (sent_at_ms m)), sent_at_ms_update (\<lambda>_. sent_at_ms m)),
      (''sent_at_ns'', to_chars_int (sint (sent_at_ns m)), sent_at_ns_update (\<lambda>_. sent_at_ns m)),
      (''recv_ns'', to_chars_int (sint (recv_ns m)), recv_ns_update (\<lambda>_. recv_ns m)),
      (''clock_domain'', json_string (clock_domain m), clock_domain_update (\<lambda>_. clock_domain m)),
      (''dry_run'', bool_text (dry_run m), dry_run_update (\<lambda>_. dry_run m)),
      (''wire_price_yes_dollars'', format_double (wire_price_yes_dollars m),
         wire_price_yes_dollars_update (\<lambda>_. wire_price_yes_dollars m)),
      (''exchange_index'', to_chars_int (sint (exchange_index m)), exchange_index_update (\<lambda>_. exchange_index m)),
      (''available_size_contracts'', format_double (available_size_contracts m),
         available_size_contracts_update (\<lambda>_. available_size_contracts m)),
      (''price_ranges'', CHR 0x5B # ranges_text True (price_ranges m), price_ranges_update (\<lambda>_. price_ranges m)),
      (''correlation_group'', json_string (correlation_group m), correlation_group_update (\<lambda>_. correlation_group m))]"

definition message_text :: "WakeMessage \<Rightarrow> string" where
  "message_text m = CHR 0x7B # members_text True (message_members m)"

definition ack_members_of :: "WakeAck \<Rightarrow> WakeAck member list" where
  "ack_members_of a =
     [(''schema_version'', to_chars_int (sint (ack_schema_version a)), ack_schema_version_update (\<lambda>_. ack_schema_version a)),
      (''correlation_id'', json_string (ack_correlation_id a), ack_correlation_id_update (\<lambda>_. ack_correlation_id a)),
      (''received_at_ms'', to_chars_int (sint (ack_received_at_ms a)), ack_received_at_ms_update (\<lambda>_. ack_received_at_ms a)),
      (''status'', json_string (name_of_status (ack_status a)), ack_status_update (\<lambda>_. ack_status a)),
      (''reason'', (case ack_reason a of None \<Rightarrow> ''null'' | Some s \<Rightarrow> json_string s), ack_reason_update (\<lambda>_. ack_reason a))]"

definition ack_text :: "WakeAck \<Rightarrow> string" where
  "ack_text a = CHR 0x7B # members_text True (ack_members_of a)"

definition plain_name :: "string \<Rightarrow> bool" where
  "plain_name s \<longleftrightarrow> list_all (\<lambda>c. c \<noteq> CHR 0x22 \<and> c \<noteq> CHR 0x5C \<and> 0x20 \<le> ucode c \<and> ucode c < 128) s"

lemma json_string_name: "plain_name s \<Longrightarrow> json_string s = CHR 0x22 # s @ [CHR 0x22]"
proof -
  assume "plain_name s"
  then have "map escape_char s = map (\<lambda>c. [c]) s"
    by (intro map_cong refl escape_char_plain) (auto simp: plain_name_def list_all_iff)
  then show ?thesis by (simp only: json_string_def concat_map_singleton map_ident)
qed

lemma plain_name_valid: "plain_name s \<Longrightarrow> valid_utf8 s"
  by (rule ascii_valid) (auto simp: plain_name_def list_all_iff ascii_def)

lemma message_members_plain: "(key, val, upd) \<in> set (message_members m) \<Longrightarrow> plain_name key"
  unfolding message_members_def by (auto simp: plain_name_def)

lemma ack_members_plain: "(key, val, upd) \<in> set (ack_members_of a) \<Longrightarrow> plain_name key"
  unfolding ack_members_of_def by (auto simp: plain_name_def)

lemma encode_message_eq:
  "encode_frame_into_message m out = write_length_prefix (replicate kFrameLengthBytes 0 @ map as_byte (message_text m))"
  unfolding encode_frame_into_message_def Let_def append_defs prod.case_eq_if append_price_ranges
  by (simp add: message_text_def message_members_def key_text_def sep_text_def bool_text_def push_char_def
      json_string_name plain_name_def)

lemma encode_ack_eq:
  "encode_frame_into_ack a out = write_length_prefix (replicate kFrameLengthBytes 0 @ map as_byte (ack_text a))"
  unfolding encode_frame_into_ack_def Let_def append_defs
  by (simp add: ack_text_def ack_members_of_def key_text_def sep_text_def push_char_def json_string_name plain_name_def
      split: option.splits)

section \<open>The length prefix\<close>

definition prefix_bytes :: "uint32 \<Rightarrow> byte list" where
  "prefix_bytes len = [ucast (drop_bit 24 len AND 0xFF), ucast (drop_bit 16 len AND 0xFF),
     ucast (drop_bit 8 len AND 0xFF), ucast (len AND 0xFF)]"

lemma write_length_prefix_eq:
  "write_length_prefix (replicate kFrameLengthBytes 0 @ body) = prefix_bytes (word_of_nat (length body)) @ body"
  by (simp add: write_length_prefix_def prefix_bytes_def kFrameLengthBytes_def numeral_eq_Suc Let_def)

lemma fold_prefix_bytes: "foldl (\<lambda>len b. push_bit 8 len OR ucast b) 0 (prefix_bytes w) = (w :: uint32)"
proof (rule bit_word_eqI)
  fix n
  assume "n < LENGTH(32)"
  then have n: "n < 32" by simp
  have ff: "(0xFF :: uint32) = mask 8" by (simp add: mask_eq_exp_minus_1)
  consider "n < 8" | "8 \<le> n" "n < 16" | "16 \<le> n" "n < 24" | "24 \<le> n" using n by linarith
  then show "bit (foldl (\<lambda>len b. push_bit 8 len OR ucast b) 0 (prefix_bytes w) :: uint32) n \<longleftrightarrow> bit w n"
    unfolding prefix_bytes_def ff using n
    by cases (auto simp: bit_simps less_diff_conv2)
qed


lemma length_prefix_bytes [simp]: "length (prefix_bytes w) = kFrameLengthBytes"
  by (simp add: prefix_bytes_def kFrameLengthBytes_def)

lemma decode_frame_length_prefix:
  "decode_frame_length (prefix_bytes w) =
     (if w > kMaxFrameBytes then
        decode_fail FrameTooLarge
          (''frame length '' @ nat_digits (unat w) @ '' exceeds max '' @ nat_digits (unat kMaxFrameBytes))
      else Inr w)"
  by (simp add: decode_frame_length_def fold_prefix_bytes)

section \<open>Reading a frame's text back\<close>

lemma number_end_delim: "c \<in> {CHR '','', CHR 0x7D, CHR 0x5D} \<Longrightarrow> number_end (c # t)"
  by (auto simp: number_end_def is_dec_def)

lemma format_double_hd:
  assumes "is_finite d"
  shows "\<exists>c u. format_double d = c # u \<and> c \<noteq> CHR 0x5D \<and> c \<noteq> CHR 0x7D \<and> \<not> is_space c"
proof -
  obtain ip fp ex where "number_ok ip fp ex" "format_double d = number_text (negative d) ip fp ex"
    using format_double_shape [OF assms] by blast
  then show ?thesis
    by (cases ip) (auto simp: number_text_def number_ok_def digit_run_def is_dec_def is_space_def)
qed

lemma read_bound_stands:
  assumes "is_finite d" "stands r (b # bs) (sep_text b @ format_double d @ c # t)" "c \<in> {CHR '','', CHR 0x5D}"
  shows "\<exists>r'. read_bound r = (Inr d, r') \<and> stands r' (False # bs) (c # t)"
proof -
  obtain x u where x: "format_double d = x # u" "x \<noteq> CHR 0x5D" "x \<noteq> CHR 0x7D" "\<not> is_space x"
    using format_double_hd [OF assms(1)] by blast
  then obtain r1 where r1: "next_element r = (Some True, r1)" "stands r1 (False # bs) (format_double d @ c # t)"
    using next_element_stands [of r b bs x "u @ c # t"] assms(2) by auto
  have "number_end (c # t)" using assms(3) by (intro number_end_delim) auto
  then obtain r2 where "read_double r1 = (Some d, r2)" "stands r2 (False # bs) (c # t)"
    using read_double_stands [OF assms(1) r1(2)] by blast
  with r1 show ?thesis by (auto simp: read_bound_def reading_def dbind_def)
qed

lemma read_price_range_stands:
  assumes "finite_range p" "length bs < kMaxDepth"
    "stands r bs (CHR 0x5B # format_double (pr_start p) @ CHR '','' # format_double (pr_end p)
       @ CHR '','' # format_double (pr_step p) @ CHR 0x5D # t)"
  shows "\<exists>r'. read_price_range r = (Inr p, r') \<and> stands r' bs t"
proof -
  have f: "is_finite (pr_start p)" "is_finite (pr_end p)" "is_finite (pr_step p)"
    using assms(1) by (simp_all add: finite_range_def)
  obtain r1 where r1: "begin_array r = (Some (), r1)" "stands r1 (True # bs) (format_double (pr_start p)
      @ CHR '','' # format_double (pr_end p) @ CHR '','' # format_double (pr_step p) @ CHR 0x5D # t)"
    using begin_array_stands [OF assms(3,2)] by blast
  obtain r2 where r2: "read_bound r1 = (Inr (pr_start p), r2)" "stands r2 (False # bs) (CHR '','' #
      format_double (pr_end p) @ CHR '','' # format_double (pr_step p) @ CHR 0x5D # t)"
    using read_bound_stands [OF f(1), of r1 True bs] r1(2) by (auto simp: sep_text_def)
  obtain r3 where r3: "read_bound r2 = (Inr (pr_end p), r3)" "stands r3 (False # bs) (CHR '','' #
      format_double (pr_step p) @ CHR 0x5D # t)"
    using read_bound_stands [OF f(2), of r2 False bs] r2(2) by (auto simp: sep_text_def)
  obtain r4 where r4: "read_bound r3 = (Inr (pr_step p), r4)" "stands r4 (False # bs) (CHR 0x5D # t)"
    using read_bound_stands [OF f(3), of r3 False bs] r3(2) by (auto simp: sep_text_def)
  obtain r5 where "next_element r4 = (Some False, r5)" "stands r5 bs t"
    using next_element_end [OF r4(2)] by blast
  with r1(1) r2(1) r3(1) r4(1) show ?thesis
    by (auto simp: read_price_range_def read_bounds_def reading_def dbind_def)
qed

lemma read_ranges_loop_stands:
  assumes "\<forall>p \<in> set ps. finite_range p" "Suc (length bs) < kMaxDepth"
    "stands r (b # bs) (ranges_text b ps @ t)"
  shows "\<exists>r'. read_ranges_loop acc r = (Inr (acc @ ps), r') \<and> stands r' bs t"
  using assms
proof (induction ps arbitrary: acc r b)
  case Nil
  then show ?case
    using next_element_end [of r b bs t] by (auto simp: read_ranges_loop.simps [of acc r])
next
  case (Cons p ps)
  obtain r1 where r1: "next_element r = (Some True, r1)" "stands r1 (False # bs) (CHR 0x5B # format_double (pr_start p)
      @ CHR '','' # format_double (pr_end p) @ CHR '','' # format_double (pr_step p) @ CHR 0x5D # ranges_text False ps @ t)"
    using next_element_stands [of r b bs "CHR 0x5B"] Cons.prems(3) by auto
  obtain r2 where r2: "read_price_range r1 = (Inr p, r2)" "stands r2 (False # bs) (ranges_text False ps @ t)"
    using read_price_range_stands [OF _ _ r1(2)] Cons.prems(1,2) by auto
  show ?case
    using Cons.IH [OF _ Cons.prems(2) r2(2), of "acc @ [p]"] Cons.prems(1) r1(1) r2(1)
    by (auto simp: read_ranges_loop.simps [of acc r])
qed

lemma read_price_ranges_stands:
  assumes "\<forall>p \<in> set ps. finite_range p" "Suc (length bs) < kMaxDepth"
    "stands r bs (CHR 0x5B # ranges_text True ps @ t)"
  shows "\<exists>r'. read_price_ranges r = (Inr ps, r') \<and> stands r' bs t"
  using begin_array_stands [OF assms(3)] read_ranges_loop_stands [OF assms(1,2), of _ True t "[]"] assms(2)
  by (fastforce simp: read_price_ranges_def reading_def dbind_def)

lemma read_direction_stands:
  assumes "stands r bs (json_string (name_of_direction d) @ t)"
  shows "\<exists>r'. read_direction r = (Inr d, r') \<and> stands r' bs t"
proof -
  have "valid_utf8 (name_of_direction d)" by (rule ascii_valid) (simp add: name_of_direction_def)
  from read_string_stands [OF this assms] show ?thesis
    by (cases d) (auto simp: read_direction_def reading_def dbind_def name_of_direction_def)
qed

lemma read_status_stands:
  assumes "stands r bs (json_string (name_of_status s) @ t)"
  shows "\<exists>r'. read_status r = (Inr s, r') \<and> stands r' bs t"
proof -
  have "valid_utf8 (name_of_status s)" by (rule ascii_valid) (simp add: name_of_status_def)
  from read_string_stands [OF this assms] show ?thesis
    by (cases s) (auto simp: read_status_def reading_def dbind_def name_of_status_def)
qed

definition field_end :: "char \<Rightarrow> bool" where
  "field_end c \<longleftrightarrow> c \<in> {CHR '','', CHR 0x7D}"

lemma number_end_field: "field_end c \<Longrightarrow> number_end (c # t)"
  by (rule number_end_delim) (auto simp: field_end_def)

lemma reads_int:
  "stands r bs (to_chars_int (sint v) @ c # t) \<Longrightarrow> field_end c \<Longrightarrow> f v = w \<Longrightarrow>
     \<exists>r'. reading (read_int r) f = (Inr w, r') \<and> stands r' bs (c # t)"
  using read_int_stands [of r bs v "c # t"] number_end_field [of c t] by (auto simp: reading_def)

lemma reads_double:
  "stands r bs (format_double v @ c # t) \<Longrightarrow> field_end c \<Longrightarrow> is_finite v \<Longrightarrow> f v = w \<Longrightarrow>
     \<exists>r'. reading (read_double r) f = (Inr w, r') \<and> stands r' bs (c # t)"
  using read_double_stands [of v r bs "c # t"] number_end_field [of c t] by (auto simp: reading_def)

lemma reads_string:
  "stands r bs (json_string v @ c # t) \<Longrightarrow> valid_utf8 v \<Longrightarrow> f v = w \<Longrightarrow>
     \<exists>r'. reading (read_string r) f = (Inr w, r') \<and> stands r' bs (c # t)"
  using read_string_stands [of v r bs "c # t"] by (auto simp: reading_def)

lemma reads_bool:
  "stands r bs (bool_text v @ c # t) \<Longrightarrow> f v = w \<Longrightarrow>
     \<exists>r'. reading (read_bool r) f = (Inr w, r') \<and> stands r' bs (c # t)"
  using read_bool_stands [of r bs v "c # t"] by (auto simp: reading_def)

lemma reads_direction:
  "stands r bs (json_string (name_of_direction v) @ c # t) \<Longrightarrow> f v = w \<Longrightarrow>
     \<exists>r'. dmap f (read_direction r) = (Inr w, r') \<and> stands r' bs (c # t)"
  using read_direction_stands [of r bs v "c # t"] by (auto simp: dmap_def dbind_def)

lemma reads_status:
  "stands r bs (json_string (name_of_status v) @ c # t) \<Longrightarrow> f v = w \<Longrightarrow>
     \<exists>r'. dmap f (read_status r) = (Inr w, r') \<and> stands r' bs (c # t)"
  using read_status_stands [of r bs v "c # t"] by (auto simp: dmap_def dbind_def)

lemma reads_ranges:
  "stands r bs ((CHR 0x5B # ranges_text True v) @ c # t) \<Longrightarrow> length bs < 4 \<Longrightarrow> \<forall>p \<in> set v. finite_range p \<Longrightarrow> f v = w \<Longrightarrow>
     \<exists>r'. dmap f (read_price_ranges r) = (Inr w, r') \<and> stands r' bs (c # t)"
  using read_price_ranges_stands [of v bs r "c # t"] by (auto simp: dmap_def dbind_def kMaxDepth_def)

lemmas reads_rules = reads_int reads_double reads_string reads_bool reads_direction reads_status reads_ranges

lemma wake_field_reads:
  assumes "wf_message m" "(key, val, upd) \<in> set (message_members m)" "stands r bs (val @ c # t)" "length bs < 4"
    "field_end c"
  shows "\<exists>r'. read_wake_field key m0 seen r = (Inr (upd m0, seen OR wake_bit key), r') \<and> stands r' bs (c # t)"
proof -
  have strings: "valid_utf8 (correlation_id m)" "valid_utf8 (market_ticker m)" "valid_utf8 (asset m)"
      "valid_utf8 (clock_domain m)" "valid_utf8 (correlation_group m)"
    and doubles: "is_finite (kalshi_price m)" "is_finite (model_probability m)" "is_finite (fee m)" "is_finite (edge m)"
      "is_finite (wire_price_yes_dollars m)" "is_finite (available_size_contracts m)"
    and ranges: "\<forall>p \<in> set (price_ranges m). finite_range p"
    using assms(1) by (simp_all add: wf_message_def)
  note ok = strings doubles ranges
  show ?thesis
    using assms(2-) unfolding message_members_def set_simps
    by - (elim insertE emptyE; simp only: prod.inject;
        simp (no_asm) add: read_wake_field_def wake_bit_def kWakeMessageRequired_def;
        rule reads_rules, assumption+, (rule ok refl)+)
qed

lemma ack_field_reads:
  assumes "wf_ack a" "(key, val, upd) \<in> set (ack_members_of a)" "stands r bs (val @ c # t)" "length bs < 4"
    "field_end c"
  shows "\<exists>r'. read_ack_field key a0 seen r = (Inr (upd a0, seen OR ack_bit key), r') \<and> stands r' bs (c # t)"
proof -
  have ok: "valid_utf8 (ack_correlation_id a)" using assms(1) by (simp add: wf_ack_def)
  have reason: "\<exists>r'. read_ack_field ''reason'' a0 seen r = (Inr (a0\<lparr>ack_reason := ack_reason a\<rparr>, seen OR ack_bit ''reason''), r')
      \<and> stands r' bs (c # t)"
    if st: "stands r bs ((case ack_reason a of None \<Rightarrow> ''null'' | Some s \<Rightarrow> json_string s) @ c # t)"
  proof (cases "ack_reason a")
    case None
    with st have n: "stands r bs (''null'' @ c # t)" by simp
    then have "at_null r = (True, r)" "read_null r = (Some (), adv 4 r)"
      using at_null_text read_null_text stands_rest by blast+
    moreover have "stands (adv 4 r) bs (c # t)" using stands_adv [OF n] by (simp add: eval_nat_numeral)
    ultimately show ?thesis using None by (simp add: read_ack_field_def reading_def ack_bit_def kWakeAckRequired_def)
  next
    case (Some s)
    with st have j: "stands r bs (json_string s @ c # t)" by simp
    then have "at_null r = (False, r)"
      by (intro at_null_other [of r "CHR 0x22"]) (auto simp: json_string_def dest: stands_rest)
    moreover have "valid_utf8 s" using assms(1) Some by (simp add: wf_ack_def)
    ultimately show ?thesis
      using reads_string [OF j, of "\<lambda>v. (a0\<lparr>ack_reason := Some v\<rparr>, seen)"] Some
      by (simp add: read_ack_field_def ack_bit_def kWakeAckRequired_def)
  qed
  show ?thesis
    using assms(2-) unfolding ack_members_of_def set_simps
    by - (elim insertE emptyE; simp only: prod.inject;
        (rule reason, assumption)?;
        simp (no_asm) add: read_ack_field_def ack_bit_def kWakeAckRequired_def;
        rule reads_rules, assumption+, (rule ok refl)+)
qed

section \<open>Round trips\<close>

lemma text_of_as_byte [simp]: "text_of (map as_byte s) = s"
  by (simp add: text_of_def)

lemma field_ends: "c \<in> {CHR '','', CHR 0x7D} \<Longrightarrow> field_end c"
  by (simp add: field_end_def)

lemma at_document_end_stands: "stands r bs [] \<Longrightarrow> at_document_end r = (Some (), r)"
  by (rule at_document_end_text) (auto simp: stands_def)

lemma all_required_seen:
  "fold (\<lambda>mem s. s OR wake_bit (fst mem)) (message_members m) 0 AND kWakeMessageRequiredMask = kWakeMessageRequiredMask"
  by (simp add: message_members_def wake_bit_def kWakeMessageRequired_def kWakeMessageRequiredMask_def bit_defs)

lemma all_required_seen_ack:
  "fold (\<lambda>mem s. s OR ack_bit (fst mem)) (ack_members_of a) 0 AND kWakeAckRequiredMask = kWakeAckRequiredMask"
  by (simp add: ack_members_of_def ack_bit_def kWakeAckRequired_def kWakeAckRequiredMask_def bit_defs)

lemma message_members_apply: "fold (\<lambda>mem. snd (snd mem)) (message_members m) m0 = m"
  by (simp add: message_members_def)

lemma ack_members_apply: "fold (\<lambda>mem. snd (snd mem)) (ack_members_of a) a0 = a"
  by (simp add: ack_members_of_def)

lemma decode_message_text:
  assumes "wf_message m"
  shows "decode_wake_message (map as_byte (message_text m)) = Inr m"
proof -
  have "stands (Reader (message_text m)) [] (CHR 0x7B # members_text True (message_members m) @ [])"
    using stands_Reader [of "message_text m"] by (simp add: message_text_def)
  then obtain r1 where r1: "begin_object (Reader (message_text m)) = (Some (), r1)"
      "stands r1 [True] (members_text True (message_members m) @ [])"
    using begin_object_stands [of _ "[]"] by (fastforce simp: kMaxDepth_def)
  obtain r2 where r2: "wake_members default_WakeMessage 0 r1 =
      (Inr (fold (\<lambda>mem. snd (snd mem)) (message_members m) default_WakeMessage,
        fold (\<lambda>mem s. s OR wake_bit (fst mem)) (message_members m) 0), r2)" "stands r2 [] []"
    using wake.run_text [OF plain_name_valid [OF message_members_plain] _ r1(2)]
      wake_field_reads [OF assms _ _ _ field_ends] by fastforce
  from r1(1) r2 show ?thesis
    by (simp add: decode_wake_message_def at_document_end_stands all_required_seen message_members_apply)
qed

lemma decode_ack_text:
  assumes "wf_ack a"
  shows "decode_wake_ack (map as_byte (ack_text a)) = Inr a"
proof -
  have "stands (Reader (ack_text a)) [] (CHR 0x7B # members_text True (ack_members_of a) @ [])"
    using stands_Reader [of "ack_text a"] by (simp add: ack_text_def)
  then obtain r1 where r1: "begin_object (Reader (ack_text a)) = (Some (), r1)"
      "stands r1 [True] (members_text True (ack_members_of a) @ [])"
    using begin_object_stands [of _ "[]"] by (fastforce simp: kMaxDepth_def)
  obtain r2 where r2: "ack_members default_WakeAck 0 r1 =
      (Inr (fold (\<lambda>mem. snd (snd mem)) (ack_members_of a) default_WakeAck,
        fold (\<lambda>mem s. s OR ack_bit (fst mem)) (ack_members_of a) 0), r2)" "stands r2 [] []"
    using ack.run_text [OF plain_name_valid [OF ack_members_plain] _ r1(2)]
      ack_field_reads [OF assms _ _ _ field_ends] by fastforce
  from r1(1) r2 show ?thesis
    by (simp add: decode_wake_ack_def at_document_end_stands all_required_seen_ack ack_members_apply)
qed

lemma encode_frame_message_eq:
  "encode_frame_message m = prefix_bytes (word_of_nat (length (message_text m))) @ map as_byte (message_text m)"
  using write_length_prefix_eq [of "map as_byte (message_text m)"]
  by (simp add: encode_frame_message_def encode_message_eq)

lemma encode_frame_ack_eq:
  "encode_frame_ack a = prefix_bytes (word_of_nat (length (ack_text a))) @ map as_byte (ack_text a)"
  using write_length_prefix_eq [of "map as_byte (ack_text a)"]
  by (simp add: encode_frame_ack_def encode_ack_eq)

section \<open>Errors\<close>

definition known_wake_fields :: "string list" where
  "known_wake_fields = map fst (message_members default_WakeMessage)"

definition known_ack_fields :: "string list" where
  "known_ack_fields = map fst (ack_members_of default_WakeAck)"

lemma read_wake_field_unknown:
  "key \<notin> set known_wake_fields \<Longrightarrow> read_wake_field key m seen r = (Inl (unexpected_field key), r)"
  unfolding known_wake_fields_def message_members_def read_wake_field_def by simp

lemma read_ack_field_unknown:
  "key \<notin> set known_ack_fields \<Longrightarrow> read_ack_field key m seen r = (Inl (unexpected_field key), r)"
  unfolding known_ack_fields_def ack_members_of_def read_ack_field_def by simp

lemma wf_default: "wf_message default_WakeMessage" "wf_ack default_WakeAck"
  using double_lit_finite
  by (simp_all add: wf_message_def wf_ack_def default_WakeMessage_def default_WakeAck_def finite_range_def
      kDefaultPriceRange_def)

lemma utf8_reader_Reader [simp]: "utf8_reader (Reader txt)"
  by (simp add: utf8_reader_def Reader_def)

lemma missing_field_valid:
  "\<forall>(b, name) \<in> set required. ascii name \<Longrightarrow> missing_field seen required = Inl e \<Longrightarrow> valid_utf8 (message e)"
proof (induction required)
  case Nil
  then have "message e = ''missing required field''" by (auto simp: decode_fail_def)
  then show ?case by (simp add: ascii_valid)
next
  case (Cons x required)
  obtain b name where x: "x = (b, name)" by fastforce
  show ?case
  proof (cases "seen AND b = 0")
    case True
    with Cons x have "message e = ''missing required field: '' @ name" by (auto simp: decode_fail_def)
    moreover have "ascii (''missing required field: '' @ name)" using Cons.prems x by simp
    ultimately show ?thesis by (simp only: ascii_valid)
  qed (use Cons x in auto)
qed

lemma missing_field_neq_Inr [simp]: "missing_field seen required \<noteq> Inr x"
  by (induction seen required rule: missing_field.induct) (auto simp: decode_fail_def split: if_splits)

lemma decode_wake_message_outcome:
  "case decode_wake_message body of Inl e \<Rightarrow> valid_utf8 (message e) | Inr m \<Rightarrow> wf_message m"
proof -
  obtain x r1 where b: "begin_object (Reader (text_of body)) = (x, r1)" by fastforce
  have m1: "moves (Reader (text_of body)) r1" using b begin_object.run_NoneD begin_object.run_SomeD by (cases x) blast+
  note u1 = utf8_reader_moves [OF m1 utf8_reader_Reader]
  obtain y r2 where w: "wake_members default_WakeMessage 0 r1 = (y, r2)" by fastforce
  have d: "dout (\<lambda>(m', seen'). wf_message m') r1 (y, r2)"
    using wake.run_dout [OF wf_default(1), of r1 0] w by simp
  have required: "valid_utf8 (message e)" if "missing_field seen kWakeMessageRequired = (Inl e :: WakeMessage Decoded)" for seen e
    by (rule missing_field_valid [OF _ that]) (simp add: kWakeMessageRequired_def)
  have "utf8_reader (snd (at_document_end r2))"
    using at_document_end_outcome [of r2] u1 d utf8_reader_moves dout_moves [OF d] by (auto simp: outcome_def)
  then show ?thesis
    using b u1 w d required
    by (cases x; cases y) (auto simp: decode_wake_message_def reader_failure_def decode_fail_def utf8_reader_def
      split: option.splits prod.splits sum.splits)
qed

lemma decode_wake_ack_outcome:
  "case decode_wake_ack body of Inl e \<Rightarrow> valid_utf8 (message e) | Inr a \<Rightarrow> wf_ack a"
proof -
  obtain x r1 where b: "begin_object (Reader (text_of body)) = (x, r1)" by fastforce
  have m1: "moves (Reader (text_of body)) r1" using b begin_object.run_NoneD begin_object.run_SomeD by (cases x) blast+
  note u1 = utf8_reader_moves [OF m1 utf8_reader_Reader]
  obtain y r2 where w: "ack_members default_WakeAck 0 r1 = (y, r2)" by fastforce
  have d: "dout (\<lambda>(m', seen'). wf_ack m') r1 (y, r2)"
    using ack.run_dout [OF wf_default(2), of r1 0] w by simp
  have required: "valid_utf8 (message e)" if "missing_field seen kWakeAckRequired = (Inl e :: WakeAck Decoded)" for seen e
    by (rule missing_field_valid [OF _ that]) (simp add: kWakeAckRequired_def)
  have "utf8_reader (snd (at_document_end r2))"
    using at_document_end_outcome [of r2] u1 d utf8_reader_moves dout_moves [OF d] by (auto simp: outcome_def)
  then show ?thesis
    using b u1 w d required
    by (cases x; cases y) (auto simp: decode_wake_ack_def reader_failure_def decode_fail_def utf8_reader_def
      split: option.splits prod.splits sum.splits)
qed


section \<open>Required fields\<close>

text \<open>
  The bits seen are the bits of the keys met, so the mask test is the test that every required
  key was met, and the error names the first required key that was not.
\<close>

definition required_ok :: "(string \<Rightarrow> uint32) \<Rightarrow> (uint32 \<times> string) list \<Rightarrow> uint32 \<Rightarrow> bool" where
  "required_ok bit_of required m \<longleftrightarrow>
     (\<forall>n. bit m n \<longleftrightarrow> (\<exists>(b, name) \<in> set required. bit b n)) \<and>
     (\<forall>(b, name) \<in> set required. \<exists>i < 32. b = 2 ^ i \<and> (\<forall>key. bit (bit_of key) i \<longleftrightarrow> key = name))"

lemma required_okD:
  assumes "required_ok bit_of required m" "(b, name) \<in> set required"
  obtains i where "i < 32" "b = 2 ^ i" "\<And>key. bit (bit_of key) i \<longleftrightarrow> key = name"
  using assms unfolding required_ok_def by fastforce

lemma bit_fold_or:
  "bit (fold (\<lambda>key s. s OR f key) keys (s :: uint32)) n \<longleftrightarrow> bit s n \<or> (\<exists>key \<in> set keys. bit (f key) n)"
  by (induction keys arbitrary: s) (auto simp: bit_or_iff)

lemma and_bit_zero:
  assumes "i < 32"
  shows "(w :: uint32) AND 2 ^ i = 0 \<longleftrightarrow> \<not> bit w i"
proof -
  have "w AND 2 ^ i = 0 \<longleftrightarrow> (\<forall>n < 32. \<not> (bit w n \<and> bit (2 ^ i :: uint32) n))"
    by (simp add: bit_eq_iff bit_and_iff)
  also have "\<dots> \<longleftrightarrow> \<not> bit w i" using assms by (auto simp: bit_exp_iff)
  finally show ?thesis .
qed

lemma seen_required:
  assumes "required_ok bit_of required m" "(b, name) \<in> set required"
  shows "fold (\<lambda>key s. s OR bit_of key) keys 0 AND b = 0 \<longleftrightarrow> name \<notin> set keys"
proof (rule required_okD [OF assms])
  fix i
  assume "i < 32" "b = 2 ^ i" "\<And>key. bit (bit_of key) i \<longleftrightarrow> key = name"
  then show ?thesis by (simp add: and_bit_zero bit_fold_or)
qed

lemma and_eq_iff: "(w :: uint32) AND m = m \<longleftrightarrow> (\<forall>n. bit m n \<longrightarrow> bit w n)"
proof
  assume "w AND m = m"
  then show "\<forall>n. bit m n \<longrightarrow> bit w n" by (metis bit_and_iff)
next
  assume "\<forall>n. bit m n \<longrightarrow> bit w n"
  then show "w AND m = m" by (auto simp: bit_eq_iff bit_and_iff)
qed

lemma mask_covered:
  assumes "required_ok bit_of required m"
  shows "w AND m = m \<longleftrightarrow> (\<forall>(b, name) \<in> set required. w AND b \<noteq> 0)"
proof -
  have "w AND m = m \<longleftrightarrow> (\<forall>(b, name) \<in> set required. \<forall>n. bit b n \<longrightarrow> bit w n)"
    unfolding and_eq_iff using assms unfolding required_ok_def by blast
  also have "\<dots> \<longleftrightarrow> (\<forall>(b, name) \<in> set required. w AND b \<noteq> 0)"
  proof (rule ball_cong [OF refl])
    fix x assume x: "x \<in> set required"
    obtain b name where bn: "x = (b, name)" by fastforce
    obtain i where i: "i < 32" "b = 2 ^ i" using required_okD [OF assms x [unfolded bn]] by blast
    then have "(\<forall>n. bit b n \<longrightarrow> bit w n) \<longleftrightarrow> bit w i" by (auto simp: bit_exp_iff)
    with i show "(case x of (b, name) \<Rightarrow> \<forall>n. bit b n \<longrightarrow> bit w n) \<longleftrightarrow> (case x of (b, name) \<Rightarrow> w AND b \<noteq> 0)"
      by (simp add: and_bit_zero bn)
  qed
  finally show ?thesis .
qed

definition missing_error :: "string option \<Rightarrow> 'a Decoded" where
  "missing_error name = decode_fail MissingField
     (case name of None \<Rightarrow> ''missing required field'' | Some n \<Rightarrow> ''missing required field: '' @ n)"

lemma missing_field_find:
  assumes "\<forall>(b, name) \<in> set required. seen AND b = 0 \<longleftrightarrow> name \<notin> set keys"
  shows "missing_field seen required = missing_error (find (\<lambda>name. name \<notin> set keys) (map snd required))"
  using assms
  by (induction required) (auto simp: missing_error_def)

lemma required_okI:
  assumes "\<forall>n. bit m n \<longleftrightarrow> (\<exists>(b, name) \<in> set required. bit b n)" "length ix = length required" "\<forall>i \<in> set ix. i < 32"
    "\<forall>(i, (b, name)) \<in> set (zip ix required). b = 2 ^ i \<and> (\<forall>key. bit (bit_of key) i \<longleftrightarrow> key = name)"
  shows "required_ok bit_of required m"
  unfolding required_ok_def
proof (intro conjI assms(1) ballI)
  fix x assume "x \<in> set required"
  then obtain j where "j < length required" "x = required ! j" by (auto simp: in_set_conv_nth)
  with assms(2) have z: "(ix ! j, x) \<in> set (zip ix required)" by (auto simp: set_zip)
  then have "ix ! j < 32" using assms(3) set_zip_leftD [of "ix ! j" x] by blast
  moreover obtain b name where x: "x = (b, name)" by fastforce
  moreover have "b = 2 ^ (ix ! j) \<and> (\<forall>key. bit (bit_of key) (ix ! j) \<longleftrightarrow> key = name)"
    using bspec [OF assms(4) z] x by simp
  ultimately show "case x of (b, name) \<Rightarrow> \<exists>i < 32. b = 2 ^ i \<and> (\<forall>key. bit (bit_of key) i \<longleftrightarrow> key = name)"
    by blast
qed

lemma wake_bit_simps: "wake_bit key =
  (if key = ''schema_version'' then 2 ^ 0 else if key = ''correlation_id'' then 2 ^ 1
   else if key = ''market_ticker'' then 2 ^ 2 else if key = ''asset'' then 2 ^ 3
   else if key = ''direction'' then 2 ^ 4 else if key = ''kalshi_price'' then 2 ^ 5
   else if key = ''model_probability'' then 2 ^ 6 else if key = ''fee'' then 2 ^ 7
   else if key = ''edge'' then 2 ^ 8 else if key = ''decision_ts_ms'' then 2 ^ 9
   else if key = ''sent_at_ms'' then 2 ^ 10 else if key = ''sent_at_ns'' then 2 ^ 11 else 0)"
  by (simp add: wake_bit_def kWakeMessageRequired_def bit_defs)

lemma ack_bit_simps: "ack_bit key =
  (if key = ''schema_version'' then 2 ^ 0 else if key = ''correlation_id'' then 2 ^ 1
   else if key = ''received_at_ms'' then 2 ^ 12 else if key = ''status'' then 2 ^ 13 else 0)"
  by (simp add: ack_bit_def kWakeAckRequired_def bit_defs)

lemma bit_if_pow: "bit (if c then (2 :: uint32) ^ j else w) i \<longleftrightarrow> (if c then i = j \<and> j < 32 else bit w i)"
  by (auto simp: bit_exp_iff)

lemma required_ok_wake: "required_ok wake_bit kWakeMessageRequired kWakeMessageRequiredMask"
proof (rule required_okI [where ix = "[0, 1, 2, 3, 4, 5, 6, 7, 8, 9, 10, 11]"])
  show "\<forall>n. bit kWakeMessageRequiredMask n \<longleftrightarrow> (\<exists>(b, name) \<in> set kWakeMessageRequired. bit b n)"
    by (simp add: kWakeMessageRequiredMask_def kWakeMessageRequired_def bit_or_iff disj_assoc)
  show "\<forall>(i, (b, name)) \<in> set (zip [0, 1, 2, 3, 4, 5, 6, 7, 8, 9, 10, 11] kWakeMessageRequired).
      b = 2 ^ i \<and> (\<forall>key. bit (wake_bit key) i \<longleftrightarrow> key = name)"
    unfolding wake_bit_simps bit_if_pow by (simp add: kWakeMessageRequired_def bit_defs)
qed (simp_all add: kWakeMessageRequired_def)

lemma required_ok_ack: "required_ok ack_bit kWakeAckRequired kWakeAckRequiredMask"
proof (rule required_okI [where ix = "[0, 1, 12, 13]"])
  show "\<forall>n. bit kWakeAckRequiredMask n \<longleftrightarrow> (\<exists>(b, name) \<in> set kWakeAckRequired. bit b n)"
    by (simp add: kWakeAckRequiredMask_def kWakeAckRequired_def bit_or_iff disj_assoc)
  show "\<forall>(i, (b, name)) \<in> set (zip [0, 1, 12, 13] kWakeAckRequired).
      b = 2 ^ i \<and> (\<forall>key. bit (ack_bit key) i \<longleftrightarrow> key = name)"
    unfolding ack_bit_simps bit_if_pow by (simp add: kWakeAckRequired_def bit_defs)
qed (simp_all add: kWakeAckRequired_def)

text \<open>
  The whole decoder, in terms of the keys the document has: when the document is an object
  whose members can all be read and nothing follows it, the result is the message exactly if
  every required key was met, and otherwise an error that names the first one missing.
\<close>

lemma decode_wake_message_keys:
  assumes "begin_object (Reader (text_of body)) = (Some (), r)"
    and "members read_wake_field default_WakeMessage 0 r keys m seen r1"
    and "at_document_end r1 = (Some (), r2)"
  shows "decode_wake_message body =
     (case find (\<lambda>name. name \<notin> set keys) (map snd kWakeMessageRequired) of
        None \<Rightarrow> Inr m | Some name \<Rightarrow> missing_error (Some name))"
proof -
  have run: "wake_members default_WakeMessage 0 r = (Inr (m, seen), r1)"
    using wake.members_run [OF assms(2)] .
  have seen: "seen = fold (\<lambda>key s. s OR wake_bit key) keys 0"
    using wake.members_seen [OF assms(2) wf_default(1)] by blast
  have iff: "\<forall>(b, name) \<in> set kWakeMessageRequired. seen AND b = 0 \<longleftrightarrow> name \<notin> set keys"
    unfolding seen using seen_required [OF required_ok_wake] by blast
  have mask: "seen AND kWakeMessageRequiredMask = kWakeMessageRequiredMask \<longleftrightarrow>
      find (\<lambda>name. name \<notin> set keys) (map snd kWakeMessageRequired) = None"
    unfolding mask_covered [OF required_ok_wake] find_None_iff using iff by fastforce
  show ?thesis
    using missing_field_find [OF iff, where ?'a = WakeMessage] mask
    by (auto simp: decode_wake_message_def assms(1,3) run split: option.splits)
qed

lemma decode_wake_ack_keys:
  assumes "begin_object (Reader (text_of body)) = (Some (), r)"
    and "members read_ack_field default_WakeAck 0 r keys a seen r1"
    and "at_document_end r1 = (Some (), r2)"
  shows "decode_wake_ack body =
     (case find (\<lambda>name. name \<notin> set keys) (map snd kWakeAckRequired) of
        None \<Rightarrow> Inr a | Some name \<Rightarrow> missing_error (Some name))"
proof -
  have run: "ack_members default_WakeAck 0 r = (Inr (a, seen), r1)"
    using ack.members_run [OF assms(2)] .
  have seen: "seen = fold (\<lambda>key s. s OR ack_bit key) keys 0"
    using ack.members_seen [OF assms(2) wf_default(2)] by blast
  have iff: "\<forall>(b, name) \<in> set kWakeAckRequired. seen AND b = 0 \<longleftrightarrow> name \<notin> set keys"
    unfolding seen using seen_required [OF required_ok_ack] by blast
  have mask: "seen AND kWakeAckRequiredMask = kWakeAckRequiredMask \<longleftrightarrow>
      find (\<lambda>name. name \<notin> set keys) (map snd kWakeAckRequired) = None"
    unfolding mask_covered [OF required_ok_ack] find_None_iff using iff by fastforce
  show ?thesis
    using missing_field_find [OF iff, where ?'a = WakeAck] mask
    by (auto simp: decode_wake_ack_def assms(1,3) run split: option.splits)
qed

lemma members_known:
  assumes "\<And>key m seen r. key \<notin> known \<Longrightarrow> fst (field key m seen r) = Inl (unexpected_field key)"
    and "members field m seen r keys m' seen' r'"
  shows "set keys \<subseteq> known"
  using assms(2)
proof (induction rule: members.induct)
  case (members_step r key r1 m seen m1 seen1 r2 keys m' seen' r')
  then have "key \<in> known" using assms(1) [of key m seen r1] by auto
  with members_step.IH show ?case by simp
qed simp

end
