(* ===== verification/Wire_Frames.thy ===== *)
theory Wire_Frames
  imports Protocol_Roundtrip
begin

text \<open>
  The size of a frame, and the properties of the wire protocol as its users see them: over the
  frames themselves, not over the reader's states.
\<close>

section \<open>The size of a frame\<close>

lemma length_escape_char: "length (escape_char c) \<le> 6"
  by (simp add: escape_char_def append_string_char_def append_text_def)

lemma length_json_string: "length (json_string s) \<le> 6 * length s + 2"
proof -
  have "length (concat (map escape_char s)) \<le> 6 * length s"
  proof (induction s)
    case (Cons c s)
    then show ?case using length_escape_char [of c] by simp
  qed simp
  then show ?thesis by (simp add: json_string_def)
qed

lemma length_to_chars_int64: "length (to_chars_int (sint (v :: int64))) \<le> 20"
proof -
  have "- (2 ^ 63) \<le> sint v" "sint v < 2 ^ 63"
    using sint_greater_eq [of v] sint_less [of v] by simp_all
  then have "nat (- sint v) < 10 ^ 19" "nat (sint v) < 10 ^ 19" by simp_all
  from this [THEN length_nat_digits_le] show ?thesis by (simp add: to_chars_int_def)
qed

lemma length_ranges_text: "length (ranges_text first ps) \<le> 1 + 77 * length ps"
proof (induction ps arbitrary: first)
  case (Cons p ps)
  have "length (sep_text first) \<le> 1" by (simp add: sep_text_def)
  with Cons [of False] format_double_length_le [of "pr_start p"] format_double_length_le [of "pr_end p"]
    format_double_length_le [of "pr_step p"] show ?case by simp
qed simp

lemma message_text_length:
  "length (message_text m) \<le> 700 + 77 * length (price_ranges m) +
     6 * (length (correlation_id m) + length (market_ticker m) + length (asset m) + length (clock_domain m)
       + length (correlation_group m))"
proof -
  note s = length_json_string and i = length_to_chars_int64 and d = format_double_length_le
  have t: "length (json_string (name_of_direction (direction m))) \<le> 20"
    using s [of "name_of_direction (direction m)"] by (simp add: name_of_direction_def split: if_splits)
  have b: "length (bool_text (dry_run m)) \<le> 5" by (simp add: bool_text_def)
  show ?thesis
    using s [of "correlation_id m"] s [of "market_ticker m"] s [of "asset m"] s [of "clock_domain m"]
      s [of "correlation_group m"] t b i [of "schema_version m"] i [of "decision_ts_ms m"] i [of "sent_at_ms m"]
      i [of "sent_at_ns m"] i [of "recv_ns m"] i [of "exchange_index m"] d [of "kalshi_price m"]
      d [of "model_probability m"] d [of "fee m"] d [of "edge m"] d [of "wire_price_yes_dollars m"]
      d [of "available_size_contracts m"] length_ranges_text [of True "price_ranges m"]
    by (simp add: message_text_def message_members_def sep_text_def json_string_name plain_name_def)
qed

lemma ack_text_length:
  "length (ack_text a) \<le> 150 + 6 * (length (ack_correlation_id a) + (case ack_reason a of None \<Rightarrow> 0 | Some s \<Rightarrow> length s))"
proof -
  have "length (json_string (name_of_status (ack_status a))) \<le> 10"
    by (simp add: name_of_status_def json_string_name plain_name_def split: if_splits)
  then show ?thesis
    using length_json_string [of "ack_correlation_id a"] length_json_string [of "the (ack_reason a)"]
      length_to_chars_int64 [of "ack_schema_version a"] length_to_chars_int64 [of "ack_received_at_ms a"]
    by (auto simp: ack_text_def ack_members_of_def sep_text_def json_string_name plain_name_def split: option.splits)
qed

section \<open>Unknown keys\<close>

lemma unknown_key_refused:
  assumes "valid_utf8 key" "key \<notin> set known_wake_fields"
  shows "decode_wake_message (map as_byte (CHR 0x7B # json_string key @ CHR '':'' # t)) =
    decode_fail UnknownField (''unexpected field: '' @ key)"
proof -
  let ?doc = "CHR 0x7B # json_string key @ CHR '':'' # t"
  obtain r1 where r1: "begin_object (Reader ?doc) = (Some (), r1)" "stands r1 [True] (json_string key @ CHR '':'' # t)"
    using begin_object_stands [OF stands_Reader] by (auto simp: kMaxDepth_def)
  obtain r2 where r2: "next_member r1 = (Some (Some key), r2)"
    using next_member_stands [of r1 True "[]" key t] r1(2) assms(1) by (auto simp: sep_text_def)
  show ?thesis
    using r1(1) by (simp add: decode_wake_message_def wake_members.simps [of _ _ r1] r2 read_wake_field_unknown [OF assms(2)]
        unexpected_field_def del: list.map)
qed

section \<open>Properties of the wire protocol\<close>

text \<open>
  C2: every wake message with finite prices and UTF-8 text survives the wire: decoding the body
  of its encoded frame gives the message back, all twenty fields of it.
\<close>

theorem wake_message_roundtrip:
  assumes "wf_message m"
  shows "decode_wake_message (drop kFrameLengthBytes (encode_frame_message m)) = Inr m"
  using decode_message_text [OF assms] by (simp add: encode_frame_message_eq)

definition sample_message :: WakeMessage where
  "sample_message = default_WakeMessage
     \<lparr>correlation_id := ''c-1'', market_ticker := [CHR 0x22, CHR 0x5C, CHR ''A'', CHR 0x0A], direction := No, kalshi_price := double_lit 1 (- 2),
      sent_at_ns := - 1, recv_ns := 7, dry_run := True, price_ranges := [kDefaultPriceRange, kDefaultPriceRange]\<rparr>"

lemma wf_sample: "wf_message sample_message"
  using wf_default(1) double_lit_finite
  by (simp add: sample_message_def wf_message_def ascii_valid finite_range_def kDefaultPriceRange_def)

theorem wake_message_roundtrip_witness:
  "wf_message sample_message \<and>
   decode_wake_message (drop kFrameLengthBytes (encode_frame_message sample_message)) = Inr sample_message"
  using wake_message_roundtrip [OF wf_sample] wf_sample by blast

text \<open>
  C24: every ack whose texts are valid UTF-8 (\<open>wf_ack\<close>), with or without a reason, is given back by
  decoding the body of its encoded frame.
\<close>

theorem wake_ack_roundtrip:
  assumes "wf_ack a"
  shows "decode_wake_ack (drop kFrameLengthBytes (encode_frame_ack a)) = Inr a"
  using decode_ack_text [OF assms] by (simp add: encode_frame_ack_eq)

definition sample_ack :: WakeAck where
  "sample_ack = default_WakeAck \<lparr>ack_correlation_id := ''c-1'', ack_received_at_ms := - 5,
     ack_status := Rejected, ack_reason := Some [CHR 0x22, CHR 0x09]\<rparr>"

lemma wf_sample_ack: "wf_ack sample_ack"
  using wf_default(2) by (simp add: sample_ack_def wf_ack_def ascii_valid)

theorem wake_ack_roundtrip_witness:
  "wf_ack sample_ack \<and> decode_wake_ack (drop kFrameLengthBytes (encode_frame_ack sample_ack)) = Inr sample_ack"
  using wake_ack_roundtrip [OF wf_sample_ack] wf_sample_ack by blast

text \<open>
  C25: the length prefix of an encoded message frame says how many bytes follow it: the receiver
  gets exactly that number when the body is within the cap, and the frame-too-large error, not a
  truncated length, when it is above the cap and below 4 GiB.
\<close>

theorem frame_length_roundtrip:
  assumes "length (encode_frame_message m) < 2 ^ 32"
  shows "case decode_frame_length (take kFrameLengthBytes (encode_frame_message m)) of
      Inr len \<Rightarrow> unat len = length (drop kFrameLengthBytes (encode_frame_message m)) \<and>
        length (drop kFrameLengthBytes (encode_frame_message m)) \<le> 65536
    | Inl e \<Rightarrow> code e = FrameTooLarge \<and>
        65536 < length (drop kFrameLengthBytes (encode_frame_message m))"
proof -
  have "length (message_text m) < 2 ^ 32" using assms by (simp add: encode_frame_message_eq)
  then have len: "unat (word_of_nat (length (message_text m)) :: uint32) = length (message_text m)"
    by (simp add: unat_of_nat)
  show ?thesis
    by (simp add: encode_frame_message_eq decode_frame_length_prefix word_less_nat_alt len kMaxFrameBytes_def
        decode_fail_def)
qed

theorem frame_length_roundtrip_witness:
  "length (encode_frame_message sample_message) < 2 ^ 32 \<and>
   (case decode_frame_length (take kFrameLengthBytes (encode_frame_message sample_message)) of
      Inr len \<Rightarrow> unat len = length (drop kFrameLengthBytes (encode_frame_message sample_message)) \<and>
        length (drop kFrameLengthBytes (encode_frame_message sample_message)) \<le> 65536
    | Inl e \<Rightarrow> code e = FrameTooLarge \<and>
        65536 < length (drop kFrameLengthBytes (encode_frame_message sample_message)))"
proof -
  have "length (encode_frame_message sample_message) < 2 ^ 32"
    using message_text_length [of sample_message]
    by (simp add: encode_frame_message_eq kFrameLengthBytes_def sample_message_def default_WakeMessage_def)
  then show ?thesis using frame_length_roundtrip [of sample_message] by blast
qed

lemma unat_ucast_byte [simp]: "unat (ucast (b :: byte) :: uint32) = unat b"
  using unsigned_less [of b, where ?'a = nat] by (simp add: unsigned_ucast_eq take_bit_nat_eq_self)

lemma unat_shift_in:
  assumes "unat (len :: uint32) < 2 ^ 24"
  shows "unat (push_bit 8 len OR ucast (b :: byte)) = 256 * unat len + unat b"
proof -
  have disj: "push_bit 8 len AND ucast b = 0"
    by (rule bit_word_eqI) (auto simp: bit_simps dest: bit_imp_le_length)
  have "unat b < 256" using unsigned_less [of b, where ?'a = nat] by simp
  then have "unat (push_bit 8 len :: uint32) + unat (ucast b :: uint32) = 256 * unat len + unat b"
    using assms by (simp add: push_bit_eq_mult unat_word_ariths)
  moreover from this have "unat (push_bit 8 len + ucast b :: uint32) = 256 * unat len + unat b"
    using assms \<open>unat b < 256\<close> by (subst unat_add_lem [THEN iffD1]) simp_all
  ultimately show ?thesis using disj by (simp add: disjunctive_add_eq_or [symmetric])
qed

lemma fold_prefix_value:
  assumes "length bs = 4"
  shows "unat (foldl (\<lambda>len b. push_bit 8 len OR ucast b) (0 :: uint32) bs) = foldl (\<lambda>n b. 256 * n + unat (b :: byte)) 0 bs"
proof -
  obtain a b c d where bs: "bs = [a, b, c, d]" using assms by (auto simp: numeral_eq_Suc length_Suc_conv)
  have lt: "unat a < 256" "unat b < 256" "unat c < 256"
    using unsigned_less [of a, where ?'a = nat] unsigned_less [of b, where ?'a = nat] unsigned_less [of c, where ?'a = nat] by simp_all
  show ?thesis using lt 
    unat_shift_in [of 0 a] unat_shift_in [of "ucast a" b] unat_shift_in [of "push_bit 8 (ucast a) OR ucast b" c]
    unat_shift_in [of "push_bit 8 (push_bit 8 (ucast a) OR ucast b) OR ucast c" d]
    by (simp add: bs)
qed

text \<open>
  A length prefix is four bytes, read as a big-endian number, and is taken only up to the
  64 KiB cap; any other number of bytes is a malformed frame.
\<close>

lemma decode_frame_length_iff:
  "decode_frame_length prefix = Inr len \<longleftrightarrow>
     length prefix = 4 \<and> unat len = foldl (\<lambda>n b. 256 * n + unat b) 0 prefix \<and> unat len \<le> 65536"
proof (cases "length prefix = 4")
  case True
  then show ?thesis
    using fold_prefix_value [OF True]
    by (auto simp: decode_frame_length_def kFrameLengthBytes_def kMaxFrameBytes_def Let_def decode_fail_def
        word_less_nat_alt word_unat_eq_iff)
qed (simp add: decode_frame_length_def kFrameLengthBytes_def decode_fail_def)

text \<open>
  C8: an accepted wake frame is a JSON object, with nothing after it, whose keys are all known and
  include every required one; the message is what reading its members in order gives.
\<close>

theorem decode_wake_message_accepts:
  "decode_wake_message body = Inr m \<longleftrightarrow>
     (\<exists>r keys seen r1 r2. begin_object (Reader (text_of body)) = (Some (), r) \<and>
        members read_wake_field default_WakeMessage 0 r keys m seen r1 \<and>
        at_document_end r1 = (Some (), r2) \<and>
        set (map snd kWakeMessageRequired) \<subseteq> set keys \<and> set keys \<subseteq> set known_wake_fields)"
  (is "?dec \<longleftrightarrow> ?doc")
proof
  assume ?dec
  then obtain u r seen r1 v r2 where d: "begin_object (Reader (text_of body)) = (Some u, r)"
      "wake_members default_WakeMessage 0 r = (Inr (m, seen), r1)" "at_document_end r1 = (Some v, r2)"
    by (auto simp: decode_wake_message_def reader_failure_def decode_fail_def
        split: option.splits prod.splits sum.splits if_splits)
  obtain keys where k: "members read_wake_field default_WakeMessage 0 r keys m seen r1"
    using wake.run_members [OF d(2)] by blast
  have "set keys \<subseteq> set known_wake_fields"
    by (rule members_known [OF _ k]) (simp add: read_wake_field_unknown)
  moreover have "set (map snd kWakeMessageRequired) \<subseteq> set keys"
    using decode_wake_message_keys [of body r keys m seen r1 r2] d k \<open>?dec\<close>
    by (auto simp: missing_error_def decode_fail_def find_None_iff split: option.splits)
  ultimately show ?doc using d k by (auto intro!: exI)
next
  assume ?doc
  then obtain r keys seen r1 r2 where d: "begin_object (Reader (text_of body)) = (Some (), r)"
      "members read_wake_field default_WakeMessage 0 r keys m seen r1" "at_document_end r1 = (Some (), r2)"
      "set (map snd kWakeMessageRequired) \<subseteq> set keys" by blast
  have "find (\<lambda>name. name \<notin> set keys) (map snd kWakeMessageRequired) = None"
    using d(4) by (auto simp: find_None_iff)
  then show ?dec using decode_wake_message_keys [OF d(1-3)] by simp
qed

lemma find_first: "(\<And>x. x \<in> set xs \<Longrightarrow> \<not> P x) \<Longrightarrow> P y \<Longrightarrow> find P (xs @ y # zs) = Some y"
  by (induction xs) auto

text \<open>
  A document that is otherwise well formed but lacks required keys is refused with an error
  that names the first of them in the order of the table.
\<close>

lemma decode_wake_message_missing:
  assumes "begin_object (Reader (text_of body)) = (Some (), r)"
    and "members read_wake_field default_WakeMessage 0 r keys m seen r1"
    and "at_document_end r1 = (Some (), r2)"
    and "map snd kWakeMessageRequired = met @ name # others" "set met \<subseteq> set keys" "name \<notin> set keys"
  shows "decode_wake_message body = decode_fail MissingField (''missing required field: '' @ name)"
proof -
  have "find (\<lambda>n. n \<notin> set keys) (map snd kWakeMessageRequired) = Some name"
    unfolding assms(4) using assms(5,6) by (intro find_first) auto
  then show ?thesis using decode_wake_message_keys [OF assms(1-3)] by (simp add: missing_error_def)
qed

text \<open>
  C16: whatever bytes arrive, decoding a wake message ends with a message whose prices are finite
  and whose strings are UTF-8, or with an error whose text is UTF-8 and can go back inside an ack.
\<close>

theorem decode_wake_message_total:
  "case decode_wake_message body of Inl e \<Rightarrow> valid_utf8 (message e) | Inr m \<Rightarrow> wf_message m"
  by (rule decode_wake_message_outcome)

text \<open>
  A key that is not a field of the message refuses the whole frame, with an error that names
  the key, whatever follows it.
\<close>

lemma unknown_field_refused:
  assumes "valid_utf8 key" "key \<notin> set known_wake_fields"
  shows "decode_wake_message (map as_byte (CHR 0x7B # json_string key @ CHR '':'' # t)) =
    decode_fail UnknownField (''unexpected field: '' @ key)"
  by (rule unknown_key_refused [OF assms])

end
