(* ===== verification/Spsc_Ring.thy ===== *)
theory Spsc_Ring
  imports Prelude
begin

text \<open>
  The single-producer single-consumer ring of \<open>include/hotpath/spsc_ring.hpp\<close>. The indices are
  64-bit words that wrap, as \<open>std::size_t\<close> does. Each call is split at its accesses to shared
  memory; \<open>try_push\<close> and \<open>try_pop\<close> are the calls run alone, and \<open>ring_step\<close> interleaves the
  two threads at those accesses. An acquire load may return any value the other index has had
  since this thread last looked, so the model does not assume that loads are up to date.
\<close>

section \<open>The ring\<close>

record 'a ring =
  rg_head :: uint64
  rg_tail_cache :: uint64
  rg_tail :: uint64
  rg_head_cache :: uint64
  rg_slots :: "'a list"
  rg_mask :: uint64

fun bit_width :: "nat \<Rightarrow> nat" where
  "bit_width n = (if n = 0 then 0 else Suc (bit_width (n div 2)))"

declare bit_width.simps [simp del]

definition bit_ceil :: "nat \<Rightarrow> nat" where
  "bit_ceil n = (if n \<le> 1 then 1 else 2 ^ bit_width (n - 1))"

definition SpscRing :: "'a \<Rightarrow> nat \<Rightarrow> 'a ring" where
  "SpscRing dflt capacity =
     (let n = bit_ceil (if capacity < 2 then 2 else capacity)
      in \<lparr>rg_head = 0, rg_tail_cache = 0, rg_tail = 0, rg_head_cache = 0, rg_slots = replicate n dflt,
          rg_mask = word_of_nat n - 1\<rparr>)"

definition full_at :: "'a ring \<Rightarrow> uint64 \<Rightarrow> bool" where
  "full_at r tail \<longleftrightarrow> rg_head r - tail \<ge> word_of_nat (length (rg_slots r))"

definition push_write :: "'a \<Rightarrow> 'a ring \<Rightarrow> 'a ring" where
  "push_write value r = r\<lparr>rg_slots := (rg_slots r)[unat (rg_head r AND rg_mask r) := value]\<rparr>"

definition push_publish :: "'a ring \<Rightarrow> 'a ring" where
  "push_publish r = r\<lparr>rg_head := rg_head r + 1\<rparr>"

text \<open>\<open>seen\<close> is what the acquire load of the other index returns.\<close>

definition try_push :: "uint64 \<Rightarrow> 'a \<Rightarrow> 'a ring \<Rightarrow> bool \<times> 'a ring" where
  "try_push seen value r =
     (if full_at r (rg_tail_cache r) then
        let r1 = r\<lparr>rg_tail_cache := seen\<rparr>
        in if full_at r1 (rg_tail_cache r1) then (False, r1)
           else (True, push_publish (push_write value r1))
      else (True, push_publish (push_write value r)))"

definition pop_read :: "'a ring \<Rightarrow> 'a" where
  "pop_read r = rg_slots r ! unat (rg_tail r AND rg_mask r)"

definition pop_publish :: "'a ring \<Rightarrow> 'a ring" where
  "pop_publish r = r\<lparr>rg_tail := rg_tail r + 1\<rparr>"

definition try_pop :: "uint64 \<Rightarrow> 'a ring \<Rightarrow> 'a option \<times> 'a ring" where
  "try_pop seen r =
     (if rg_tail r = rg_head_cache r then
        let r1 = r\<lparr>rg_head_cache := seen\<rparr>
        in if rg_tail r1 = rg_head_cache r1 then (None, r1)
           else (Some (pop_read r1), pop_publish r1)
      else (Some (pop_read r), pop_publish r))"

definition ring_size :: "'a ring \<Rightarrow> uint64" where
  "ring_size r = rg_head r - rg_tail r"

definition ring_capacity :: "'a ring \<Rightarrow> nat" where
  "ring_capacity r = length (rg_slots r)"

section \<open>The two threads\<close>

datatype 'a push_pc = Push_idle | Push_check 'a | Push_write 'a | Push_publish 'a

datatype 'a pop_pc = Pop_idle | Pop_check | Pop_read | Pop_publish 'a

record 'a ring_sys =
  rs_ring :: "'a ring"
  rs_push :: "'a push_pc"
  rs_pop :: "'a pop_pc"
  rs_pushed :: "'a list"
  rs_popped :: "'a list"

text \<open>
  The values an acquire load may return: the other index at some moment since the cached value
  was current. In modular arithmetic that is a distance from the cached value.
\<close>

definition may_see :: "uint64 \<Rightarrow> uint64 \<Rightarrow> uint64 \<Rightarrow> bool" where
  "may_see cached current seen \<longleftrightarrow> seen - cached \<le> current - cached"

inductive ring_step :: "'a ring_sys \<Rightarrow> 'a ring_sys \<Rightarrow> bool" where
  push_start:
    "rs_push s = Push_idle \<Longrightarrow>
       ring_step s (s\<lparr>rs_push := if full_at (rs_ring s) (rg_tail_cache (rs_ring s)) then Push_check v else Push_write v\<rparr>)"
| push_refresh:
    "rs_push s = Push_check v \<Longrightarrow> may_see (rg_tail_cache (rs_ring s)) (rg_tail (rs_ring s)) seen \<Longrightarrow>
       ring_step s (s\<lparr>rs_ring := (rs_ring s)\<lparr>rg_tail_cache := seen\<rparr>,
                      rs_push := if full_at (rs_ring s) seen then Push_idle else Push_write v\<rparr>)"
| push_store:
    "rs_push s = Push_write v \<Longrightarrow>
       ring_step s (s\<lparr>rs_ring := push_write v (rs_ring s), rs_push := Push_publish v\<rparr>)"
| push_release:
    "rs_push s = Push_publish v \<Longrightarrow>
       ring_step s (s\<lparr>rs_ring := push_publish (rs_ring s), rs_push := Push_idle, rs_pushed := rs_pushed s @ [v]\<rparr>)"
| pop_start:
    "rs_pop s = Pop_idle \<Longrightarrow>
       ring_step s (s\<lparr>rs_pop := if rg_tail (rs_ring s) = rg_head_cache (rs_ring s) then Pop_check else Pop_read\<rparr>)"
| pop_refresh:
    "rs_pop s = Pop_check \<Longrightarrow> may_see (rg_head_cache (rs_ring s)) (rg_head (rs_ring s)) seen \<Longrightarrow>
       ring_step s (s\<lparr>rs_ring := (rs_ring s)\<lparr>rg_head_cache := seen\<rparr>,
                      rs_pop := if rg_tail (rs_ring s) = seen then Pop_idle else Pop_read\<rparr>)"
| pop_load:
    "rs_pop s = Pop_read \<Longrightarrow>
       ring_step s (s\<lparr>rs_pop := Pop_publish (pop_read (rs_ring s))\<rparr>)"
| pop_release:
    "rs_pop s = Pop_publish x \<Longrightarrow>
       ring_step s (s\<lparr>rs_ring := pop_publish (rs_ring s), rs_pop := Pop_idle, rs_popped := rs_popped s @ [x]\<rparr>)"

definition ring_init :: "'a \<Rightarrow> nat \<Rightarrow> 'a ring_sys" where
  "ring_init dflt capacity =
     \<lparr>rs_ring = SpscRing dflt capacity, rs_push = Push_idle, rs_pop = Pop_idle, rs_pushed = [], rs_popped = []\<rparr>"

definition ring_reachable :: "'a \<Rightarrow> nat \<Rightarrow> 'a ring_sys \<Rightarrow> bool" where
  "ring_reachable dflt capacity s \<longleftrightarrow> ring_step\<^sup>*\<^sup>* (ring_init dflt capacity) s"

section \<open>Arithmetic of the indices\<close>

lemma bit_width_bounds: "n < 2 ^ bit_width n" "0 < n \<Longrightarrow> 2 ^ (bit_width n - 1) \<le> n"
proof -
  have "n < 2 ^ bit_width n \<and> (0 < n \<longrightarrow> 2 ^ (bit_width n - 1) \<le> n)"
  proof (induction n rule: bit_width.induct)
    case (1 n)
    show ?case
    proof (cases "n = 0")
      case False
      then have IH: "n div 2 < 2 ^ bit_width (n div 2)" "0 < n div 2 \<Longrightarrow> 2 ^ (bit_width (n div 2) - 1) \<le> n div 2"
        using 1 by auto
      have w: "bit_width n = Suc (bit_width (n div 2))" using False by (simp add: bit_width.simps [of n])
      show ?thesis
      proof (cases "n div 2 = 0")
        case True
        then show ?thesis using False by (simp add: w bit_width.simps [of 0])
      next
        case F: False
        then have "bit_width (n div 2) \<noteq> 0" by (simp add: bit_width.simps [of "n div 2"])
        then obtain k where "bit_width (n div 2) = Suc k" using not0_implies_Suc by blast
        then show ?thesis using IH F w by auto
      qed
    qed (simp add: bit_width.simps [of 0])
  qed
  then show "n < 2 ^ bit_width n" "0 < n \<Longrightarrow> 2 ^ (bit_width n - 1) \<le> n" by auto
qed

lemma bit_ceil_spec:
  assumes "2 \<le> n"
  shows "n \<le> bit_ceil n" "bit_ceil n < 2 * n" "\<exists>k. bit_ceil n = 2 ^ k \<and> 1 \<le> k"
proof -
  have c: "bit_ceil n = 2 ^ bit_width (n - 1)" using assms by (simp add: bit_ceil_def)
  have p: "0 < bit_width (n - 1)" using assms by (simp add: bit_width.simps [of "n - Suc 0"])
  then obtain k where k: "bit_width (n - 1) = Suc k" using gr0_implies_Suc by blast
  show "n \<le> bit_ceil n" using bit_width_bounds(1) [of "n - 1"] c by simp
  show "bit_ceil n < 2 * n" using bit_width_bounds(2) [of "n - 1"] assms c k by simp
  show "\<exists>k. bit_ceil n = 2 ^ k \<and> 1 \<le> k" using c p by (intro exI [of _ "bit_width (n - 1)"]) simp
qed

text \<open>The slot of an index is the index modulo the capacity, across the wrap-around of the index.\<close>

lemma slot_index:
  fixes t :: uint64
  assumes "k \<le> 63"
  shows "unat ((t + word_of_nat n) AND (2 ^ k - 1)) = (unat t + n) mod 2 ^ k"
proof -
  have "unat ((t + word_of_nat n) AND (2 ^ k - 1)) = unat (t + word_of_nat n) mod 2 ^ k"
    by (simp only: mask_eq_exp_minus_1 [symmetric] take_bit_eq_mask [symmetric] unsigned_take_bit_eq) (simp add: take_bit_eq_mod)
  also have "unat (t + word_of_nat n) = (unat t + n) mod 2 ^ 64"
    by (simp add: unat_word_ariths unat_of_nat mod_add_right_eq)
  also have "(unat t + n) mod 2 ^ 64 mod 2 ^ k = (unat t + n) mod 2 ^ k"
    using assms by (intro mod_mod_cancel le_imp_power_dvd) simp
  finally show ?thesis .
qed


section \<open>The queue a ring holds\<close>

definition occ :: "'a ring \<Rightarrow> nat" where
  "occ r = unat (rg_head r - rg_tail r)"

definition slot :: "'a ring \<Rightarrow> nat \<Rightarrow> nat" where
  "slot r n = unat ((rg_tail r + word_of_nat n) AND rg_mask r)"

definition contents :: "'a ring \<Rightarrow> 'a list" where
  "contents r = map (\<lambda>n. rg_slots r ! slot r n) [0..<occ r]"

definition ring_ok :: "'a ring \<Rightarrow> bool" where
  "ring_ok r \<longleftrightarrow>
     (\<exists>k. 1 \<le> k \<and> k \<le> 63 \<and> length (rg_slots r) = 2 ^ k \<and> rg_mask r = 2 ^ k - 1)
     \<and> occ r \<le> length (rg_slots r)
     \<and> unat (rg_head r - rg_tail_cache r) \<le> length (rg_slots r)
     \<and> rg_tail r - rg_tail_cache r \<le> rg_head r - rg_tail_cache r
     \<and> rg_head_cache r - rg_tail r \<le> rg_head r - rg_tail r"

lemma ring_okD:
  assumes "ring_ok r"
  obtains k where "1 \<le> k" "k \<le> 63" "length (rg_slots r) = 2 ^ k" "rg_mask r = 2 ^ k - 1"
  using assms by (auto simp: ring_ok_def)

lemma slot_mod: "ring_ok r \<Longrightarrow> slot r n = (unat (rg_tail r) + n) mod length (rg_slots r)"
  by (elim ring_okD) (simp add: slot_def slot_index)

lemma slot_less: "ring_ok r \<Longrightarrow> slot r n < length (rg_slots r)"
  using slot_mod [of r n] by (auto elim!: ring_okD)

lemma mod_shift_inject:
  assumes "(x + i) mod n = (x + j) mod n" "i < n" "j < (n::nat)"
  shows "i = j"
proof -
  have le: "j = i" if "i \<le> j" "(x + i) mod n = (x + j) mod n" "j < n" for i j
  proof -
    have "n dvd j - i" using mod_eq_dvd_iff_nat [of "x + i" "x + j" n] that by simp
    moreover have "j - i < n" using that(3) by linarith
    ultimately have "j - i = 0" using nat_dvd_not_less by blast
    with that(1) show ?thesis by simp
  qed
  show ?thesis
  proof (cases "i \<le> j")
    case True
    then show ?thesis using le [OF _ assms(1,3)] by simp
  next
    case False
    then show ?thesis using le [OF _ assms(1) [symmetric] assms(2)] by simp
  qed
qed

lemma slot_inject:
  assumes "ring_ok r" "i < length (rg_slots r)" "j < length (rg_slots r)"
  shows "slot r i = slot r j \<longleftrightarrow> i = j"
  using mod_shift_inject [of "unat (rg_tail r)" i "length (rg_slots r)" j] assms by (auto simp: slot_mod)

lemma head_slot: "unat (rg_head r AND rg_mask r) = slot r (occ r)"
  by (simp add: slot_def occ_def)

lemma unat_diff_split:
  fixes a b c :: uint64
  assumes "b - c \<le> a - c"
  shows "unat (a - c) = unat (a - b) + unat (b - c)"
proof -
  have "unat ((a - c) - (b - c)) = unat (a - c) - unat (b - c)" using assms by (rule unat_sub)
  moreover have "(a - c) - (b - c) = a - b" by simp
  ultimately show ?thesis using assms by (simp add: word_le_nat_alt)
qed

lemma occ_bound: "ring_ok r \<Longrightarrow> occ r + unat (rg_tail r - rg_tail_cache r) \<le> length (rg_slots r)"
  using unat_diff_split [of "rg_tail r" "rg_tail_cache r" "rg_head r"] by (simp add: ring_ok_def occ_def)

lemma slots_small: "ring_ok r \<Longrightarrow> length (rg_slots r) \<le> 2 ^ 63"
proof (erule ring_okD)
  fix k
  assume "k \<le> 63" "length (rg_slots r) = 2 ^ k"
  then show ?thesis using power_increasing [of k 63 "2::nat"] by simp
qed

lemma not_full_at:
  assumes "ring_ok r"
  shows "\<not> full_at r t \<longleftrightarrow> unat (rg_head r - t) < length (rg_slots r)"
  using slots_small [OF assms] by (simp add: full_at_def word_le_nat_alt not_le unat_of_nat)

lemma unat_succ: "unat (w::uint64) < 2 ^ 63 \<Longrightarrow> unat (w + 1) = Suc (unat w)"
  by (simp add: unat_word_ariths)

text \<open>Writing the slot of the head does not touch what is queued; publishing it appends it.\<close>

lemma push_write_ok:
  assumes "ring_ok r" "occ r < length (rg_slots r)"
  shows "ring_ok (push_write v r)" "contents (push_write v r) = contents r"
    "rg_slots (push_write v r) ! slot r (occ r) = v"
proof -
  show "ring_ok (push_write v r)" using assms by (simp add: ring_ok_def push_write_def occ_def)
  have "\<forall>n \<in> set [0..<occ r]. slot r (occ r) \<noteq> slot r n"
    using assms(2) slot_inject [OF assms(1) assms(2)] by auto
  then show "contents (push_write v r) = contents r"
    by (simp add: contents_def push_write_def head_slot [symmetric] occ_def slot_def)
  show "rg_slots (push_write v r) ! slot r (occ r) = v"
    using slot_less [OF assms(1), of "occ r"] by (simp add: push_write_def head_slot)
qed

lemma push_publish_ok:
  assumes "ring_ok r" "unat (rg_head r - rg_tail_cache r) < length (rg_slots r)"
  shows "ring_ok (push_publish r)" "contents (push_publish r) = contents r @ [rg_slots r ! slot r (occ r)]"
proof -
  have d: "unat (rg_head r - rg_tail_cache r) = occ r + unat (rg_tail r - rg_tail_cache r)"
    using assms(1) by (simp add: occ_def ring_ok_def unat_diff_split)
  have s: "length (rg_slots r) \<le> 2 ^ 63" by (rule slots_small [OF assms(1)])
  have step: "unat (rg_head r + 1 - c) = Suc (unat (rg_head r - c))" if "unat (rg_head r - c) < length (rg_slots r)" for c
    using unat_succ [of "rg_head r - c"] that s by (simp add: algebra_simps)
  have o: "occ (push_publish r) = Suc (occ r)"
    using step [of "rg_tail r"] d assms(2) by (simp add: occ_def push_publish_def)
  show "contents (push_publish r) = contents r @ [rg_slots r ! slot r (occ r)]"
    unfolding contents_def o by (simp add: push_publish_def slot_def)
  have "rg_head_cache r - rg_tail r \<le> rg_head r + 1 - rg_tail r"
    using assms step [of "rg_tail r"] d by (simp add: ring_ok_def word_le_nat_alt occ_def)
  moreover have "rg_tail r - rg_tail_cache r \<le> rg_head r + 1 - rg_tail_cache r"
    using assms step [of "rg_tail_cache r"] by (simp add: ring_ok_def word_le_nat_alt)
  ultimately show "ring_ok (push_publish r)"
    using assms o d step [of "rg_tail_cache r"]
    by (auto simp: ring_ok_def push_publish_def)
qed

lemma refresh_tail_ok:
  assumes "ring_ok r" "may_see (rg_tail_cache r) (rg_tail r) seen"
  shows "ring_ok (r\<lparr>rg_tail_cache := seen\<rparr>)"
proof -
  define c t h where "c = rg_tail_cache r" and "t = rg_tail r" and "h = rg_head r"
  have 1: "seen - c \<le> t - c" "t - c \<le> h - c" using assms by (auto simp: c_def t_def h_def ring_ok_def may_see_def)
  then have "seen - c \<le> h - c" by simp
  note d = unat_diff_split [OF 1(1)] unat_diff_split [OF 1(2)] unat_diff_split [OF this]
  from d have "unat (h - seen) = unat (h - t) + unat (t - seen)" by simp
  then have "t - seen \<le> h - seen" "unat (h - seen) \<le> unat (h - c)" using d by (simp_all add: word_le_nat_alt)
  with assms(1) show ?thesis by (auto simp: ring_ok_def occ_def c_def t_def h_def)
qed

lemma refresh_head_ok:
  assumes "ring_ok r" "may_see (rg_head_cache r) (rg_head r) seen"
  shows "ring_ok (r\<lparr>rg_head_cache := seen\<rparr>)"
proof -
  define c t h where "c = rg_head_cache r" and "t = rg_tail r" and "h = rg_head r"
  have 1: "seen - c \<le> h - c" "c - t \<le> h - t" using assms by (auto simp: c_def t_def h_def ring_ok_def may_see_def)
  have "unat (h - t) = unat (h - c) + unat (c - t)" by (rule unat_diff_split [OF 1(2)])
  moreover have "unat (h - c) = unat (h - seen) + unat (seen - c)" by (rule unat_diff_split [OF 1(1)])
  ultimately have le: "unat (seen - c) + unat (c - t) \<le> unat (h - t)" by simp
  have "seen - t = (seen - c) + (c - t)" by simp
  then have "unat (seen - t) = (unat (seen - c) + unat (c - t)) mod 2 ^ 64" by (simp only: unat_word_ariths) simp
  then have "unat (seen - t) \<le> unat (seen - c) + unat (c - t)" by (simp only: mod_less_eq_dividend)
  with le have "seen - t \<le> h - t" by (simp add: word_le_nat_alt)
  with assms(1) show ?thesis by (auto simp: ring_ok_def occ_def t_def h_def)
qed

lemma pop_publish_ok:
  assumes "ring_ok r" "rg_tail r \<noteq> rg_head_cache r"
  shows "ring_ok (pop_publish r)" "contents r = pop_read r # contents (pop_publish r)"
proof -
  define t h hc where "t = rg_tail r" and "h = rg_head r" and "hc = rg_head_cache r"
  have le: "hc - t \<le> h - t" and ne: "hc - t \<noteq> 0" using assms by (auto simp: ring_ok_def t_def h_def hc_def)
  have down: "unat (w - (t + 1)) = unat (w - t) - 1" if "w - t \<noteq> 0" for w :: uint64
    using unat_minus_one [of "w - t"] that by (simp add: algebra_simps)
  have hne: "h - t \<noteq> 0" using le ne by (metis word_zero_le antisym)
  have o: "occ r = Suc (occ (pop_publish r))"
    using down [OF hne] hne by (simp add: occ_def pop_publish_def t_def h_def unat_gt_0)
  have "[0..<occ r] = 0 # map Suc [0..<occ (pop_publish r)]"
    unfolding o by (simp add: upt_conv_Cons map_Suc_upt del: upt_Suc)
  then show "contents r = pop_read r # contents (pop_publish r)"
    by (simp add: contents_def pop_read_def slot_def pop_publish_def comp_def algebra_simps)
  have "hc - (t + 1) \<le> h - (t + 1)"
    using down [OF hne] down [OF ne] le by (simp add: word_le_nat_alt)
  moreover have "t + 1 - rg_tail_cache r \<le> h - rg_tail_cache r"
  proof -
    have d: "unat (h - rg_tail_cache r) = occ r + unat (t - rg_tail_cache r)"
      using assms(1) by (simp add: occ_def ring_ok_def unat_diff_split t_def h_def)
    moreover have "unat (t - rg_tail_cache r) < 2 ^ 63"
      using occ_bound [OF assms(1)] slots_small [OF assms(1)] o by (simp add: t_def)
    then have "unat (t + 1 - rg_tail_cache r) = Suc (unat (t - rg_tail_cache r))"
      using unat_succ [of "t - rg_tail_cache r"] by (simp add: algebra_simps)
    ultimately show ?thesis using o by (simp add: word_le_nat_alt)
  qed
  ultimately show "ring_ok (pop_publish r)"
    using assms(1) o by (auto simp: ring_ok_def pop_publish_def t_def h_def hc_def)
qed


lemma ring_ok_init:
  assumes "capacity \<le> 2 ^ 63"
  shows "ring_ok (SpscRing dflt capacity)" "contents (SpscRing dflt capacity) = []"
proof -
  define n where "n = (if capacity < 2 then 2 else capacity)"
  have n: "2 \<le> n" "n \<le> 2 ^ 63" using assms by (auto simp: n_def)
  obtain k where k: "bit_ceil n = 2 ^ k" "1 \<le> k" using bit_ceil_spec(3) [OF n(1)] by blast
  have "(2::nat) ^ k < 2 ^ 64" using bit_ceil_spec(2) [OF n(1)] n(2) k(1) by simp
  then have "k < 64" by (rule power_less_imp_less_exp [rotated]) simp
  then have "k \<le> 63" by simp
  with k show "ring_ok (SpscRing dflt capacity)"
    by (auto simp: ring_ok_def SpscRing_def Let_def n_def [symmetric] occ_def)
  show "contents (SpscRing dflt capacity) = []"
    by (simp add: contents_def occ_def SpscRing_def Let_def)
qed

section \<open>The calls run alone\<close>

text \<open>
  A bounded queue as a client sees it, and what the client may conclude. The ring provides it
  when each call sees the other index as it is, which is the case when no call of the other
  thread is in progress.
\<close>

locale bounded_queue =
  fixes ok :: "'q \<Rightarrow> bool" and abs :: "'q \<Rightarrow> 'a list" and cap :: "'q \<Rightarrow> nat"
    and put :: "'a \<Rightarrow> 'q \<Rightarrow> bool \<times> 'q" and get :: "'q \<Rightarrow> 'a option \<times> 'q"
  assumes abs_cap: "ok q \<Longrightarrow> length (abs q) \<le> cap q"
    and put_ok: "ok q \<Longrightarrow> put x q = (b, q') \<Longrightarrow>
      ok q' \<and> cap q' = cap q \<and> (b \<longleftrightarrow> length (abs q) < cap q) \<and> abs q' = (if b then abs q @ [x] else abs q)"
    and get_ok: "ok q \<Longrightarrow> get q = (y, q') \<Longrightarrow>
      ok q' \<and> cap q' = cap q \<and> (case abs q of [] \<Rightarrow> y = None \<and> abs q' = [] | x # xs \<Rightarrow> y = Some x \<and> abs q' = xs)"
begin

fun puts :: "'a list \<Rightarrow> 'q \<Rightarrow> nat \<times> 'q" where
  "puts [] q = (0, q)"
| "puts (x # xs) q =
     (case put x q of (b, q1) \<Rightarrow> case puts xs q1 of (n, q2) \<Rightarrow> ((if b then 0 else 1) + n, q2))"

fun gets :: "nat \<Rightarrow> 'q \<Rightarrow> 'a list \<times> 'q" where
  "gets 0 q = ([], q)"
| "gets (Suc n) q =
     (case get q of
        (None, q1) \<Rightarrow> gets n q1
      | (Some x, q1) \<Rightarrow> (case gets n q1 of (xs, q2) \<Rightarrow> (x # xs, q2)))"

text \<open>A burst of puts keeps the first ones that fit and counts the others as dropped.\<close>

lemma puts_spec:
  "ok q \<Longrightarrow> puts xs q = (n, q') \<Longrightarrow>
     ok q' \<and> cap q' = cap q \<and> abs q' = abs q @ take (cap q - length (abs q)) xs
       \<and> n = length xs - (cap q - length (abs q))"
proof (induction xs arbitrary: q n q')
  case (Cons x xs)
  obtain b q1 where p: "put x q = (b, q1)" by fastforce
  obtain m q2 where r: "puts xs q1 = (m, q2)" by fastforce
  note s = put_ok [OF Cons.prems(1) p]
  have IH: "ok q2 \<and> cap q2 = cap q1 \<and> abs q2 = abs q1 @ take (cap q1 - length (abs q1)) xs
       \<and> m = length xs - (cap q1 - length (abs q1))"
    using Cons.IH [OF _ r] s by blast
  have "q' = q2" "n = (if b then 0 else 1) + m" using Cons.prems(2) p r by auto
  with s IH abs_cap [OF Cons.prems(1)] show ?case
    by (cases "length (abs q) < cap q") (auto simp: take_Cons' split: if_splits)
qed simp

lemma gets_spec:
  "ok q \<Longrightarrow> gets n q = (ys, q') \<Longrightarrow>
     ok q' \<and> cap q' = cap q \<and> ys = take n (abs q) \<and> abs q' = drop n (abs q)"
proof (induction n arbitrary: q ys q')
  case (Suc n)
  obtain y q1 where g: "get q = (y, q1)" by fastforce
  note s = get_ok [OF Suc.prems(1) g]
  show ?case
  proof (cases "abs q")
    case Nil
    with s have q1: "ok q1" "cap q1 = cap q" "y = None" "abs q1 = []" by auto
    with Suc.IH [of q1 ys q'] Suc.prems(2) g Nil show ?thesis by auto
  next
    case (Cons x xs)
    with s have q1: "ok q1" "cap q1 = cap q" "y = Some x" "abs q1 = xs" by auto
    obtain zs q2 where r: "gets n q1 = (zs, q2)" by fastforce
    from Suc.IH [OF q1(1) r] Suc.prems(2) g Cons q1 r show ?thesis by auto
  qed
qed simp

end

definition put_alone :: "'a \<Rightarrow> 'a ring \<Rightarrow> bool \<times> 'a ring" where
  "put_alone v r = try_push (rg_tail r) v r"

definition get_alone :: "'a ring \<Rightarrow> 'a option \<times> 'a ring" where
  "get_alone r = try_pop (rg_head r) r"


lemma push_ok:
  assumes "ring_ok r" "\<not> full_at r (rg_tail_cache r)"
  shows "ring_ok (push_publish (push_write v r))" "contents (push_publish (push_write v r)) = contents r @ [v]"
proof -
  have u: "unat (rg_head r - rg_tail_cache r) < length (rg_slots r)" using assms not_full_at by blast
  then have o: "occ r < length (rg_slots r)"
    using assms(1) unat_diff_split [of "rg_tail r" "rg_tail_cache r" "rg_head r"] by (simp add: occ_def ring_ok_def)
  note w = push_write_ok [OF assms(1) o, of v]
  have "unat (rg_head (push_write v r) - rg_tail_cache (push_write v r)) < length (rg_slots (push_write v r))"
    using u by (simp add: push_write_def)
  note p = push_publish_ok [OF w(1) this]
  have "slot (push_write v r) (occ (push_write v r)) = slot r (occ r)"
    by (simp add: slot_def occ_def push_write_def)
  with w p show "ring_ok (push_publish (push_write v r))" "contents (push_publish (push_write v r)) = contents r @ [v]"
    by simp_all
qed

lemma try_push_spec:
  assumes "ring_ok r" "may_see (rg_tail_cache r) (rg_tail r) seen" "try_push seen v r = (b, r')"
  shows "ring_ok r'" "contents r' = (if b then contents r @ [v] else contents r)"
    "\<not> b \<Longrightarrow> length (rg_slots r) \<le> unat (rg_head r - seen)" "length (rg_slots r') = length (rg_slots r)"
proof -
  define r1 where "r1 = r\<lparr>rg_tail_cache := seen\<rparr>"
  have r1: "ring_ok r1" "contents r1 = contents r" "length (rg_slots r1) = length (rg_slots r)" "rg_head r1 = rg_head r"
    "rg_tail_cache r1 = seen"
    using refresh_tail_ok [OF assms(1,2)] by (auto simp: r1_def contents_def occ_def slot_def)
  have len: "length (rg_slots (push_publish (push_write v q))) = length (rg_slots q)" for q
    by (simp add: push_publish_def push_write_def)
  consider "\<not> full_at r (rg_tail_cache r)" "b" "r' = push_publish (push_write v r)"
    | "\<not> full_at r1 (rg_tail_cache r1)" "b" "r' = push_publish (push_write v r1)"
    | "full_at r1 seen" "\<not> b" "r' = r1"
    using assms(3) r1(5) by (auto simp: try_push_def r1_def [symmetric] Let_def split: if_splits)
  note cs = this
  show "ring_ok r'" by (rule cs) (use push_ok [OF assms(1)] push_ok [OF r1(1)] r1 in auto)
  show "contents r' = (if b then contents r @ [v] else contents r)"
    by (rule cs) (use push_ok [OF assms(1)] push_ok [OF r1(1)] r1 in auto)
  show "\<not> b \<Longrightarrow> length (rg_slots r) \<le> unat (rg_head r - seen)"
    by (rule cs) (use not_full_at [OF r1(1), of seen] r1 in auto)
  show "length (rg_slots r') = length (rg_slots r)" by (rule cs) (use r1 len in auto)
qed

lemma try_pop_spec:
  assumes "ring_ok r" "may_see (rg_head_cache r) (rg_head r) seen" "try_pop seen r = (y, r')"
  shows "ring_ok r'" "case y of None \<Rightarrow> contents r' = contents r \<and> seen = rg_tail r | Some x \<Rightarrow> contents r = x # contents r'"
    "length (rg_slots r') = length (rg_slots r)"
proof -
  define r1 where "r1 = r\<lparr>rg_head_cache := seen\<rparr>"
  have r1: "ring_ok r1" "contents r1 = contents r" "length (rg_slots r1) = length (rg_slots r)" "rg_tail r1 = rg_tail r"
    "rg_head_cache r1 = seen"
    using refresh_head_ok [OF assms(1,2)] by (auto simp: r1_def contents_def occ_def slot_def)
  have len: "length (rg_slots (pop_publish q)) = length (rg_slots q)" for q :: "'a ring"
    by (simp add: pop_publish_def)
  consider "rg_tail r \<noteq> rg_head_cache r" "y = Some (pop_read r)" "r' = pop_publish r"
    | "rg_tail r1 \<noteq> rg_head_cache r1" "y = Some (pop_read r1)" "r' = pop_publish r1"
    | "rg_tail r1 = seen" "y = None" "r' = r1"
    using assms(3) r1(5) by (auto simp: try_pop_def r1_def [symmetric] Let_def split: if_splits)
  note cs = this
  show "ring_ok r'" by (rule cs) (use pop_publish_ok [OF assms(1)] pop_publish_ok [OF r1(1)] r1 in auto)
  show "case y of None \<Rightarrow> contents r' = contents r \<and> seen = rg_tail r | Some x \<Rightarrow> contents r = x # contents r'"
    by (rule cs) (use pop_publish_ok [OF assms(1)] pop_publish_ok [OF r1(1)] r1 in auto)
  show "length (rg_slots r') = length (rg_slots r)" by (rule cs) (use r1 len in auto)
qed

lemma length_contents [simp]: "length (contents r) = occ r"
  by (simp add: contents_def)

lemma occ_0: "occ r = 0 \<longleftrightarrow> rg_head r = rg_tail r"
  by (auto simp: occ_def unat_eq_0)

interpretation ring: bounded_queue ring_ok contents ring_capacity put_alone get_alone
proof
  fix q :: "'a ring" and x b q' y
  show "ring_ok q \<Longrightarrow> length (contents q) \<le> ring_capacity q" by (simp add: ring_ok_def ring_capacity_def)
  assume ok: "ring_ok q"
  have see: "may_see (rg_tail_cache q) (rg_tail q) (rg_tail q)" "may_see (rg_head_cache q) (rg_head q) (rg_head q)"
    by (simp_all add: may_see_def)
  show "ring_ok q' \<and> ring_capacity q' = ring_capacity q \<and> (b \<longleftrightarrow> length (contents q) < ring_capacity q)
      \<and> contents q' = (if b then contents q @ [x] else contents q)" if "put_alone x q = (b, q')"
  proof -
    note s = try_push_spec [OF ok see(1) that [unfolded put_alone_def]]
    have "ring_ok q'" by (rule s(1))
    then have "length (contents q') \<le> ring_capacity q'" by (simp add: ring_ok_def ring_capacity_def)
    with s show ?thesis by (cases b) (auto simp: ring_capacity_def occ_def)
  qed
  show "ring_ok q' \<and> ring_capacity q' = ring_capacity q \<and>
      (case contents q of [] \<Rightarrow> y = None \<and> contents q' = [] | x # xs \<Rightarrow> y = Some x \<and> contents q' = xs)"
    if "get_alone q = (y, q')"
  proof -
    note s = try_pop_spec [OF ok see(2) that [unfolded get_alone_def]]
    have "contents q = []" if "rg_head q = rg_tail q" using that by (simp add: contents_def occ_0)
    with s show ?thesis by (cases y) (auto simp: ring_capacity_def)
  qed
qed

section \<open>The two threads interleaved\<close>

text \<open>
  What holds at every moment: the ring is well formed, what was popped and what is queued is what
  was pushed, in order, and each thread's next access is the one its checks allow.
\<close>

definition push_pc_ok :: "'a ring \<Rightarrow> 'a push_pc \<Rightarrow> bool" where
  "push_pc_ok r pc \<longleftrightarrow>
     (case pc of
        Push_idle \<Rightarrow> True
      | Push_check v \<Rightarrow> True
      | Push_write v \<Rightarrow> \<not> full_at r (rg_tail_cache r)
      | Push_publish v \<Rightarrow> \<not> full_at r (rg_tail_cache r) \<and> rg_slots r ! slot r (occ r) = v)"

definition pop_pc_ok :: "'a ring \<Rightarrow> 'a pop_pc \<Rightarrow> bool" where
  "pop_pc_ok r pc \<longleftrightarrow>
     (case pc of
        Pop_idle \<Rightarrow> True
      | Pop_check \<Rightarrow> True
      | Pop_read \<Rightarrow> rg_tail r \<noteq> rg_head_cache r
      | Pop_publish x \<Rightarrow> rg_tail r \<noteq> rg_head_cache r \<and> x = pop_read r)"

definition sys_inv :: "nat \<Rightarrow> 'a ring_sys \<Rightarrow> bool" where
  "sys_inv n s \<longleftrightarrow>
     ring_ok (rs_ring s) \<and> length (rg_slots (rs_ring s)) = n
     \<and> rs_pushed s = rs_popped s @ contents (rs_ring s)
     \<and> push_pc_ok (rs_ring s) (rs_push s) \<and> pop_pc_ok (rs_ring s) (rs_pop s)"


lemma push_side:
  assumes "rg_head r' = rg_head r" "rg_tail_cache r' = rg_tail_cache r" "length (rg_slots r') = length (rg_slots r)"
    "rg_slots r' ! unat (rg_head r AND rg_mask r) = rg_slots r ! unat (rg_head r AND rg_mask r)" "rg_mask r' = rg_mask r"
  shows "push_pc_ok r' pc \<longleftrightarrow> push_pc_ok r pc"
  using assms by (simp add: push_pc_ok_def full_at_def head_slot [symmetric] split: push_pc.splits)

lemma pop_side:
  assumes "rg_tail r' = rg_tail r" "rg_head_cache r' = rg_head_cache r" "pop_read r' = pop_read r"
  shows "pop_pc_ok r' pc \<longleftrightarrow> pop_pc_ok r pc"
  using assms by (simp add: pop_pc_ok_def split: pop_pc.splits)

lemma not_full_occ: "ring_ok r \<Longrightarrow> \<not> full_at r (rg_tail_cache r) \<Longrightarrow> occ r < length (rg_slots r)"
  using not_full_at [of r "rg_tail_cache r"] unat_diff_split [of "rg_tail r" "rg_tail_cache r" "rg_head r"]
  by (simp add: occ_def ring_ok_def)

lemma pop_nonempty: "ring_ok r \<Longrightarrow> rg_tail r \<noteq> rg_head_cache r \<Longrightarrow> 0 < occ r"
  using pop_publish_ok(2) [of r] length_contents [of r] by simp

lemma tail_slot: "unat (rg_tail r AND rg_mask r) = slot r 0"
  by (simp add: slot_def)

text \<open>The slot being written is never the slot being read.\<close>

lemma slots_disjoint:
  assumes "ring_ok r" "\<not> full_at r (rg_tail_cache r)" "rg_tail r \<noteq> rg_head_cache r"
  shows "unat (rg_head r AND rg_mask r) \<noteq> unat (rg_tail r AND rg_mask r)"
proof -
  have o: "occ r < length (rg_slots r)" "0 < occ r"
    using not_full_occ [OF assms(1,2)] pop_nonempty [OF assms(1,3)] by auto
  then have "0 < length (rg_slots r)" by linarith
  then show ?thesis
    unfolding head_slot tail_slot using slot_inject [OF assms(1) o(1)] o(2) by simp
qed

lemma full_at_fields: "full_at (r\<lparr>rg_tail_cache := c\<rparr>) t = full_at r t" "full_at (r\<lparr>rg_head_cache := c\<rparr>) t = full_at r t"
  "full_at (pop_publish r) t = full_at r t" "full_at (push_write v r) t = full_at r t"
  by (simp_all add: full_at_def pop_publish_def push_write_def)

lemma contents_fields: "contents (r\<lparr>rg_tail_cache := c\<rparr>) = contents r" "contents (r\<lparr>rg_head_cache := c\<rparr>) = contents r"
  by (simp_all add: contents_def occ_def slot_def)

lemma push_write_pop_side:
  assumes "ring_ok r" "\<not> full_at r (rg_tail_cache r)" "pop_pc_ok r pc"
  shows "pop_pc_ok (push_write v r) pc"
proof (cases "rg_tail r = rg_head_cache r")
  case True
  then show ?thesis using assms(3) by (auto simp: pop_pc_ok_def push_write_def split: pop_pc.splits)
next
  case False
  then have "pop_read (push_write v r) = pop_read r"
    using slots_disjoint [OF assms(1,2)] by (simp add: pop_read_def push_write_def)
  then show ?thesis using assms(3) pop_side [of "push_write v r" r] by (simp add: push_write_def)
qed

lemma sys_inv_store:
  assumes "sys_inv n s" "rs_push s = Push_write v"
  shows "sys_inv n (s\<lparr>rs_ring := push_write v (rs_ring s), rs_push := Push_publish v\<rparr>)"
proof -
  let ?r = "rs_ring s"
  have r: "ring_ok ?r" "\<not> full_at ?r (rg_tail_cache ?r)" using assms by (auto simp: sys_inv_def push_pc_ok_def)
  have "pop_pc_ok (push_write v ?r) (rs_pop s)" using push_write_pop_side [OF r] assms(1) by (simp add: sys_inv_def)
  moreover have "slot (push_write v ?r) (occ (push_write v ?r)) = slot ?r (occ ?r)"
    by (simp add: slot_def occ_def push_write_def)
  ultimately show ?thesis
    using assms r push_write_ok [OF r(1) not_full_occ [OF r], of v]
    by (auto simp: sys_inv_def push_pc_ok_def full_at_fields) (simp_all add: push_write_def)
qed

lemma sys_inv_publish:
  assumes "sys_inv n s" "rs_push s = Push_publish v"
  shows "sys_inv n (s\<lparr>rs_ring := push_publish (rs_ring s), rs_push := Push_idle, rs_pushed := rs_pushed s @ [v]\<rparr>)"
proof -
  let ?r = "rs_ring s"
  have r: "ring_ok ?r" "\<not> full_at ?r (rg_tail_cache ?r)" "rg_slots ?r ! slot ?r (occ ?r) = v"
    using assms by (auto simp: sys_inv_def push_pc_ok_def)
  have "unat (rg_head ?r - rg_tail_cache ?r) < length (rg_slots ?r)" using r not_full_at by blast
  note p = push_publish_ok [OF r(1) this]
  have "pop_pc_ok (push_publish ?r) (rs_pop s)"
    using assms(1) pop_side [of "push_publish ?r" ?r] by (simp add: sys_inv_def push_publish_def pop_read_def)
  with assms r p show ?thesis by (auto simp: sys_inv_def push_pc_ok_def) (simp_all add: push_publish_def)
qed

lemma sys_inv_step: "ring_step s s' \<Longrightarrow> sys_inv n s \<Longrightarrow> sys_inv n s'"
proof (induction rule: ring_step.induct)
  case (push_start s v)
  then show ?case by (auto simp: sys_inv_def push_pc_ok_def)
next
  case (push_refresh s v seen)
  let ?r = "rs_ring s"
  have "ring_ok (?r\<lparr>rg_tail_cache := seen\<rparr>)"
    using push_refresh by (intro refresh_tail_ok) (auto simp: sys_inv_def)
  moreover have "pop_pc_ok (?r\<lparr>rg_tail_cache := seen\<rparr>) (rs_pop s)"
    using push_refresh pop_side [of "?r\<lparr>rg_tail_cache := seen\<rparr>" ?r] by (simp add: sys_inv_def pop_read_def)
  ultimately show ?case
    using push_refresh by (auto simp: sys_inv_def push_pc_ok_def full_at_fields contents_fields)
next
  case (push_store s v)
  then show ?case by (intro sys_inv_store)
next
  case (push_release s v)
  then show ?case by (intro sys_inv_publish)
next
  case (pop_start s)
  then show ?case by (auto simp: sys_inv_def pop_pc_ok_def)
next
  case (pop_refresh s seen)
  let ?r = "rs_ring s"
  have "ring_ok (?r\<lparr>rg_head_cache := seen\<rparr>)"
    using pop_refresh by (intro refresh_head_ok) (auto simp: sys_inv_def)
  moreover have "push_pc_ok (?r\<lparr>rg_head_cache := seen\<rparr>) (rs_push s)"
    using pop_refresh push_side [of "?r\<lparr>rg_head_cache := seen\<rparr>" ?r] by (simp add: sys_inv_def)
  ultimately show ?case
    using pop_refresh by (auto simp: sys_inv_def pop_pc_ok_def contents_fields)
next
  case (pop_load s)
  then show ?case by (auto simp: sys_inv_def pop_pc_ok_def)
next
  case (pop_release s x)
  let ?r = "rs_ring s"
  have r: "ring_ok ?r" "rg_tail ?r \<noteq> rg_head_cache ?r" "x = pop_read ?r"
    using pop_release by (auto simp: sys_inv_def pop_pc_ok_def)
  note p = pop_publish_ok [OF r(1,2)]
  have "push_pc_ok (pop_publish ?r) (rs_push s)"
    using pop_release push_side [of "pop_publish ?r" ?r] by (simp add: sys_inv_def pop_publish_def)
  with pop_release r p show ?case by (auto simp: sys_inv_def pop_pc_ok_def) (simp_all add: pop_publish_def)
qed

lemma sys_inv_init: "capacity \<le> 2 ^ 63 \<Longrightarrow> sys_inv (ring_capacity (SpscRing dflt capacity)) (ring_init dflt capacity)"
  using ring_ok_init [of capacity dflt] by (simp add: sys_inv_def ring_init_def push_pc_ok_def pop_pc_ok_def ring_capacity_def)

lemma ring_reachable_inv:
  assumes "capacity \<le> 2 ^ 63" "ring_reachable dflt capacity s"
  shows "sys_inv (ring_capacity (SpscRing dflt capacity)) s"
  using assms(2) unfolding ring_reachable_def
  by (induction rule: rtranclp_induct) (auto intro: sys_inv_init [OF assms(1)] sys_inv_step)


section \<open>Properties\<close>

text \<open>
  C6: however the two threads interleave and however stale their loads are, what the consumer has
  popped is a prefix of what the producer has pushed, in order, with nothing lost or repeated,
  and never more than the capacity is in flight.
\<close>

theorem ring_fifo:
  assumes "capacity \<le> 2 ^ 63" "ring_reachable dflt capacity s"
  shows "rs_popped s = take (length (rs_popped s)) (rs_pushed s) \<and>
    length (rs_pushed s) - length (rs_popped s) \<le> ring_capacity (SpscRing dflt capacity) \<and>
    unat (ring_size (rs_ring s)) = length (rs_pushed s) - length (rs_popped s)"
  using ring_reachable_inv [OF assms] by (auto simp: sys_inv_def ring_ok_def ring_size_def occ_def [symmetric])

lemma ring_push_run:
  assumes "ring_step\<^sup>*\<^sup>* s0 s" "rs_push s = Push_idle" "\<not> full_at (rs_ring s) (rg_tail_cache (rs_ring s))"
  shows "ring_step\<^sup>*\<^sup>* s0 (s\<lparr>rs_ring := push_publish (push_write v (rs_ring s)), rs_pushed := rs_pushed s @ [v]\<rparr>)"
proof -
  let ?s1 = "s\<lparr>rs_push := Push_write v\<rparr>"
  let ?s2 = "?s1\<lparr>rs_ring := push_write v (rs_ring ?s1), rs_push := Push_publish v\<rparr>"
  have "ring_step s ?s1" using push_start [OF assms(2), of v] assms(3) by simp
  moreover have "ring_step ?s1 ?s2" by (rule push_store) simp
  moreover have "ring_step ?s2 (?s2\<lparr>rs_ring := push_publish (rs_ring ?s2), rs_push := Push_idle, rs_pushed := rs_pushed ?s2 @ [v]\<rparr>)"
    by (rule push_release) simp
  ultimately have "ring_step\<^sup>*\<^sup>* s0 (?s2\<lparr>rs_ring := push_publish (rs_ring ?s2), rs_push := Push_idle, rs_pushed := rs_pushed ?s2 @ [v]\<rparr>)"
    using assms(1) by (meson rtranclp.rtrancl_into_rtrancl)
  moreover have "?s2\<lparr>rs_ring := push_publish (rs_ring ?s2), rs_push := Push_idle, rs_pushed := rs_pushed ?s2 @ [v]\<rparr>
    = s\<lparr>rs_ring := push_publish (push_write v (rs_ring s)), rs_pushed := rs_pushed s @ [v]\<rparr>"
    using assms(2) by (cases s) simp
  ultimately show ?thesis by simp
qed

definition ring_sample :: "nat ring_sys" where
  "ring_sample = (ring_init 0 2)\<lparr>rs_ring := push_publish (push_write 7 (rs_ring (ring_init 0 2))), rs_pushed := [7]\<rparr>"

lemma ring_sample_reachable: "ring_reachable 0 2 ring_sample"
proof -
  have b: "bit_ceil 2 = 2" by (simp add: bit_ceil_def bit_width.simps)
  have "ring_step\<^sup>*\<^sup>* (ring_init 0 2) ((ring_init 0 2)\<lparr>rs_ring := push_publish (push_write 7 (rs_ring (ring_init 0 2))),
      rs_pushed := rs_pushed (ring_init 0 2) @ [7]\<rparr>)"
    by (rule ring_push_run) (simp_all add: ring_init_def full_at_def SpscRing_def b)
  then show ?thesis by (simp add: ring_reachable_def ring_sample_def ring_init_def)
qed

theorem ring_fifo_witness:
  "rs_popped ring_sample = take 0 (rs_pushed ring_sample) \<and> length (rs_pushed ring_sample) = 1"
  using ring_fifo [OF _ ring_sample_reachable] by (simp add: ring_sample_def ring_init_def)

text \<open>
  C26: when the producer is about to write a slot and the consumer is about to read one, both
  slots exist and they are different, so the two plain accesses never race.
\<close>

theorem ring_race_free:
  assumes "capacity \<le> 2 ^ 63" "ring_reachable dflt capacity s" "rs_push s = Push_write v" "rs_pop s = Pop_read"
  shows "unat (rg_head (rs_ring s) AND rg_mask (rs_ring s)) \<noteq> unat (rg_tail (rs_ring s) AND rg_mask (rs_ring s)) \<and>
    unat (rg_head (rs_ring s) AND rg_mask (rs_ring s)) < length (rg_slots (rs_ring s)) \<and>
    unat (rg_tail (rs_ring s) AND rg_mask (rs_ring s)) < length (rg_slots (rs_ring s))"
proof -
  have r: "ring_ok (rs_ring s)" "\<not> full_at (rs_ring s) (rg_tail_cache (rs_ring s))" "rg_tail (rs_ring s) \<noteq> rg_head_cache (rs_ring s)"
    using ring_reachable_inv [OF assms(1,2)] assms(3,4) by (auto simp: sys_inv_def push_pc_ok_def pop_pc_ok_def)
  show ?thesis
    using slots_disjoint [OF r] slot_less [OF r(1), of "occ (rs_ring s)"] slot_less [OF r(1), of 0]
    by (simp add: head_slot tail_slot)
qed

definition ring_busy :: "nat ring_sys" where
  "ring_busy = ring_sample\<lparr>rs_ring := (rs_ring ring_sample)\<lparr>rg_head_cache := 1\<rparr>, rs_push := Push_write 8, rs_pop := Pop_read\<rparr>"

lemma ring_busy_reachable: "ring_reachable 0 2 ring_busy"
proof -
  have b: "bit_ceil 2 = 2" by (simp add: bit_ceil_def bit_width.simps)
  note defs = ring_sample_def ring_init_def SpscRing_def push_publish_def push_write_def b
  let ?s1 = "ring_sample\<lparr>rs_push := Push_write 8\<rparr>"
  let ?s2 = "?s1\<lparr>rs_pop := Pop_check\<rparr>"
  have "ring_step ring_sample ?s1"
    using push_start [of ring_sample 8] by (simp add: full_at_def defs word_le_nat_alt)
  moreover have "ring_step ?s1 ?s2" using pop_start [of ?s1] by (simp add: defs)
  moreover have "ring_step ?s2 ring_busy"
    using pop_refresh [of ?s2 1] by (simp add: ring_busy_def defs may_see_def)
  ultimately show ?thesis
    using ring_sample_reachable unfolding ring_reachable_def by (meson rtranclp.rtrancl_into_rtrancl)
qed

theorem ring_race_free_witness:
  "unat (rg_head (rs_ring ring_busy) AND rg_mask (rs_ring ring_busy)) \<noteq> unat (rg_tail (rs_ring ring_busy) AND rg_mask (rs_ring ring_busy))"
  using ring_race_free [OF _ ring_busy_reachable, of 8] by (simp add: ring_busy_def)

text \<open>
  C32: on the abstract queue a push refuses only a ring that was full at the moment its load
  describes, and otherwise appends exactly the value; a pop returns the oldest value, or nothing
  when the index it saw says the ring is empty. The indices may wrap around.
\<close>

theorem ring_ops_refine:
  assumes "ring_ok r" "may_see (rg_tail_cache r) (rg_tail r) tail" "may_see (rg_head_cache r) (rg_head r) head"
  shows "(case try_push tail v r of (b, r') \<Rightarrow>
     ring_ok r' \<and> contents r' = (if b then contents r @ [v] else contents r) \<and>
     (b \<or> length (rg_slots r) \<le> unat (rg_head r - tail))) \<and>
   (case try_pop head r of (y, r') \<Rightarrow>
     ring_ok r' \<and> (case y of None \<Rightarrow> contents r' = contents r \<and> head = rg_tail r | Some x \<Rightarrow> contents r = x # contents r'))"
proof (cases "try_push tail v r"; cases "try_pop head r")
  fix b r1 y r2
  assume push: "try_push tail v r = (b, r1)" and pop: "try_pop head r = (y, r2)"
  then show ?thesis using try_push_spec [OF assms(1,2) push] try_pop_spec [OF assms(1,3) pop] by auto
qed

definition ring_wrapped :: "nat ring" where
  "ring_wrapped = \<lparr>rg_head = 0, rg_tail_cache = - 1, rg_tail = - 1, rg_head_cache = 0, rg_slots = [5, 6], rg_mask = 1\<rparr>"

lemma ring_wrapped_ok: "ring_ok ring_wrapped" "contents ring_wrapped = [6]"
proof -
  have o: "occ ring_wrapped = 1" by (simp add: occ_def ring_wrapped_def)
  show "contents ring_wrapped = [6]" unfolding contents_def o by (simp add: slot_def ring_wrapped_def)
  show "ring_ok ring_wrapped" unfolding ring_ok_def o by (auto simp: ring_wrapped_def intro!: exI [of _ 1])
qed

theorem ring_ops_refine_witness:
  "contents (snd (try_push (rg_tail ring_wrapped) 9 ring_wrapped)) = [6, 9] \<and>
   (case try_pop (rg_head ring_wrapped) ring_wrapped of (y, r') \<Rightarrow> y = Some 6 \<and> contents r' = [])"
proof -
  have see: "may_see (rg_tail_cache ring_wrapped) (rg_tail ring_wrapped) (rg_tail ring_wrapped)"
      "may_see (rg_head_cache ring_wrapped) (rg_head ring_wrapped) (rg_head ring_wrapped)"
    by (simp_all add: may_see_def)
  have "fst (try_push (rg_tail ring_wrapped) 9 ring_wrapped)" "fst (try_pop (rg_head ring_wrapped) ring_wrapped) = Some 6"
    by (simp_all add: try_push_def full_at_def try_pop_def pop_read_def ring_wrapped_def word_le_nat_alt)
  with ring_ops_refine [OF ring_wrapped_ok(1) see, of 9] show ?thesis
    by (simp add: ring_wrapped_ok(2) split: prod.splits)
qed

end
