(* ===== verification/Binary64_Arith.thy ===== *)
theory Binary64_Arith
  imports Charconv
begin

text \<open>
  The operations on \<open>double\<close> that the sources use: comparison, negation, \<open>fabs\<close>, addition,
  subtraction, multiplication, division and \<open>std::round\<close>, rounding once to nearest, ties to
  even, as IEEE 754 and the default rounding mode of the platform do. The lemmas say when a
  result is the exact one.
\<close>

section \<open>Comparison\<close>

definition signed_index :: "double \<Rightarrow> int" where
  "signed_index d = (if negative d then - int (index d) else int (index d))"

definition dless :: "double \<Rightarrow> double \<Rightarrow> bool" where
  "dless a b \<longleftrightarrow> \<not> is_nan a \<and> \<not> is_nan b \<and> signed_index a < signed_index b"

definition dle :: "double \<Rightarrow> double \<Rightarrow> bool" where
  "dle a b \<longleftrightarrow> \<not> is_nan a \<and> \<not> is_nan b \<and> signed_index a \<le> signed_index b"

definition deq :: "double \<Rightarrow> double \<Rightarrow> bool" where
  "deq a b \<longleftrightarrow> \<not> is_nan a \<and> \<not> is_nan b \<and> signed_index a = signed_index b"

section \<open>Arithmetic\<close>

definition dneg :: "double \<Rightarrow> double" where
  "dneg d = of_index (\<not> negative d) (index d)"

definition dabs :: "double \<Rightarrow> double" where
  "dabs d = of_index False (index d)"

definition dmul :: "double \<Rightarrow> double \<Rightarrow> double" where
  "dmul a b =
     (let s = (negative a \<noteq> negative b)
      in if is_nan a \<or> is_nan b \<or> (is_inf a \<and> is_zero b) \<or> (is_zero a \<and> is_inf b) then dnan
         else if is_inf a \<or> is_inf b then dinf s
         else let (n1, d1) = mag_frac (index a); (n2, d2) = mag_frac (index b)
              in round_frac s (n1 * n2) (d1 * d2))"

definition ddiv :: "double \<Rightarrow> double \<Rightarrow> double" where
  "ddiv a b =
     (let s = (negative a \<noteq> negative b)
      in if is_nan a \<or> is_nan b \<or> (is_inf a \<and> is_inf b) \<or> (is_zero a \<and> is_zero b) then dnan
         else if is_inf a \<or> is_zero b then dinf s
         else if is_inf b then dzero s
         else let (n1, d1) = mag_frac (index a); (n2, d2) = mag_frac (index b)
              in round_frac s (n1 * d2) (d1 * n2))"

definition dadd :: "double \<Rightarrow> double \<Rightarrow> double" where
  "dadd a b =
     (if is_nan a \<or> is_nan b \<or> (is_inf a \<and> is_inf b \<and> negative a \<noteq> negative b) then dnan
      else if is_inf a then a
      else if is_inf b then b
      else let (n1, d1) = mag_frac (index a); (n2, d2) = mag_frac (index b);
               sum = (if negative a then - int (n1 * d2) else int (n1 * d2))
                     + (if negative b then - int (n2 * d1) else int (n2 * d1))
           in if sum = 0 then dzero (negative a \<and> negative b)
              else round_frac (sum < 0) (nat \<bar>sum\<bar>) (d1 * d2))"

definition dsub :: "double \<Rightarrow> double \<Rightarrow> double" where
  "dsub a b = dadd a (dneg b)"

text \<open>\<open>std::round\<close>: to the nearest integer, halves away from zero.\<close>

definition dround :: "double \<Rightarrow> double" where
  "dround d =
     (if is_finite d
      then let (n, den) = mag_frac (index d) in round_frac (negative d) ((2 * n + den) div (2 * den)) 1
      else d)"

text \<open>The conversion of an integer, \<open>static_cast<double>\<close>.\<close>

definition double_of_int :: "int \<Rightarrow> double" where
  "double_of_int n = round_frac (n < 0) (nat \<bar>n\<bar>) 1"

section \<open>Exact results\<close>

definition sgn_of :: "bool \<Rightarrow> real" where
  "sgn_of s = (if s then - 1 else 1)"

lemma valof_of_index: "i < 2 ^ 63 \<Longrightarrow> valof (of_index s i) = sgn_of s * mag_value i"
  by (simp add: valof_def sgn_of_def)

lemma inf_index_small: "i \<le> inf_index \<Longrightarrow> i < 2 ^ 63"
  by (simp add: inf_index_def)

lemma finite_of_index: "i < inf_index \<Longrightarrow> is_finite (of_index s i)"
  using inf_index_small [of i] by (simp add: is_finite_def)

lemma round_frac_exact:
  assumes "0 < d" "real n / real d = mag_value i" "i < inf_index"
  shows "round_frac s n d = of_index s i"
  using round_mag_exact [OF assms(1,2)] assms(3) by (simp add: round_frac_def)

lemma mag_value_sub: "m < 2 ^ 53 \<Longrightarrow> mag_value m = real m * 2 powi (- 1074)"
proof (cases "m < 2 ^ 52")
  case True
  then show ?thesis by (simp add: mag_value_def sig_def ulp_exp_def)
next
  case False
  assume m: "m < 2 ^ 53"
  have "m div 2 ^ 52 = 1" using False m by (simp add: div_nat_eqI)
  moreover have "m mod 2 ^ 52 = m - 2 ^ 52" using \<open>m div 2 ^ 52 = 1\<close> by (simp add: modulo_nat_def)
  ultimately show ?thesis using False by (simp add: mag_value_def sig_def ulp_exp_def)
qed

lemma representable:
  assumes "m < 2 ^ 53" "k \<le> 2044"
  shows "\<exists>i < inf_index. mag_value i = real m * 2 powi (int k - 1074)"
  using assms
proof (induction k arbitrary: m)
  case 0
  then have "m < inf_index" by (simp add: inf_index_def)
  with 0 mag_value_sub [of m] show ?case by auto
next
  case (Suc k)
  show ?case
  proof (cases "m < 2 ^ 52")
    case True
    have "(2::real) powi (int k - 1073) = 2 * 2 powi (int k - 1074)"
      using powi_add_real [of 1 "int k - 1074"] by (simp add: algebra_simps)
    then show ?thesis using Suc.IH [of "2 * m"] True Suc.prems by (simp add: mult.assoc mult.left_commute)
  next
    case False
    define i where "i = Suc k * 2 ^ 52 + m"
    have m: "m = 2 ^ 52 + (m - 2 ^ 52)" "m - 2 ^ 52 < 2 ^ 52" using False Suc.prems(1) by auto
    have i: "i = Suc (Suc k) * 2 ^ 52 + (m - 2 ^ 52)" using m by (simp add: i_def)
    have "i div 2 ^ 52 = Suc (Suc k)" unfolding i using m(2) by simp
    moreover have "i mod 2 ^ 52 = m - 2 ^ 52" unfolding i using m(2) by (simp only: mod_mult_self3 mod_less)
    moreover have "\<not> i < 2 ^ 52" unfolding i by simp
    ultimately have "sig i = m" "ulp_exp i = int (Suc k) - 1074" using False by (simp_all add: sig_def ulp_exp_def)
    moreover have "i < inf_index" using Suc.prems by (simp add: i_def inf_index_def)
    ultimately show ?thesis by (intro exI [of _ i]) (simp add: mag_value_def)
  qed
qed

lemma representable_int: "n \<le> 2 ^ 53 \<Longrightarrow> \<exists>i < inf_index. mag_value i = real n"
proof (cases "n = 2 ^ 53")
  case True
  then show ?thesis using representable [of "2 ^ 52" 1075] by (auto simp: power_int_def)
next
  case False
  assume "n \<le> 2 ^ 53"
  with False show ?thesis using representable [of n 1074] by auto
qed


text \<open>
  \<open>exact r x\<close>: the double \<open>r\<close> is finite and is \<open>x\<close>, with the sign a computed zero has.
\<close>

definition fits :: "real \<Rightarrow> bool" where
  "fits x \<longleftrightarrow> (\<exists>i < inf_index. mag_value i = \<bar>x\<bar>)"

lemma fits_valof: "is_finite d \<Longrightarrow> fits (valof d)"
  by (auto simp: fits_def is_finite_def valof_def abs_mult intro!: exI [of _ "index d"])

lemma mag_frac_pos [simp]: "0 < snd (mag_frac i)"
  by (rule mag_frac_real(2))

lemma mag_frac_num: "real (fst (mag_frac i)) = mag_value i * real (snd (mag_frac i))"
  using mag_frac_real(1) [of i] mag_frac_real(2) [of i] by (simp add: field_simps)

lemma finite_cases: "is_finite d \<Longrightarrow> \<not> is_nan d \<and> \<not> is_inf d"
  by (simp add: is_finite_def is_nan_def is_inf_def)

lemma valof_sgn: "valof d = sgn_of (negative d) * mag_value (index d)"
  by (simp add: valof_def sgn_of_def)

lemma round_frac_fits:
  assumes "0 < d" "real n / real d = \<bar>x\<bar>" "fits x" "x = sgn_of s * \<bar>x\<bar>"
  shows "is_finite (round_frac s n d) \<and> valof (round_frac s n d) = x \<and> negative (round_frac s n d) = s"
proof -
  obtain i where i: "i < inf_index" "mag_value i = \<bar>x\<bar>" using assms(3) by (auto simp: fits_def)
  then have "round_frac s n d = of_index s i" using assms(1,2) by (intro round_frac_exact) auto
  with i assms(4) show ?thesis
    using finite_of_index [OF i(1)] inf_index_small [of i] by (simp add: valof_of_index)
qed

lemma dmul_exact:
  assumes "is_finite a" "is_finite b" "fits (valof a * valof b)"
  shows "is_finite (dmul a b) \<and> valof (dmul a b) = valof a * valof b"
proof -
  obtain n1 d1 n2 d2 where f: "mag_frac (index a) = (n1, d1)" "mag_frac (index b) = (n2, d2)" by fastforce
  define s where "s = (negative a \<noteq> negative b)"
  have v: "mag_value (index a) = real n1 / real d1" "mag_value (index b) = real n2 / real d2" "0 < d1" "0 < d2"
    using f mag_frac_real [of "index a"] mag_frac_real [of "index b"] by simp_all
  have "real (n1 * n2) / real (d1 * d2) = \<bar>valof a * valof b\<bar>" "valof a * valof b = sgn_of s * \<bar>valof a * valof b\<bar>"
    by (auto simp: valof_sgn v abs_mult sgn_of_def s_def)
  with round_frac_fits [of "d1 * d2" "n1 * n2" "valof a * valof b" s] assms v(3,4)
  have "is_finite (round_frac s (n1 * n2) (d1 * d2)) \<and> valof (round_frac s (n1 * n2) (d1 * d2)) = valof a * valof b" by simp
  then show ?thesis
    using finite_cases [OF assms(1)] finite_cases [OF assms(2)] by (simp add: dmul_def f s_def Let_def)
qed

lemma ddiv_exact:
  assumes "is_finite a" "is_finite b" "\<not> is_zero b" "fits (valof a / valof b)"
  shows "is_finite (ddiv a b) \<and> valof (ddiv a b) = valof a / valof b"
proof -
  obtain n1 d1 n2 d2 where f: "mag_frac (index a) = (n1, d1)" "mag_frac (index b) = (n2, d2)" by fastforce
  define s where "s = (negative a \<noteq> negative b)"
  have v: "mag_value (index a) = real n1 / real d1" "mag_value (index b) = real n2 / real d2" "0 < d1" "0 < d2"
    using f mag_frac_real [of "index a"] mag_frac_real [of "index b"] by simp_all
  have "mag_value (index b) \<noteq> mag_value 0" using assms(3) by (simp only: mag_value_eq_iff is_zero_def) simp
  then have n2: "0 < n2" using v by (auto intro: ccontr)
  have "real (n1 * d2) / real (d1 * n2) = \<bar>valof a / valof b\<bar>" "valof a / valof b = sgn_of s * \<bar>valof a / valof b\<bar>"
    by (auto simp: valof_sgn v abs_mult abs_divide sgn_of_def s_def)
  with round_frac_fits [of "d1 * n2" "n1 * d2" "valof a / valof b" s] assms v(3,4) n2
  have "is_finite (round_frac s (n1 * d2) (d1 * n2)) \<and> valof (round_frac s (n1 * d2) (d1 * n2)) = valof a / valof b" by simp
  then show ?thesis
    using finite_cases [OF assms(1)] finite_cases [OF assms(2)] assms(3) by (simp add: ddiv_def f s_def Let_def)
qed

lemma index_dneg [simp]: "index (dneg d) = index d" "negative (dneg d) = (\<not> negative d)"
  using index_less [of d] by (simp_all add: dneg_def)

lemma valof_dneg [simp]: "valof (dneg d) = - valof d" "is_finite (dneg d) = is_finite d"
  by (simp_all add: valof_def is_finite_def)

lemma dadd_exact:
  assumes "is_finite a" "is_finite b" "fits (valof a + valof b)"
  shows "is_finite (dadd a b) \<and> valof (dadd a b) = valof a + valof b"
proof -
  obtain n1 d1 n2 d2 where f: "mag_frac (index a) = (n1, d1)" "mag_frac (index b) = (n2, d2)" by fastforce
  have v: "mag_value (index a) = real n1 / real d1" "mag_value (index b) = real n2 / real d2" "0 < d1" "0 < d2"
    using f mag_frac_real [of "index a"] mag_frac_real [of "index b"] by simp_all
  define sum where "sum = (if negative a then - int (n1 * d2) else int (n1 * d2))
     + (if negative b then - int (n2 * d1) else int (n2 * d1))"
  have s: "valof a + valof b = of_int sum / real (d1 * d2)"
    using v(3,4) by (simp add: valof_def v sum_def field_simps)
  have r: "dadd a b = (if sum = 0 then dzero (negative a \<and> negative b) else round_frac (sum < 0) (nat \<bar>sum\<bar>) (d1 * d2))"
    using finite_cases [OF assms(1)] finite_cases [OF assms(2)] by (simp add: dadd_def f sum_def Let_def)
  show ?thesis
  proof (cases "sum = 0")
    case True
    then show ?thesis
      by (simp add: r s) (simp add: dzero_def valof_of_index finite_of_index inf_index_def)
  next
    case False
    have "real (nat \<bar>sum\<bar>) / real (d1 * d2) = \<bar>valof a + valof b\<bar>" using v(3,4) by (simp add: s abs_divide)
    moreover have "valof a + valof b = sgn_of (sum < 0) * \<bar>valof a + valof b\<bar>"
      using v(3,4) by (simp add: s sgn_of_def abs_divide)
    ultimately show ?thesis
      using round_frac_fits [of "d1 * d2" "nat \<bar>sum\<bar>" "valof a + valof b" "sum < 0"] assms(3) v(3,4) False by (simp add: r)
  qed
qed

lemma dsub_exact:
  "is_finite a \<Longrightarrow> is_finite b \<Longrightarrow> fits (valof a - valof b) \<Longrightarrow>
     is_finite (dsub a b) \<and> valof (dsub a b) = valof a - valof b"
  using dadd_exact [of a "dneg b"] by (simp add: dsub_def)

lemma valof_dabs: "valof (dabs d) = \<bar>valof d\<bar>" "is_finite (dabs d) = is_finite d"
  using index_less [of d] by (auto simp: dabs_def valof_def abs_mult is_finite_def)

text \<open>Comparison is comparison of the values.\<close>

lemma signed_index_le: "signed_index a \<le> signed_index b \<longleftrightarrow> valof a \<le> valof b"
proof -
  have le0: "- mag_value i \<le> mag_value j" for i j
    using mag_value_nonneg [of i] mag_value_nonneg [of j] by linarith
  have ge0: "mag_value i \<le> - mag_value j \<longleftrightarrow> i = 0 \<and> j = 0" for i j
    using mag_value_nonneg [of i] mag_value_nonneg [of j] mag_value_le_iff [of i 0] mag_value_le_iff [of j 0]
    by (auto simp del: mag_value_le_iff)
  show ?thesis by (auto simp: signed_index_def valof_def le0 ge0)
qed

lemma signed_index_eq: "signed_index a = signed_index b \<longleftrightarrow> valof a = valof b"
  using signed_index_le [of a b] signed_index_le [of b a] by auto

lemma dle_valof: "is_finite a \<Longrightarrow> is_finite b \<Longrightarrow> dle a b \<longleftrightarrow> valof a \<le> valof b"
  and dless_valof: "is_finite a \<Longrightarrow> is_finite b \<Longrightarrow> dless a b \<longleftrightarrow> valof a < valof b"
  and deq_valof: "is_finite a \<Longrightarrow> is_finite b \<Longrightarrow> deq a b \<longleftrightarrow> valof a = valof b"
  using signed_index_le [of a b] signed_index_le [of b a] signed_index_eq [of a b]
  by (auto simp: dle_def dless_def deq_def finite_cases not_le [symmetric])

section \<open>Rounding to an integer\<close>

lemma half_up_div: "0 < d \<Longrightarrow> int ((2 * n + d) div (2 * d)) = \<lfloor>real n / real d + 1 / 2\<rfloor>"
proof -
  assume d: "0 < d"
  have "real n / real d + 1 / 2 = real (2 * n + d) / real (2 * d)" using d by (simp add: field_simps)
  then show ?thesis by (simp only: floor_divide_of_nat_eq)
qed

lemma dround_exact:
  assumes "is_finite d"
  shows "is_finite (dround d) \<and> valof (dround d) = sgn_of (negative d) * of_int \<lfloor>\<bar>valof d\<bar> + 1 / 2\<rfloor>
    \<and> negative (dround d) = negative d"
proof -
  obtain n den where f: "mag_frac (index d) = (n, den)" by fastforce
  have v: "\<bar>valof d\<bar> = real n / real den" "0 < den"
    using f mag_frac_real [of "index d"] by (simp_all add: valof_sgn abs_mult sgn_of_def)
  define q where "q = (2 * n + den) div (2 * den)"
  have qi: "int q = \<lfloor>\<bar>valof d\<bar> + 1 / 2\<rfloor>" using half_up_div [OF v(2), of n] v(1) by (simp add: q_def)
  then have q: "of_int \<lfloor>\<bar>valof d\<bar> + 1 / 2\<rfloor> = real q" by (metis of_int_of_nat_eq)
  have "fits (real q)"
  proof (cases "0 \<le> ulp_exp (index d)")
    case True
    then have "den = 1" using f by (simp add: mag_frac_def)
    then have "real q = \<bar>valof d\<bar>" using v by (simp add: q_def)
    then show ?thesis using fits_valof [OF assms] by (simp add: fits_def)
  next
    case False
    then have "mag_value (index d) \<le> 2 ^ 53 * 2 powi (- 1)"
      unfolding mag_value_def using sig_less [of "index d"] powi2_le_iff [of "ulp_exp (index d)" "- 1"]
      by (intro mult_mono) auto
    then have "\<bar>valof d\<bar> \<le> 2 ^ 52" by (simp add: valof_sgn abs_mult sgn_of_def power_int_def)
    then have "\<lfloor>\<bar>valof d\<bar> + 1 / 2\<rfloor> \<le> 2 ^ 52" by (simp add: floor_le_iff)
    then have "int q \<le> 2 ^ 52" by (simp only: qi)
    then have "q \<le> 2 ^ 53" by simp
    then show ?thesis using representable_int [of q] by (auto simp: fits_def)
  qed
  then have "fits (sgn_of (negative d) * real q)" by (simp add: fits_def sgn_of_def)
  with round_frac_fits [of 1 q "sgn_of (negative d) * real q" "negative d"]
  show ?thesis using assms f q by (simp add: dround_def q_def abs_mult) (simp add: sgn_of_def)
qed

end
