(* ===== verification/Binary64_Bounds.thy ===== *)
theory Binary64_Bounds
  imports Binary64_Arith
begin

text \<open>
  More of \<open>double\<close>: \<open>std::floor\<close>, \<open>std::ceil\<close> and the conversions to integers, which are exact, and
  bounds for rounded results: an operation whose exact result lies between two doubles gives a
  result between them.
\<close>

section \<open>Floor, ceiling and the conversion to an index\<close>

definition dfloor :: "double \<Rightarrow> double" where
  "dfloor d =
     (if is_finite d
      then let (n, den) = mag_frac (index d)
           in round_frac (negative d) (if negative d then (n + den - 1) div den else n div den) 1
      else d)"

definition dceil :: "double \<Rightarrow> double" where
  "dceil d =
     (if is_finite d
      then let (n, den) = mag_frac (index d)
           in round_frac (negative d) (if negative d then n div den else (n + den - 1) div den) 1
      else d)"

text \<open>\<open>static_cast<std::size_t>\<close> of a value that is not negative.\<close>

definition size_of_double :: "double \<Rightarrow> nat" where
  "size_of_double d = (case mag_frac (index d) of (n, den) \<Rightarrow> n div den)"

text \<open>\<open>static_cast<std::int64_t>\<close> of a finite double.\<close>

definition int_of_double :: "double \<Rightarrow> int" where
  "int_of_double d = (case mag_frac (index d) of (n, den) \<Rightarrow> if negative d then - int (n div den) else int (n div den))"

section \<open>Bounds of rounded results\<close>

lemma round_frac_between:
  assumes "0 < d" "mag_value i \<le> real n / real d" "real n / real d \<le> mag_value j" "j < inf_index"
  obtains k where "i \<le> k" "k \<le> j" "round_frac s n d = of_index s k"
proof -
  have r: "round_mag (fst (mag_frac k)) (snd (mag_frac k)) = k" for k
    using round_mag_exact [OF mag_frac_real(2) mag_frac_real(1)] .
  have "i \<le> round_mag n d"
    using round_mag_mono [OF mag_frac_real(2) [of i] assms(1), of "fst (mag_frac i)" n] assms(2) by (simp add: mag_frac_real r)
  moreover have "round_mag n d \<le> j"
    using round_mag_mono [OF assms(1) mag_frac_real(2) [of j], of n "fst (mag_frac j)"] assms(3) by (simp add: mag_frac_real r)
  ultimately show thesis using that [of "round_mag n d"] assms(4) by (simp add: round_frac_def)
qed

lemma of_index_bounds:
  "k \<le> j \<Longrightarrow> j < inf_index \<Longrightarrow> is_finite (of_index False k) \<and> 0 \<le> valof (of_index False k) \<and> valof (of_index False k) = mag_value k"
  using inf_index_small [of k] by (simp add: finite_of_index valof_of_index sgn_of_def)

lemma valof_magnitude: "0 \<le> valof d \<Longrightarrow> valof d = mag_value (index d)"
  using mag_value_nonneg [of "index d"] by (cases "negative d") (simp_all add: valof_def del: mag_value_nonneg)

lemma valof_pos: "0 < valof d \<Longrightarrow> \<not> negative d"
  using mag_value_nonneg [of "index d"] by (cases "negative d") (simp_all add: valof_def del: mag_value_nonneg)

lemma fits_0: "fits 0"
  by (auto simp: fits_def inf_index_def intro!: exI [of _ 0])

lemma dmul_rounds:
  assumes "is_finite a" "is_finite b" "0 < valof a" "0 < valof b"
  obtains n d where "0 < d" "real n / real d = valof a * valof b" "dmul a b = round_frac False n d"
proof -
  obtain n1 d1 n2 d2 where f: "mag_frac (index a) = (n1, d1)" "mag_frac (index b) = (n2, d2)" by fastforce
  have v: "mag_value (index a) = real n1 / real d1" "mag_value (index b) = real n2 / real d2" "0 < d1" "0 < d2"
    using f mag_frac_real [of "index a"] mag_frac_real [of "index b"] by simp_all
  have sg: "\<not> negative a" "\<not> negative b" using assms(3,4) by (simp_all add: valof_pos)
  then have "real (n1 * n2) / real (d1 * d2) = valof a * valof b" by (simp add: valof_def v)
  moreover have "dmul a b = round_frac False (n1 * n2) (d1 * d2)"
    using finite_cases [OF assms(1)] finite_cases [OF assms(2)] sg by (simp add: dmul_def f)
  ultimately show thesis using that [of "d1 * d2" "n1 * n2"] v(3,4) by simp
qed

lemma dmul_le:
  assumes "is_finite a" "is_finite b" "0 \<le> valof a" "0 \<le> valof b" "valof b \<le> 1"
  shows "is_finite (dmul a b) \<and> 0 \<le> valof (dmul a b) \<and> valof (dmul a b) \<le> valof a"
proof (cases "valof a * valof b = 0")
  case True
  from dmul_exact [OF assms(1,2), unfolded True, OF fits_0] assms(3) show ?thesis by simp
next
  case False
  then have pos: "0 < valof a" "0 < valof b" using assms(3,4) by auto
  obtain n d where r: "0 < d" "real n / real d = valof a * valof b" "dmul a b = round_frac False n d"
    by (rule dmul_rounds [OF assms(1,2) pos])
  have va: "valof a = mag_value (index a)" using valof_magnitude [OF assms(3)] .
  have le: "real n / real d \<le> mag_value (index a)"
    using r(2) assms(5) pos mult_left_mono [of "valof b" 1 "valof a"] by (simp add: va)
  have fin: "index a < inf_index" using assms(1) by (simp add: is_finite_def)
  obtain k where k: "k \<le> index a" "round_frac False n d = of_index False k"
    by (rule round_frac_between [of d 0 n "index a" False]) (use r(1) le fin in simp_all)
  then show ?thesis using of_index_bounds [OF k(1) fin] r(3) by (simp add: va)
qed

text \<open>A factor below one takes a normal double to a smaller one.\<close>

lemma below_one:
  assumes "is_finite t" "0 \<le> valof t" "valof t < 1"
  shows "valof t \<le> 1 - 1 / 2 ^ 53"
proof -
  have one: "mag_value 0x3FF0000000000000 = 1" "mag_value 0x3FEFFFFFFFFFFFFF = 1 - 1 / 2 ^ 53"
    by (simp_all add: mag_value_def sig_def ulp_exp_def power_int_def power_divide)
  have v: "valof t = mag_value (index t)" using valof_magnitude [OF assms(2)] .
  have "mag_value (index t) < mag_value 0x3FF0000000000000" using assms(3) unfolding one(1) v .
  then have "index t \<le> 0x3FEFFFFFFFFFFFFF" by (simp only: mag_value_less_iff)
  then have "mag_value (index t) \<le> mag_value 0x3FEFFFFFFFFFFFFF" by (simp only: mag_value_le_iff)
  then show ?thesis unfolding one(2) v .
qed

lemma round_mag_pred:
  assumes "0 < d" "2 ^ 52 \<le> j" "real n / real d \<le> mag_value (Suc j) * (1 - 1 / 2 ^ 53)"
  shows "round_mag n d \<le> j"
proof (cases "real n / real d \<le> mag_value j")
  case True
  then show ?thesis
    using round_mag_mono [OF assms(1) mag_frac_real(2) [of j], of n "fst (mag_frac j)"]
      round_mag_exact [OF mag_frac_real(2) mag_frac_real(1), of j] by (simp add: mag_frac_real)
next
  case False
  define u where "u = (2 :: real) powi ulp_exp j"
  have u: "0 < u" by (simp add: u_def)
  have "mag_value j = real (sig j) * u" by (simp add: mag_value_def u_def)
  moreover have "2 ^ 52 \<le> real (sig j)" using sig_ge [OF assms(2)] by (metis of_nat_le_iff of_nat_numeral of_nat_power)
  ultimately have "2 ^ 52 * u \<le> mag_value j" using u by simp
  then have big: "2 ^ 52 * u < mag_value (Suc j)" using u unfolding mag_value_Suc u_def [symmetric] by linarith
  have "u / 2 < mag_value (Suc j) / 2 ^ 53" using big by (simp add: field_simps)
  moreover have "mag_value (Suc j) * (1 - 1 / 2 ^ 53) = mag_value (Suc j) - mag_value (Suc j) / 2 ^ 53" by (simp add: algebra_simps)
  ultimately have "real n / real d < mag_value (Suc j) - u / 2" using assms(3) by linarith
  then have "real n / real d < mag_value j + u / 2" unfolding mag_value_Suc u_def [symmetric] by simp
  moreover have "real n / real d < mag_value (Suc j)" using calculation u unfolding mag_value_Suc u_def [symmetric] by linarith
  ultimately show ?thesis
    using round_mag_between [OF assms(1), of j n] False by (simp add: u_def)
qed

lemma dmul_pred:
  assumes "is_finite a" "is_finite t" "index a = Suc j" "2 ^ 52 \<le> j" "0 \<le> valof a" "0 \<le> valof t" "valof t < 1"
  shows "is_finite (dmul a t) \<and> 0 \<le> valof (dmul a t) \<and> valof (dmul a t) \<le> mag_value j"
proof (cases "valof a * valof t = 0")
  case True
  from dmul_exact [OF assms(1,2), unfolded True, OF fits_0] show ?thesis by simp
next
  case False
  then have pos: "0 < valof a" "0 < valof t" using assms(5,6) by auto
  obtain n d where r: "0 < d" "real n / real d = valof a * valof t" "dmul a t = round_frac False n d"
    by (rule dmul_rounds [OF assms(1,2) pos])
  have va: "valof a = mag_value (Suc j)" using valof_magnitude [OF assms(5)] assms(3) by simp
  have "real n / real d \<le> mag_value (Suc j) * (1 - 1 / 2 ^ 53)"
    unfolding r(2) va [symmetric] using below_one [OF assms(2,6,7)] pos(1) by (intro mult_left_mono) simp_all
  from round_mag_pred [OF r(1) assms(4) this] have k: "round_mag n d \<le> j" .
  have fin: "j < inf_index" using assms(1,3) by (simp add: is_finite_def)
  have "dmul a t = of_index False (round_mag n d)" using r(3) k fin by (simp add: round_frac_def)
  with of_index_bounds [OF k fin] k show ?thesis by simp
qed

lemma dadd_between:
  assumes "is_finite a" "is_finite b" "0 \<le> valof a + valof b" "mag_value i \<le> valof a + valof b"
    "valof a + valof b \<le> mag_value j" "j < inf_index"
  shows "is_finite (dadd a b) \<and> mag_value i \<le> valof (dadd a b) \<and> valof (dadd a b) \<le> mag_value j"
proof (cases "valof a + valof b = 0")
  case True
  from dadd_exact [OF assms(1,2), unfolded True, OF fits_0] assms(4,5) True show ?thesis by simp
next
  case False
  obtain n1 d1 n2 d2 where f: "mag_frac (index a) = (n1, d1)" "mag_frac (index b) = (n2, d2)" by fastforce
  have v: "mag_value (index a) = real n1 / real d1" "mag_value (index b) = real n2 / real d2" "0 < d1" "0 < d2"
    using f mag_frac_real [of "index a"] mag_frac_real [of "index b"] by simp_all
  define sum where "sum = (if negative a then - int (n1 * d2) else int (n1 * d2))
     + (if negative b then - int (n2 * d1) else int (n2 * d1))"
  have s: "valof a + valof b = of_int sum / real (d1 * d2)"
    using v(3,4) by (simp add: valof_def v sum_def field_simps)
  have dd: "0 < real (d1 * d2)" using v by simp
  have sum: "0 < sum"
  proof -
    have "0 < of_int sum / real (d1 * d2)" using False assms(3) s by linarith
    then show ?thesis using dd by (simp add: zero_less_divide_iff)
  qed
  have q: "real (nat \<bar>sum\<bar>) / real (d1 * d2) = valof a + valof b" using sum by (simp add: s)
  have "0 < d1 * d2" using v by simp
  then obtain k where k: "i \<le> k" "k \<le> j" "round_frac False (nat \<bar>sum\<bar>) (d1 * d2) = of_index False k"
    by (rule round_frac_between [of "d1 * d2" i "nat \<bar>sum\<bar>" j False]) (use q assms(4-6) in simp_all)
  moreover have "dadd a b = round_frac False (nat \<bar>sum\<bar>) (d1 * d2)"
    using finite_cases [OF assms(1)] finite_cases [OF assms(2)] sum by (simp add: dadd_def f sum_def [symmetric] Let_def)
  ultimately show ?thesis using of_index_bounds [OF k(2) assms(6)] by simp
qed

lemma round_whole:
  assumes "is_finite d" "mag_frac (index d) = (n, den)" "q = n div den \<or> q = (n + den - 1) div den"
  shows "is_finite (round_frac (negative d) q 1) \<and> valof (round_frac (negative d) q 1) = sgn_of (negative d) * real q"
proof -
  have v: "mag_value (index d) = real n / real den" "0 < den" using assms(2) mag_frac_real [of "index d"] by simp_all
  have "fits (real q)"
  proof (cases "0 \<le> ulp_exp (index d)")
    case True
    then have "den = 1" using assms(2) by (simp add: mag_frac_def split: if_splits)
    then have "real q = mag_value (index d)" using v assms(3) by auto
    then show ?thesis using assms(1) by (auto simp: fits_def is_finite_def intro!: exI [of _ "index d"])
  next
    case False
    then have "mag_value (index d) \<le> 2 ^ 53 * 2 powi (- 1)"
      unfolding mag_value_def using sig_less [of "index d"] powi2_le_iff [of "ulp_exp (index d)" "- 1"]
      by (intro mult_mono) auto
    then have "real n \<le> 2 ^ 52 * real den" using v by (simp add: power_int_def field_simps)
    then have n: "n \<le> 2 ^ 52 * den" using of_nat_le_iff [of n "2 ^ 52 * den", where ?'a = real] by simp
    then have "n + den - 1 < (2 ^ 52 + 1) * den" using v(2) by simp
    then have "(n + den - 1) div den < 2 ^ 52 + 1" by (simp only: div_less_iff_less_mult v(2))
    moreover have "n div den \<le> (n + den - 1) div den" using v(2) by (intro div_le_mono) simp
    ultimately have "q \<le> 2 ^ 53" using assms(3) by auto
    then show ?thesis using representable_int [of q] by (auto simp: fits_def)
  qed
  then have "fits (sgn_of (negative d) * real q)" by (simp add: fits_def sgn_of_def)
  then show ?thesis
    using round_frac_fits [of 1 q "sgn_of (negative d) * real q" "negative d"] by (simp add: abs_mult sgn_of_def)
qed

lemma size_of_whole: "valof d = real q \<Longrightarrow> size_of_double d = q"
proof -
  assume "valof d = real q"
  then have "mag_value (index d) = real q" using valof_magnitude [of d] by simp
  moreover obtain n den where f: "mag_frac (index d) = (n, den)" by fastforce
  ultimately have "real n = real q * real den" "0 < den" using mag_frac_num [of "index d"] mag_frac_pos [of "index d"] by simp_all
  then have "n = q * den" using of_nat_eq_iff [of n "q * den", where ?'a = real] by simp
  with f \<open>0 < den\<close> show ?thesis by (simp add: size_of_double_def)
qed

lemma ceil_div:
  assumes "0 < den"
  shows "int ((n + den - 1) div den) = \<lceil>real n / real den\<rceil>"
proof -
  define q where "q = (n + den - 1) div den"
  have "q * den \<le> n + den - 1" by (simp add: q_def div_times_less_eq_dividend)
  moreover have "n + den - 1 < Suc q * den" 
    unfolding q_def using dividend_less_div_times [OF assms, of "n + den - 1"] by simp
  ultimately have "q * den < n + den" "n \<le> q * den" using assms by auto
  then have "real q * real den < real n + real den" "real n \<le> real q * real den"
    by (metis of_nat_add of_nat_less_iff of_nat_mult, metis of_nat_le_iff of_nat_mult)
  then have "real q - 1 < real n / real den" "real n / real den \<le> real q" using assms by (simp_all add: field_simps)
  then have "\<lceil>real n / real den\<rceil> = int q" by (intro ceiling_unique) simp_all
  then show ?thesis by (simp add: q_def)
qed

lemma floor_index:
  assumes "is_finite d" "0 \<le> valof d"
  shows "size_of_double (dfloor d) = nat \<lfloor>valof d\<rfloor>" "size_of_double (dceil d) = nat \<lceil>valof d\<rceil>"
proof -
  obtain n den where f: "mag_frac (index d) = (n, den)" by fastforce
  have v: "valof d = real n / real den" "0 < den"
    using valof_magnitude [OF assms(2)] f mag_frac_real [of "index d"] by simp_all
  have fl: "nat \<lfloor>valof d\<rfloor> = n div den" unfolding v(1) floor_divide_of_nat_eq by simp
  have ce: "nat \<lceil>valof d\<rceil> = (n + den - 1) div den" unfolding v(1) ceil_div [OF v(2), symmetric] by simp
  have z: "n = 0" if "negative d"
  proof -
    have "mag_value (index d) \<le> 0" using that assms(2) by (simp add: valof_def)
    then have "real n / real den \<le> 0" using valof_magnitude [OF assms(2)] v(1) by simp
    then show ?thesis using v(2) by (simp add: divide_le_0_iff)
  qed
  have "valof (dfloor d) = real (n div den)"
    using round_whole [OF assms(1) f disjI1 [OF refl]] z v(2) assms(1)
    by (cases "negative d") (simp_all add: dfloor_def f sgn_of_def)
  moreover have "valof (dceil d) = real ((n + den - 1) div den)"
    using round_whole [OF assms(1) f disjI2 [OF refl]] round_whole [OF assms(1) f disjI1 [OF refl]] z v(2) assms(1)
    by (cases "negative d") (simp_all add: dceil_def f sgn_of_def)
  ultimately show "size_of_double (dfloor d) = nat \<lfloor>valof d\<rfloor>" "size_of_double (dceil d) = nat \<lceil>valof d\<rceil>"
    unfolding fl ce by (simp_all only: size_of_whole)
qed

lemma valof_dfloor:
  assumes "is_finite d"
  shows "is_finite (dfloor d) \<and> valof (dfloor d) = of_int \<lfloor>valof d\<rfloor>"
proof -
  obtain n den where f: "mag_frac (index d) = (n, den)" by fastforce
  have v: "mag_value (index d) = real n / real den" "0 < den" using f mag_frac_real [of "index d"] by simp_all
  show ?thesis
  proof (cases "negative d")
    case True
    have "real ((n + den - 1) div den) = of_int \<lceil>real n / real den\<rceil>"
      using ceil_div [OF v(2), of n] by (metis of_int_of_nat_eq)
    then show ?thesis
      using round_whole [OF assms f disjI2 [OF refl]] True assms v(1)
      by (simp add: dfloor_def f sgn_of_def valof_def floor_minus)
  next
    case False
    have "real (n div den) = of_int \<lfloor>real n / real den\<rfloor>" by (simp add: floor_divide_of_nat_eq)
    then show ?thesis
      using round_whole [OF assms f disjI1 [OF refl]] False assms v(1)
      by (simp add: dfloor_def f sgn_of_def valof_def)
  qed
qed

lemma int_of_whole:
  assumes "valof d = of_int k"
  shows "int_of_double d = k"
proof -
  obtain n den where f: "mag_frac (index d) = (n, den)" by fastforce
  have v: "mag_value (index d) = real n / real den" "0 < den" using f mag_frac_real [of "index d"] by simp_all
  have "mag_value (index d) = real (nat \<bar>k\<bar>)"
  proof -
    have "\<bar>valof d\<bar> = mag_value (index d)" by (simp add: valof_def)
    then show ?thesis using assms by simp
  qed
  then have "real n = real (nat \<bar>k\<bar> * den)" using v by (simp add: field_simps)
  then have n: "n = nat \<bar>k\<bar> * den" by (simp only: of_nat_eq_iff)
  then have q: "n div den = nat \<bar>k\<bar>" using v(2) by simp
  have "negative d \<Longrightarrow> k \<le> 0" "\<not> negative d \<Longrightarrow> 0 \<le> k"
    using assms mag_value_nonneg [of "index d"] by (simp_all add: valof_def del: mag_value_nonneg)
  then show ?thesis by (auto simp: int_of_double_def f q)
qed

text \<open>Rounding does not take a result past a representable bound.\<close>

lemma round_frac_bound:
  assumes "0 < d" "real n / real d \<le> mag_value j" "j < inf_index"
  shows "is_finite (round_frac s n d) \<and> \<bar>valof (round_frac s n d)\<bar> \<le> mag_value j"
proof -
  obtain k where k: "k \<le> j" "round_frac s n d = of_index s k"
    by (rule round_frac_between [of d 0 n j s]) (use assms in simp_all)
  moreover have "k < inf_index" "k < 2 ^ 63" using k(1) assms(3) inf_index_small [of k] by simp_all
  ultimately show ?thesis by (simp add: finite_of_index valof_of_index abs_mult sgn_of_def)
qed

lemma ddiv_bound:
  assumes "is_finite a" "is_finite b" "\<not> is_zero b" "\<bar>valof a / valof b\<bar> \<le> mag_value j" "j < inf_index"
  shows "is_finite (ddiv a b) \<and> \<bar>valof (ddiv a b)\<bar> \<le> mag_value j"
proof -
  obtain n1 d1 n2 d2 where f: "mag_frac (index a) = (n1, d1)" "mag_frac (index b) = (n2, d2)" by fastforce
  have v: "mag_value (index a) = real n1 / real d1" "mag_value (index b) = real n2 / real d2" "0 < d1" "0 < d2"
    using f mag_frac_real [of "index a"] mag_frac_real [of "index b"] by simp_all
  have "mag_value (index b) \<noteq> mag_value 0" using assms(3) by (simp only: mag_value_eq_iff is_zero_def) simp
  then have n2: "0 < n2" using v by (auto intro: ccontr)
  have "real (n1 * d2) / real (d1 * n2) = \<bar>valof a / valof b\<bar>"
    by (auto simp: valof_sgn v abs_mult abs_divide sgn_of_def)
  then have "real (n1 * d2) / real (d1 * n2) \<le> mag_value j" using assms(4) by simp
  with round_frac_bound [of "d1 * n2" "n1 * d2" j] assms(5) v(3) n2 show ?thesis
    using finite_cases [OF assms(1)] finite_cases [OF assms(2)] assms(3) by (simp add: ddiv_def f Let_def)
qed

lemma dsub_bound:
  assumes "is_finite a" "is_finite b" "\<bar>valof a - valof b\<bar> \<le> mag_value j" "j < inf_index"
  shows "is_finite (dsub a b) \<and> \<bar>valof (dsub a b)\<bar> \<le> mag_value j"
proof -
  obtain n1 d1 n2 d2 where f: "mag_frac (index a) = (n1, d1)" "mag_frac (index b) = (n2, d2)" by fastforce
  have v: "mag_value (index a) = real n1 / real d1" "mag_value (index b) = real n2 / real d2" "0 < d1" "0 < d2"
    using f mag_frac_real [of "index a"] mag_frac_real [of "index b"] by simp_all
  define sum where "sum = (if negative a then - int (n1 * d2) else int (n1 * d2))
     + (if \<not> negative b then - int (n2 * d1) else int (n2 * d1))"
  have s: "valof a - valof b = of_int sum / real (d1 * d2)"
    using v(3,4) by (simp add: valof_def v sum_def field_simps)
  have r: "dsub a b = (if sum = 0 then dzero (negative a \<and> \<not> negative b) else round_frac (sum < 0) (nat \<bar>sum\<bar>) (d1 * d2))"
    using finite_cases [OF assms(1)] finite_cases [of "dneg b"] assms(2) by (simp add: dsub_def dadd_def f sum_def Let_def)
  have "real (nat \<bar>sum\<bar>) / real (d1 * d2) \<le> mag_value j" using assms(3) v(3,4) by (simp add: s abs_divide)
  with round_frac_bound [of "d1 * d2" "nat \<bar>sum\<bar>" j "sum < 0"] assms(4) v(3,4) show ?thesis
    by (simp add: r) (simp add: dzero_def valof_of_index finite_of_index inf_index_def)
qed

lemma power_index: "k \<le> 53 \<Longrightarrow> \<exists>j < inf_index. mag_value j = 2 ^ k"
  using representable_int [of "2 ^ k"] power_increasing [of k 53 "2 :: nat"] by auto

lemma double_of_nat_exact: "n \<le> 2 ^ 53 \<Longrightarrow> is_finite (double_of_int (int n)) \<and> valof (double_of_int (int n)) = real n"
  using round_frac_fits [of 1 n "real n" False] representable_int [of n]
  by (auto simp: double_of_int_def fits_def sgn_of_def)

section \<open>Interpolation\<close>

lemma mag_value_multiple: "\<exists>m. mag_value i = real m * 2 powi (- 1074)"
proof -
  have "(2::real) powi ulp_exp i = 2 powi (ulp_exp i + 1074) * 2 powi (- 1074)" using powi_add_real [of "ulp_exp i + 1074" "- 1074"] by simp
  also have "(2::real) powi (ulp_exp i + 1074) = real (2 ^ nat (ulp_exp i + 1074))" using ulp_exp_ge [of i] by (simp add: power_int_def)
  finally have "mag_value i = real (sig i * 2 ^ nat (ulp_exp i + 1074)) * 2 powi (- 1074)" by (simp add: mag_value_def)
  then show ?thesis by blast
qed

lemma difference_fits:
  assumes "mag_value i \<le> mag_value j" "mag_value j - mag_value i \<le> mag_value (2 ^ 53 - 1)"
  shows "fits (mag_value j - mag_value i)"
proof -
  obtain m n where m: "mag_value i = real m * 2 powi (- 1074)" "mag_value j = real n * 2 powi (- 1074)"
    using mag_value_multiple by metis
  have "m \<le> n" using assms(1) unfolding m by simp
  then have d: "mag_value j - mag_value i = real (n - m) * 2 powi (- 1074)" unfolding m by (simp add: of_nat_diff left_diff_distrib)
  have "mag_value (2 ^ 53 - 1) = real (2 ^ 53 - 1) * 2 powi (- 1074)" by (rule mag_value_sub) simp
  then have "real (n - m) \<le> real (2 ^ 53 - 1)" using assms(2) unfolding d by simp
  then have "n - m \<le> 2 ^ 53 - 1" by (simp only: of_nat_le_iff)
  then have "n - m < 2 ^ 53" by simp
  with mag_value_sub [OF this] show ?thesis
    unfolding d by (intro fits_def [THEN iffD2] exI [of _ "n - m"]) (simp add: inf_index_def)
qed

lemma fraction_fits:
  assumes "is_finite r" "0 \<le> valof r"
  shows "fits (valof r - of_int \<lfloor>valof r\<rfloor>)"
proof (cases "0 \<le> ulp_exp (index r)")
  case True
  then have k: "valof r = of_int (int (sig (index r) * 2 ^ nat (ulp_exp (index r))))"
    using valof_magnitude [OF assms(2)] by (simp add: mag_value_def power_int_def)
  have "valof r - of_int \<lfloor>valof r\<rfloor> = 0" unfolding k by (simp only: floor_of_int diff_self)
  then show ?thesis by (simp only: fits_0)
next
  case False
  define e where "e = nat (- ulp_exp (index r))"
  define s where "s = sig (index r)"
  have u: "(2::real) powi ulp_exp (index r) = 1 / 2 ^ e"
    using False by (simp add: power_int_def e_def inverse_eq_divide power_one_over)
  have v: "valof r = real s / 2 ^ e" unfolding valof_magnitude [OF assms(2)] mag_value_def u s_def by simp
  have fl: "\<lfloor>valof r\<rfloor> = int (s div 2 ^ e)" unfolding v using floor_divide_of_nat_eq [of s "2 ^ e", where ?'a = real] by simp
  have "real (s div 2 ^ e * 2 ^ e + s mod 2 ^ e) = real s" by (simp only: div_mult_mod_eq)
  then have "real (s mod 2 ^ e) = real s - real (s div 2 ^ e) * 2 ^ e"
    unfolding of_nat_add of_nat_mult of_nat_power of_nat_numeral by linarith
  then have d: "valof r - of_int \<lfloor>valof r\<rfloor> = real (s mod 2 ^ e) / 2 ^ e" unfolding fl unfolding v by (simp add: diff_divide_distrib)
  have "s mod 2 ^ e < 2 ^ 53" 
    using sig_less [of "index r"] mod_less_eq_dividend [of s "2 ^ e"] unfolding s_def [symmetric] by (rule le_less_trans [rotated])
  moreover have "int (nat (ulp_exp (index r) + 1074)) - 1074 = ulp_exp (index r)" "nat (ulp_exp (index r) + 1074) \<le> 2044"
    using ulp_exp_ge [of "index r"] False by simp_all
  ultimately obtain i where "i < inf_index" "mag_value i = real (s mod 2 ^ e) * 2 powi ulp_exp (index r)"
    using representable [of "s mod 2 ^ e" "nat (ulp_exp (index r) + 1074)"] by auto
  moreover have "real (s mod 2 ^ e) * 2 powi ulp_exp (index r) = real (s mod 2 ^ e) / 2 ^ e"
    unfolding u by simp
  ultimately show ?thesis unfolding d by (auto simp: fits_def)
qed

text \<open>The interpolation of two values never leaves the interval between them.\<close>

lemma interpolation_between:
  assumes "is_finite x" "is_finite y" "is_finite t" "0 \<le> valof x" "valof x \<le> valof y" "0 \<le> valof t" "valof t < 1"
  shows "is_finite (dadd x (dmul (dsub y x) t)) \<and> valof x \<le> valof (dadd x (dmul (dsub y x) t)) \<and>
    valof (dadd x (dmul (dsub y x) t)) \<le> valof y"
proof -
  have v: "valof x = mag_value (index x)" "valof y = mag_value (index y)" "index y < inf_index"
    using assms valof_magnitude by (auto simp: is_finite_def)
  have sub: "is_finite (dsub y x) \<and> mag_value i \<le> valof (dsub y x) \<and> valof (dsub y x) \<le> mag_value j"
    if "mag_value i \<le> valof y - valof x" "valof y - valof x \<le> mag_value j" "j < inf_index" for i j
    using dadd_between [of y "dneg x" i j] that assms by (simp add: dsub_def)
  have d: "is_finite (dsub y x)" "0 \<le> valof (dsub y x)" using sub [of 0 "index y"] v assms(4,5) by simp_all
  have "is_finite (dmul (dsub y x) t) \<and> 0 \<le> valof (dmul (dsub y x) t) \<and> valof (dmul (dsub y x) t) \<le> valof y - valof x"
  proof (cases "fits (valof y - valof x)")
    case True
    then have "valof (dsub y x) = valof y - valof x" using dsub_exact [OF assms(2,1)] by simp
    with dmul_le [OF d(1) assms(3) d(2) assms(6)] assms(7) show ?thesis by simp
  next
    case False
    then have big: "mag_value (2 ^ 53 - 1) < valof y - valof x"
      using difference_fits [of "index x" "index y"] assms(5) unfolding v by linarith
    have le: "valof y - valof x \<le> mag_value (index y)" using v assms(4) by simp
    have dv: "valof (dsub y x) = mag_value (index (dsub y x))" using valof_magnitude [OF d(2)] .
    have "mag_value (2 ^ 53 - 1) \<le> mag_value (index (dsub y x))"
      using sub [OF less_imp_le [OF big] le v(3)] dv by simp
    then have "2 ^ 53 - 1 \<le> index (dsub y x)" by (simp only: mag_value_le_iff)
    then obtain j where j: "index (dsub y x) = Suc j" "2 ^ 52 \<le> j" by (cases "index (dsub y x)") simp_all
    have "mag_value j < valof y - valof x"
    proof (rule ccontr)
      assume "\<not> mag_value j < valof y - valof x"
      moreover have "j < inf_index" using d(1) j(1) by (simp add: is_finite_def)
      ultimately have "mag_value (Suc j) \<le> mag_value j" using sub [of 0 j] assms(5) dv j(1) by simp
      then show False by (simp only: mag_value_le_iff)
    qed
    with dmul_pred [OF d(1) assms(3) j d(2) assms(6,7)] show ?thesis by simp
  qed
  then have m: "is_finite (dmul (dsub y x) t)" "0 \<le> valof (dmul (dsub y x) t)" "valof x + valof (dmul (dsub y x) t) \<le> valof y" by simp_all
  show ?thesis using dadd_between [OF assms(1) m(1), of "index x" "index y"] m(2,3) v assms(4) by simp
qed

end
