(* ===== verification/Binary64_Error.thy ===== *)
theory Binary64_Error
  imports Binary64_Bounds
begin

text \<open>
  The error of one rounding: a finite result of an operation on \<open>double\<close> differs from the exact
  result by at most one part in \<open>2\<^sup>5\<^sup>3\<close> of it, or by half of the smallest positive double where the
  result is subnormal.
\<close>

definition rounding_of :: "real \<Rightarrow> real" where
  "rounding_of x = \<bar>x\<bar> / 2 ^ 53 + 2 powi (- 1075)"

lemma rounding_of_mono: "\<bar>x\<bar> \<le> b \<Longrightarrow> rounding_of x \<le> b / 2 ^ 53 + 2 powi (- 1075)"
  by (simp add: rounding_of_def divide_right_mono)

lemma half_ulp: "2 powi ulp_exp i / 2 \<le> rounding_of (mag_value i)"
proof (cases "i < 2 ^ 52")
  case True
  have "(2::real) powi (- 1074) = 2 powi (- 1075) * 2" using powi_add_real [of "- 1075" 1] by simp
  then show ?thesis using True by (simp add: rounding_of_def ulp_exp_def)
next
  case False
  then have "real (2 ^ 52) \<le> real (sig i)" by (simp only: of_nat_le_iff sig_ge not_less)
  then have "2 ^ 52 * 2 powi ulp_exp i \<le> mag_value i" unfolding mag_value_def by (intro mult_right_mono) simp_all
  then show ?thesis by (simp add: rounding_of_def)
qed

lemma round_mag_error:
  assumes "0 < d"
  shows "\<bar>mag_value (round_mag n d) - real n / real d\<bar> \<le> rounding_of (real n / real d)"
proof -
  define x where "x = real n / real d"
  have "0 \<le> x" by (simp add: x_def)
  then obtain i where i: "mag_value i \<le> x" "x < mag_value (Suc i)" by (rule mag_value_bracket)
  have "\<bar>mag_value (round_mag n d) - x\<bar> \<le> 2 powi ulp_exp i / 2"
    using round_mag_between [OF assms, of i n] i unfolding x_def [symmetric] by (auto simp: mag_value_Suc)
  also have "\<dots> \<le> rounding_of (mag_value i)" by (rule half_ulp)
  also have "\<dots> \<le> rounding_of x" using i(1) \<open>0 \<le> x\<close> by (simp add: rounding_of_def divide_right_mono)
  finally show ?thesis by (simp only: x_def)
qed

lemma round_frac_error:
  assumes "0 < d" "is_finite (round_frac s n d)" "x = sgn_of s * (real n / real d)"
  shows "\<bar>valof (round_frac s n d) - x\<bar> \<le> rounding_of x"
proof -
  have "index (round_frac s n d) = min (round_mag n d) inf_index"
    unfolding round_frac_def by (rule index_of_index) (simp add: inf_index_def)
  with assms(2) have r: "round_mag n d < inf_index" by (simp add: is_finite_def)
  then have "valof (round_frac s n d) = sgn_of s * mag_value (round_mag n d)"
    using inf_index_small [of "round_mag n d"] by (simp add: round_frac_def valof_of_index)
  then have "\<bar>valof (round_frac s n d) - x\<bar> = \<bar>mag_value (round_mag n d) - real n / real d\<bar>"
    using assms(3) by (simp add: sgn_of_def abs_minus_commute)
  moreover have "rounding_of x = rounding_of (real n / real d)" using assms(3) by (simp add: rounding_of_def sgn_of_def)
  ultimately show ?thesis using round_mag_error [OF assms(1), of n] by simp
qed

lemma double_of_int_error:
  "is_finite (double_of_int k) \<Longrightarrow> \<bar>valof (double_of_int k) - of_int k\<bar> \<le> rounding_of (of_int k)"
  unfolding double_of_int_def by (rule round_frac_error) (simp_all add: sgn_of_def)

lemma ddiv_error:
  assumes "is_finite a" "is_finite b" "\<not> is_zero b" "is_finite (ddiv a b)"
  shows "\<bar>valof (ddiv a b) - valof a / valof b\<bar> \<le> rounding_of (valof a / valof b)"
proof -
  obtain n1 d1 n2 d2 where f: "mag_frac (index a) = (n1, d1)" "mag_frac (index b) = (n2, d2)" by fastforce
  have v: "mag_value (index a) = real n1 / real d1" "mag_value (index b) = real n2 / real d2" "0 < d1" "0 < d2"
    using f mag_frac_real [of "index a"] mag_frac_real [of "index b"] by simp_all
  have "mag_value (index b) \<noteq> mag_value 0" using assms(3) by (simp only: mag_value_eq_iff is_zero_def) simp
  then have n2: "0 < n2" using v by (auto intro: ccontr)
  have e: "ddiv a b = round_frac (negative a \<noteq> negative b) (n1 * d2) (d1 * n2)"
    using finite_cases [OF assms(1)] finite_cases [OF assms(2)] assms(3) by (simp add: ddiv_def f Let_def)
  show ?thesis
    unfolding e by (rule round_frac_error) (use v n2 assms(4) e in \<open>auto simp: valof_sgn sgn_of_def\<close>)
qed

lemma dmul_error:
  assumes "is_finite a" "is_finite b" "is_finite (dmul a b)"
  shows "\<bar>valof (dmul a b) - valof a * valof b\<bar> \<le> rounding_of (valof a * valof b)"
proof -
  obtain n1 d1 n2 d2 where f: "mag_frac (index a) = (n1, d1)" "mag_frac (index b) = (n2, d2)" by fastforce
  have v: "mag_value (index a) = real n1 / real d1" "mag_value (index b) = real n2 / real d2" "0 < d1" "0 < d2"
    using f mag_frac_real [of "index a"] mag_frac_real [of "index b"] by simp_all
  have e: "dmul a b = round_frac (negative a \<noteq> negative b) (n1 * n2) (d1 * d2)"
    using finite_cases [OF assms(1)] finite_cases [OF assms(2)] by (simp add: dmul_def f Let_def)
  show ?thesis
    unfolding e by (rule round_frac_error) (use v assms(3) e in \<open>auto simp: valof_sgn sgn_of_def\<close>)
qed

lemma dsub_error:
  assumes "is_finite a" "is_finite b" "is_finite (dsub a b)"
  shows "\<bar>valof (dsub a b) - (valof a - valof b)\<bar> \<le> rounding_of (valof a - valof b)"
proof (cases "valof a - valof b = 0")
  case True
  from dsub_exact [OF assms(1,2), unfolded True, OF fits_0] True show ?thesis by (simp add: rounding_of_def)
next
  case False
  obtain n1 d1 n2 d2 where f: "mag_frac (index a) = (n1, d1)" "mag_frac (index b) = (n2, d2)" by fastforce
  have v: "mag_value (index a) = real n1 / real d1" "mag_value (index b) = real n2 / real d2" "0 < d1" "0 < d2"
    using f mag_frac_real [of "index a"] mag_frac_real [of "index b"] by simp_all
  define sum where "sum = (if negative a then - int (n1 * d2) else int (n1 * d2))
     + (if \<not> negative b then - int (n2 * d1) else int (n2 * d1))"
  have s: "valof a - valof b = of_int sum / real (d1 * d2)"
    using v(3,4) by (simp add: valof_def v sum_def field_simps)
  have "sum \<noteq> 0" using False s by auto
  then have e: "dsub a b = round_frac (sum < 0) (nat \<bar>sum\<bar>) (d1 * d2)"
    using finite_cases [OF assms(1)] finite_cases [of "dneg b"] assms(2) by (simp add: dsub_def dadd_def f sum_def Let_def)
  show ?thesis
    unfolding e by (rule round_frac_error) (use v assms(3) e s in \<open>auto simp: sgn_of_def\<close>)
qed

text \<open>A finite quotient or product has finite operands.\<close>

lemma finite_not: "\<not> is_nan d \<Longrightarrow> \<not> is_inf d \<Longrightarrow> is_finite d"
  by (auto simp: is_finite_def is_nan_def is_inf_def)

lemma not_finite [simp]: "\<not> is_finite dnan" "\<not> is_finite (dinf s)"
  by (simp_all add: is_finite_def dnan_def dinf_def inf_index_def)

lemma ddiv_finite: "is_finite (ddiv a b) \<Longrightarrow> is_finite a \<and> \<not> is_zero b \<and> \<not> is_nan b"
  using finite_not [of a] by (auto simp: ddiv_def Let_def split: if_splits)

lemma dmul_finite: "is_finite (dmul a b) \<Longrightarrow> is_finite b"
  using finite_not [of b] by (auto simp: dmul_def Let_def split: if_splits)

text \<open>Rounding errors of operations in sequence, for readers that need only a bound.\<close>

lemma error_step:
  assumes "\<bar>r - x\<bar> \<le> rounding_of x" "\<bar>x - y\<bar> \<le> e" "\<bar>y\<bar> \<le> b"
  shows "\<bar>r - y\<bar> \<le> e + (b + e) / 2 ^ 53 + 2 powi (- 1075)"
proof -
  have "\<bar>x\<bar> \<le> b + e" using assms(2,3) by linarith
  with assms(1,2) rounding_of_mono [of x "b + e"] show ?thesis by linarith
qed

end
