(* ===== verification/Pricing.thy ===== *)
theory Pricing
  imports Binary64_Error Protocol_Types
begin

text \<open>
  The price grid of \<open>src/pricing.cpp\<close>: \<open>round_half_even\<close>, transcribed from CPython, and
  \<open>snap_to_grid\<close>, on the doubles themselves.
\<close>

definition kCentGrid :: double where
  "kCentGrid = double_lit 1 (- 2)"

definition round_half_even :: "double \<Rightarrow> double" where
  "round_half_even value =
     (let rounded = dround value
      in if deq (dabs (dsub value rounded)) (double_lit 5 (- 1))
         then dmul (double_lit 2 0) (dround (ddiv value (double_lit 2 0)))
         else rounded)"

fun snap_to_grid :: "double \<Rightarrow> PriceRange list \<Rightarrow> double" where
  "snap_to_grid price [] = dmul (round_half_even (ddiv price kCentGrid)) kCentGrid"
| "snap_to_grid price (rng # ranges) =
     (if dless (double_lit 0 0) (pr_step rng) \<and> dle (pr_start rng) price \<and> dle price (pr_end rng)
      then dmul (round_half_even (ddiv price (pr_step rng))) (pr_step rng)
      else snap_to_grid price ranges)"

section \<open>Half to even\<close>

text \<open>The reference: the nearest integer, and of two equally near ones the even one.\<close>

definition half_even :: "real \<Rightarrow> int" where
  "half_even x =
     (let f = \<lfloor>x\<rfloor> in
      if x - of_int f < 1 / 2 then f
      else if 1 / 2 < x - of_int f then f + 1
      else if even f then f else f + 1)"

lemma half_even_of_int [simp]: "half_even (of_int f) = f"
  by (simp add: half_even_def)

lemma half_even_neg: "half_even (- x) = - half_even x"
proof (cases "x = of_int \<lfloor>x\<rfloor>")
  case True
  then have "half_even x = \<lfloor>x\<rfloor>" "half_even (- x) = - \<lfloor>x\<rfloor>"
    using half_even_of_int [of "\<lfloor>x\<rfloor>"] half_even_of_int [of "- \<lfloor>x\<rfloor>"] by simp_all
  then show ?thesis by simp
next
  case False
  have "\<lfloor>- x\<rfloor> = - \<lfloor>x\<rfloor> - 1"
    using False floor_correct [of x] by (intro floor_unique) linarith+
  then show ?thesis using floor_correct [of x] by (auto simp: half_even_def Let_def)
qed

lemma half_even_sgn: "half_even (sgn_of s * x) = (if s then - half_even x else half_even x)"
  by (simp add: sgn_of_def half_even_neg)

text \<open>Rounding half up differs from half to even only on a tie.\<close>

lemma half_even_no_tie: "\<bar>x - of_int \<lfloor>x + 1 / 2\<rfloor>\<bar> \<noteq> 1 / 2 \<Longrightarrow> half_even x = \<lfloor>x + 1 / 2\<rfloor>"
proof -
  assume tie: "\<bar>x - of_int \<lfloor>x + 1 / 2\<rfloor>\<bar> \<noteq> 1 / 2"
  have f: "of_int \<lfloor>x\<rfloor> \<le> x" "x < of_int \<lfloor>x\<rfloor> + 1" using floor_correct [of x] by auto
  show ?thesis
  proof (cases "x - of_int \<lfloor>x\<rfloor> < 1 / 2")
    case True
    then have "\<lfloor>x + 1 / 2\<rfloor> = \<lfloor>x\<rfloor>" using f by (intro floor_unique) linarith+
    with True show ?thesis by (simp add: half_even_def)
  next
    case False
    then have "\<lfloor>x + 1 / 2\<rfloor> = \<lfloor>x\<rfloor> + 1" using f by (intro floor_unique) (simp_all, linarith+)
    with False tie show ?thesis by (auto simp: half_even_def Let_def)
  qed
qed

lemma half_even_tie:
  assumes "\<bar>x - of_int \<lfloor>x + 1 / 2\<rfloor>\<bar> = 1 / 2"
  shows "half_even x = 2 * \<lfloor>x / 2 + 1 / 2\<rfloor>" "x = of_int \<lfloor>x\<rfloor> + 1 / 2"
proof -
  have "of_int \<lfloor>x + 1 / 2\<rfloor> \<le> x + 1 / 2" "x + 1 / 2 < of_int \<lfloor>x + 1 / 2\<rfloor> + 1" using floor_correct [of "x + 1 / 2"] by auto
  with assms have "x = of_int \<lfloor>x + 1 / 2\<rfloor> - 1 / 2" by linarith
  then have x: "x = of_int (\<lfloor>x + 1 / 2\<rfloor> - 1) + 1 / 2" by simp
  define f where "f = \<lfloor>x + 1 / 2\<rfloor> - 1"
  have xf: "x = of_int f + 1 / 2" using x by (simp add: f_def)
  then have fl: "\<lfloor>x\<rfloor> = f" by (intro floor_unique) auto
  with xf show "x = of_int \<lfloor>x\<rfloor> + 1 / 2" by simp
  show "half_even x = 2 * \<lfloor>x / 2 + 1 / 2\<rfloor>"
  proof (cases "even f")
    case True
    then obtain j where j: "f = 2 * j" by blast
    have "\<lfloor>x / 2 + 1 / 2\<rfloor> = j" unfolding xf j by (rule floor_unique) (simp_all add: field_simps)
    with True j xf fl show ?thesis by (simp add: half_even_def Let_def)
  next
    case False
    then obtain j where j: "f = 2 * j + 1" by (elim oddE)
    have "\<lfloor>x / 2 + 1 / 2\<rfloor> = j + 1" unfolding xf j by (rule floor_unique) (simp_all add: field_simps)
    with False j xf fl show ?thesis by (simp add: half_even_def Let_def)
  qed
qed

lemma double_lit_2: "double_lit 2 0 = of_index False 0x4000000000000000"
  and double_lit_half: "double_lit 5 (- 1) = of_index False 0x3FE0000000000000"
  by (simp_all add: double_lit_def round_dec_def round_mag_def flog2_def ilog2.simps pow2_le_def Let_def rne_scaled_def rne_div_def)

lemma valof_2: "valof (double_lit 2 0) = 2" "is_finite (double_lit 2 0)" "\<not> is_zero (double_lit 2 0)"
  and valof_half: "valof (double_lit 5 (- 1)) = 1 / 2" "is_finite (double_lit 5 (- 1))"
  by (simp_all add: double_lit_2 double_lit_half valof_def mag_value_def sig_def ulp_exp_def is_finite_def inf_index_def
      is_zero_def power_int_def power_divide)

text \<open>The difference of a double and the integer nearest to it is a double.\<close>

lemma mag_small_exp:
  assumes "ulp_exp i < 0"
  obtains k where "1 \<le> k" "k \<le> 1074" "mag_value i = real (sig i) / 2 ^ k"
proof -
  define k where "k = nat (- ulp_exp i)"
  have "1 \<le> k" "k \<le> 1074" using assms ulp_exp_ge [of i] by (auto simp: k_def)
  moreover have "ulp_exp i = - int k" using assms by (simp add: k_def)
  then have "mag_value i = real (sig i) / 2 ^ k" by (simp add: mag_value_def power_int_minus divide_inverse)
  ultimately show ?thesis by (rule that)
qed

lemma fits_scaled: "m < 2 ^ 53 \<Longrightarrow> k \<le> 1074 \<Longrightarrow> \<bar>x\<bar> = real m / 2 ^ k \<Longrightarrow> fits x"
proof -
  assume m: "m < 2 ^ 53" "k \<le> 1074" "\<bar>x\<bar> = real m / 2 ^ k"
  have "int (1074 - k) - 1074 = - int k" using m(2) by simp
  then have "real m * 2 powi (int (1074 - k) - 1074) = real m / 2 ^ k"
    by (simp only: power_int_minus divide_inverse power_int_of_nat)
  then show ?thesis using representable [of m "1074 - k"] m by (auto simp: fits_def)
qed

lemma mag_integer: "0 \<le> ulp_exp i \<Longrightarrow> mag_value i = of_int \<lfloor>mag_value i\<rfloor>"
  by (simp add: mag_value_def power_int_def)

lemma fits_distance: "fits (mag_value i - of_int \<lfloor>mag_value i + 1 / 2\<rfloor>)"
proof (cases "0 \<le> ulp_exp i")
  case True
  define f where "f = \<lfloor>mag_value i\<rfloor>"
  have "mag_value i = of_int f" using mag_integer [OF True] by (simp add: f_def)
  then have "mag_value i - of_int \<lfloor>mag_value i + 1 / 2\<rfloor> = 0" by simp
  then show ?thesis using fits_scaled [of 0 0 0] by simp
next
  case False
  then obtain k where k: "1 \<le> k" "k \<le> 1074" "mag_value i = real (sig i) / 2 ^ k"
    using mag_small_exp [of i] by auto
  define x q where "x = mag_value i" and "q = nat \<lfloor>x + 1 / 2\<rfloor>"
  have x0: "0 \<le> x" by (simp add: x_def)
  have q: "of_int \<lfloor>x + 1 / 2\<rfloor> = real q" using x0 by (simp add: q_def)
  have near: "\<bar>x - real q\<bar> \<le> 1 / 2" using floor_correct [of "x + 1 / 2"] q by linarith
  define m where "m = nat \<bar>int (sig i) - int q * 2 ^ k\<bar>"
  have e: "\<bar>x - real q\<bar> = real m / 2 ^ k"
  proof -
    have "x - real q = of_int (int (sig i) - int q * 2 ^ k) / 2 ^ k" by (simp add: x_def k(3) field_simps)
    then show ?thesis by (simp add: m_def abs_divide)
  qed
  have "m < 2 ^ 53"
  proof (cases "q = 0")
    case True
    then show ?thesis using sig_less [of i] by (simp add: m_def)
  next
    case False
    then have "1 / 2 \<le> x" using near by linarith
    then have "2 ^ k / 2 \<le> real (sig i)" by (simp add: x_def k(3) field_simps)
    moreover have "real m \<le> 2 ^ k / 2" using near e by (simp add: field_simps)
    ultimately have "real m \<le> real (sig i)" by linarith
    then show ?thesis using sig_less [of i] by linarith
  qed
  with fits_scaled [OF _ k(2)] e q show ?thesis by (simp add: x_def)
qed


lemma fits_neg [simp]: "fits (- x) = fits x" "fits (sgn_of s * x) = fits x"
  by (simp_all add: fits_def sgn_of_def)

lemma fits_half:
  assumes "mag_value i = of_int f + 1 / 2"
  shows "fits (mag_value i / 2)" "mag_value i \<le> 2 ^ 52"
proof -
  have f0: "0 \<le> f" using mag_value_nonneg [of i] assms by linarith
  have "ulp_exp i < 0"
  proof (rule ccontr)
    assume "\<not> ulp_exp i < 0"
    then have "mag_value i = of_int \<lfloor>mag_value i\<rfloor>" using mag_integer by simp
    then have "of_int (2 * f + 1) = (of_int (2 * \<lfloor>mag_value i\<rfloor>) :: real)" using assms by simp
    then have "2 * f + 1 = 2 * \<lfloor>mag_value i\<rfloor>" by (simp only: of_int_eq_iff)
    then show False by presburger
  qed
  then obtain k where k: "1 \<le> k" "k \<le> 1074" "mag_value i = real (sig i) / 2 ^ k" using mag_small_exp by blast
  have le: "real (sig i) < 2 ^ 53" using sig_less [of i] by simp
  have "1 / 2 \<le> real (sig i) / 2 ^ k" using assms f0 k(3) by simp
  then have "2 ^ k \<le> 2 * real (sig i)" by (simp add: field_simps)
  then have "(2::real) ^ k < 2 ^ 54" using le by simp
  then have "k < 54" by (rule power_less_imp_less_exp [rotated]) simp
  then have k1: "Suc k \<le> 1074" by simp
  show "fits (mag_value i / 2)"
    by (rule fits_scaled [OF sig_less [of i] k1]) (simp add: k(3))
  have "(2::real) ^ 1 \<le> 2 ^ k" using k(1) by (intro power_increasing) auto
  then have "real (sig i) / 2 ^ k \<le> 2 ^ 53 / 2 ^ 1" using le by (intro frac_le) auto
  then show "mag_value i \<le> 2 ^ 52" by (simp add: k(3))
qed

text \<open>On a tie the code doubles the rounded half.\<close>

lemma tie_doubled:
  assumes "is_finite v" "\<bar>mag_value (index v) - of_int \<lfloor>mag_value (index v) + 1 / 2\<rfloor>\<bar> = 1 / 2"
  shows "is_finite (dmul (double_lit 2 0) (dround (ddiv v (double_lit 2 0)))) \<and>
    valof (dmul (double_lit 2 0) (dround (ddiv v (double_lit 2 0)))) = sgn_of (negative v) * of_int (half_even (mag_value (index v)))"
proof -
  define x where "x = mag_value (index v)"
  define s where "s = negative v"
  have v: "valof v = sgn_of s * x" by (simp add: valof_sgn x_def s_def)
  note t = half_even_tie [OF assms(2), folded x_def]
  note half = fits_half [of "index v", folded x_def, OF t(2)]
  have "fits (valof v / valof (double_lit 2 0))" using half(1) by (simp add: v(1) valof_2 times_divide_eq_right [symmetric] del: times_divide_eq_right)
  note dv = ddiv_exact [OF assms(1) valof_2(2,3) this]
  define w where "w = ddiv v (double_lit 2 0)"
  have w: "is_finite w" "valof w = sgn_of s * (x / 2)" using dv by (simp_all add: w_def valof_2 v)
  have "0 \<le> \<lfloor>x\<rfloor>" by (simp add: x_def)
  then have x0: "0 < x" using t(2) by linarith
  have "negative w = s"
  proof (rule ccontr)
    assume "negative w \<noteq> s"
    then have "mag_value (index w) = - (x / 2)" using w(2) by (auto simp: valof_sgn sgn_of_def split: if_splits)
    with x0 mag_value_nonneg [of "index w"] show False by linarith
  qed
  then have rw: "is_finite (dround w)" "valof (dround w) = sgn_of s * of_int \<lfloor>x / 2 + 1 / 2\<rfloor>"
    using dround_exact [OF w(1)] w(2) x0 by (simp_all add: abs_mult sgn_of_def)
  define n where "n = nat (2 * \<lfloor>x / 2 + 1 / 2\<rfloor>)"
  have "0 \<le> \<lfloor>x / 2 + 1 / 2\<rfloor>" using x0 by simp
  then have n: "real n = 2 * of_int \<lfloor>x / 2 + 1 / 2\<rfloor>" by (simp add: n_def)
  have "real n \<le> 2 ^ 53" using n half(2) of_int_floor_le [of "x / 2 + 1 / 2"] by simp
  then have "n \<le> 2 ^ 53" by (metis of_nat_le_iff of_nat_numeral of_nat_power)
  then have "fits (real n)" using representable_int by (simp add: fits_def)
  moreover have "valof (double_lit 2 0) * valof (dround w) = sgn_of s * real n" by (simp add: valof_2 rw(2) n)
  ultimately have "fits (valof (double_lit 2 0) * valof (dround w))" by simp
  note m = dmul_exact [OF valof_2(2) rw(1) this]
  show ?thesis
    using m t(1) rw by (simp add: w_def [symmetric] x_def [symmetric] s_def [symmetric] valof_2 sgn_of_def)
qed

lemma round_half_even_value:
  assumes "is_finite v"
  shows "is_finite (round_half_even v) \<and> valof (round_half_even v) = of_int (half_even (valof v))"
proof -
  define x where "x = mag_value (index v)"
  define q where "q = \<lfloor>x + 1 / 2\<rfloor>"
  define s where "s = negative v"
  have v: "valof v = sgn_of s * x" "\<bar>valof v\<bar> = x" by (simp_all add: valof_sgn x_def s_def abs_mult sgn_of_def)
  have r: "is_finite (dround v)" "valof (dround v) = sgn_of s * of_int q"
    using dround_exact [OF assms] v by (simp_all add: q_def s_def)
  have d: "valof v - valof (dround v) = sgn_of s * (x - of_int q)" by (simp add: v r algebra_simps)
  have "fits (valof v - valof (dround v))"
    unfolding d using fits_distance [of "index v"] by (simp add: x_def q_def)
  note sub = dsub_exact [OF assms r(1) this]
  have tie: "deq (dabs (dsub v (dround v))) (double_lit 5 (- 1)) \<longleftrightarrow> \<bar>x - of_int q\<bar> = 1 / 2"
    using sub valof_half(2) by (simp add: deq_valof valof_dabs d abs_mult sgn_of_def valof_half(1))
  have he: "half_even (valof v) = (if s then - half_even x else half_even x)" by (simp add: v half_even_sgn)
  show ?thesis
  proof (cases "\<bar>x - of_int q\<bar> = 1 / 2")
    case False
    then have "half_even x = q" using half_even_no_tie by (simp add: q_def)
    with False tie r he show ?thesis by (simp add: round_half_even_def sgn_of_def)
  next
    case True
    with tie_doubled [OF assms, folded x_def s_def, OF True [unfolded q_def]] tie he show ?thesis
      by (simp add: round_half_even_def sgn_of_def)
  qed
qed

section \<open>Snapping keeps the order of prices\<close>

lemma half_even_near: "\<bar>x - of_int (half_even x)\<bar> \<le> 1 / 2"
  using floor_correct [of x] by (auto simp: half_even_def Let_def)

lemma half_even_mono: "x \<le> y \<Longrightarrow> half_even x \<le> half_even y"
proof (rule ccontr)
  assume xy: "x \<le> y" "\<not> half_even x \<le> half_even y"
  then have "half_even y + 1 \<le> half_even x" by simp
  then have "real_of_int (half_even y) + 1 \<le> of_int (half_even x)" by linarith
  with xy half_even_near [of x] half_even_near [of y] have "x = y" by linarith
  with xy show False by simp
qed

text \<open>The operations on doubles that are not negative, through the correctly rounded magnitude.\<close>

lemma round_frac_mono:
  assumes "0 < d" "0 < d'" "real n / real d \<le> real n' / real d'"
  shows "valof (round_frac False n d) \<le> valof (round_frac False n' d')"
  using round_mag_mono [OF assms]
  by (simp add: round_frac_def valof_sgn sgn_of_def inf_index_def mag_value_le_iff)

lemma frac_of:
  obtains n d where "mag_frac (index a) = (n, d)" "0 < d" "mag_value (index a) = real n / real d"
  using mag_frac_real [of "index a"] by (cases "mag_frac (index a)") auto

lemma finite_kinds: "is_finite a \<Longrightarrow> \<not> is_nan a \<and> \<not> is_inf a"
  by (auto simp: is_finite_def is_nan_def is_inf_def)

lemma zero_value: "is_finite a \<Longrightarrow> is_zero a \<longleftrightarrow> valof a = 0"
  using mag_value_eq_iff [of "index a" 0] by (auto simp: is_zero_def valof_sgn sgn_of_def)

lemma ddiv_mono:
  assumes "is_finite a" "is_finite a'" "is_finite b" "0 < valof b" "\<not> negative a" "\<not> negative a'" "\<not> negative b"
    and "valof a \<le> valof a'"
  shows "valof (ddiv a b) \<le> valof (ddiv a' b)"
proof -
  obtain n d where a: "mag_frac (index a) = (n, d)" "0 < d" "mag_value (index a) = real n / real d" by (rule frac_of)
  obtain n' d' where a': "mag_frac (index a') = (n', d')" "0 < d'" "mag_value (index a') = real n' / real d'" by (rule frac_of)
  obtain nb db where b: "mag_frac (index b) = (nb, db)" "0 < db" "mag_value (index b) = real nb / real db" by (rule frac_of)
  have vb: "0 < real nb / real db" using assms(4,7) b by (simp add: valof_sgn sgn_of_def)
  then have nb: "0 < nb" using b(2) by (simp add: zero_less_divide_iff)
  have "real n / real d \<le> real n' / real d'" using assms(5,6,8) a a' by (simp add: valof_sgn sgn_of_def)
  then have "(real n / real d) / (real nb / real db) \<le> (real n' / real d') / (real nb / real db)"
    using vb by (intro divide_right_mono) simp_all
  then have le: "real (n * db) / real (d * nb) \<le> real (n' * db) / real (d' * nb)" by simp
  have "\<not> is_zero b" using assms(3,4) zero_value by auto
  then have "ddiv a b = round_frac False (n * db) (d * nb)" "ddiv a' b = round_frac False (n' * db) (d' * nb)"
    using assms finite_kinds a a' b by (auto simp: ddiv_def Let_def)
  then show ?thesis using round_frac_mono [OF _ _ le] a(2) a'(2) nb by simp
qed

lemma dmul_mono:
  assumes "is_finite a" "is_finite a'" "is_finite b" "\<not> negative a" "\<not> negative a'" "\<not> negative b" "valof a \<le> valof a'"
  shows "valof (dmul a b) \<le> valof (dmul a' b)"
proof -
  obtain n d where a: "mag_frac (index a) = (n, d)" "0 < d" "mag_value (index a) = real n / real d" by (rule frac_of)
  obtain n' d' where a': "mag_frac (index a') = (n', d')" "0 < d'" "mag_value (index a') = real n' / real d'" by (rule frac_of)
  obtain nb db where b: "mag_frac (index b) = (nb, db)" "0 < db" "mag_value (index b) = real nb / real db" by (rule frac_of)
  have "real n / real d \<le> real n' / real d'" using assms(4,5,7) a a' by (simp add: valof_sgn sgn_of_def)
  then have "(real n / real d) * (real nb / real db) \<le> (real n' / real d') * (real nb / real db)"
    by (intro mult_right_mono) simp_all
  then have le: "real (n * nb) / real (d * db) \<le> real (n' * nb) / real (d' * db)" by simp
  have "dmul a b = round_frac False (n * nb) (d * db)" "dmul a' b = round_frac False (n' * nb) (d' * db)"
    using assms finite_kinds a a' b by (auto simp: dmul_def Let_def)
  then show ?thesis using round_frac_mono [OF _ _ le] a(2) a'(2) b(2) by simp
qed

definition snap_by :: "double \<Rightarrow> double \<Rightarrow> double" where
  "snap_by step price = dmul (round_half_even (ddiv price step)) step"

lemma round_half_even_sign: "is_finite v \<Longrightarrow> \<not> negative v \<Longrightarrow> \<not> negative (round_half_even v)"
proof -
  assume v: "is_finite v" "\<not> negative v"
  have sign: "\<not> negative (round_frac False n d)" for n d by (simp add: round_frac_def)
  have "negative (dround v) = negative v" using dround_exact [OF v(1)] by blast
  moreover have two: "\<not> negative (double_lit 2 0)" by (simp add: double_lit_2)
  then have w: "\<not> negative (ddiv v (double_lit 2 0))"
    using v valof_2(2,3) finite_kinds sign by (simp add: ddiv_def Let_def split: prod.splits)
  then have "\<not> negative (dround (ddiv v (double_lit 2 0)))"
    using sign by (auto simp: dround_def Let_def split: prod.splits)
  with two have "\<not> negative (dmul (double_lit 2 0) (dround (ddiv v (double_lit 2 0))))"
    using sign by (auto simp: dmul_def dnan_def dinf_def Let_def split: prod.splits)
  ultimately show ?thesis using v(2) by (simp add: round_half_even_def Let_def)
qed

lemma ddiv_sign: "is_finite a \<Longrightarrow> is_finite b \<Longrightarrow> 0 < valof b \<Longrightarrow> \<not> negative a \<Longrightarrow> \<not> negative b \<Longrightarrow> \<not> negative (ddiv a b)"
  using finite_kinds [of a] finite_kinds [of b] zero_value [of b]
  by (auto simp: ddiv_def round_frac_def Let_def split: prod.splits)

lemma snap_by_mono:
  assumes "is_finite a" "is_finite a'" "is_finite b" "0 < valof b" "\<not> negative a" "\<not> negative a'" "\<not> negative b"
    and "valof a \<le> valof a'" "is_finite (ddiv a b)" "is_finite (ddiv a' b)"
  shows "valof (snap_by b a) \<le> valof (snap_by b a')"
  unfolding snap_by_def
proof (rule dmul_mono)
  note q = round_half_even_value [OF assms(9)] round_half_even_value [OF assms(10)]
  then show "is_finite (round_half_even (ddiv a b))" "is_finite (round_half_even (ddiv a' b))" by blast+
  show "\<not> negative (round_half_even (ddiv a b))" "\<not> negative (round_half_even (ddiv a' b))"
    using assms round_half_even_sign ddiv_sign by blast+
  show "valof (round_half_even (ddiv a b)) \<le> valof (round_half_even (ddiv a' b))"
    using q half_even_mono [OF ddiv_mono [OF assms(1-8)]] by simp
qed (use assms in auto)

lemma cent_facts: "is_finite kCentGrid" "\<not> negative kCentGrid" "0 < valof kCentGrid"
  using double_lit_finite(3)
  by (simp_all add: kCentGrid_def double_lit_cent valof_def mag_value_def sig_def ulp_exp_def del: One_nat_def)

text \<open>A quotient or product closer to a double than half its gap rounds to it.\<close>

lemma round_frac_near: "0 < d \<Longrightarrow> \<bar>real n / real d - mag_value i\<bar> * 2 ^ 54 < mag_value i \<Longrightarrow> i < inf_index \<Longrightarrow> round_frac s n d = of_index s i"
  using round_mag_near [of d n i] by (simp add: round_frac_def)

lemma ddiv_near:
  assumes "is_finite a" "is_finite b" "0 < valof b" "\<not> negative a" "\<not> negative b"
    and "\<bar>valof a / valof b - mag_value i\<bar> * 2 ^ 54 < mag_value i" "i < inf_index"
  shows "ddiv a b = of_index False i"
proof -
  obtain n d where a: "mag_frac (index a) = (n, d)" "0 < d" "mag_value (index a) = real n / real d" by (rule frac_of)
  obtain nb db where b: "mag_frac (index b) = (nb, db)" "0 < db" "mag_value (index b) = real nb / real db" by (rule frac_of)
  have v: "valof a = real n / real d" "valof b = real nb / real db"
    using assms(4,5) a b by (simp_all add: valof_sgn sgn_of_def)
  then have nb: "0 < nb" using assms(3) b(2) by (simp add: zero_less_divide_iff)
  have "real (n * db) / real (d * nb) = valof a / valof b" by (simp add: v)
  then have "round_frac False (n * db) (d * nb) = of_index False i"
    using assms(6,7) a(2) nb by (intro round_frac_near) simp_all
  moreover have "\<not> is_zero b" using assms(2,3) zero_value by auto
  ultimately show ?thesis using assms finite_kinds a b by (auto simp: ddiv_def Let_def)
qed

lemma dmul_near:
  assumes "is_finite a" "is_finite b" "\<not> negative a" "\<not> negative b"
    and "\<bar>valof a * valof b - mag_value i\<bar> * 2 ^ 54 < mag_value i" "i < inf_index"
  shows "dmul a b = of_index False i"
proof -
  obtain n d where a: "mag_frac (index a) = (n, d)" "0 < d" "mag_value (index a) = real n / real d" by (rule frac_of)
  obtain nb db where b: "mag_frac (index b) = (nb, db)" "0 < db" "mag_value (index b) = real nb / real db" by (rule frac_of)
  have v: "valof a = real n / real d" "valof b = real nb / real db"
    using assms(3,4) a b by (simp_all add: valof_sgn sgn_of_def)
  have "real (n * nb) / real (d * db) = valof a * valof b" by (simp add: v)
  then have "round_frac False (n * nb) (d * db) = of_index False i"
    using assms(5,6) a(2) b(2) by (intro round_frac_near) simp_all
  then show ?thesis using assms finite_kinds a b by (auto simp: dmul_def Let_def)
qed

lemmas value_defs = valof_def mag_value_def sig_def ulp_exp_def power_int_def is_finite_def inf_index_def

lemma valof_cent: "valof kCentGrid = 5764607523034235 / 576460752303423488"
  unfolding kCentGrid_def double_lit_cent by (simp add: value_defs power_divide)

lemma valof_one: "valof (double_lit 1 0) = 1" "is_finite (double_lit 1 0)" "\<not> negative (double_lit 1 0)"
  unfolding double_lit_1 by (simp_all add: value_defs power_divide)

lemma hundred: "valof (of_index False 0x4059000000000000) = 100" "is_finite (of_index False 0x4059000000000000)"
    "mag_value 0x4059000000000000 = 100" "mag_value 0x3FF0000000000000 = 1"
  by (simp_all add: value_defs power_divide)

lemma one_div_cent: "ddiv (double_lit 1 0) kCentGrid = of_index False 0x4059000000000000"
  by (rule ddiv_near) (simp_all add: valof_one cent_facts valof_cent hundred inf_index_def del: One_nat_def)

lemma hundred_cents:
  assumes "is_finite a" "\<not> negative a" "valof a = 100"
  shows "dmul a kCentGrid = double_lit 1 0"
  unfolding double_lit_1
  by (rule dmul_near) (simp_all add: assms cent_facts valof_cent hundred inf_index_def)

lemma snap_one: "snap_by kCentGrid (double_lit 1 0) = double_lit 1 0"
proof -
  have "half_even 100 = 100" using half_even_of_int [of 100] by simp
  then have r: "is_finite (round_half_even (of_index False 0x4059000000000000))"
      "valof (round_half_even (of_index False 0x4059000000000000)) = 100"
    using round_half_even_value [OF hundred(2)] hundred(1) by simp_all
  show ?thesis unfolding snap_by_def one_div_cent
    using r by (intro hundred_cents round_half_even_sign hundred) simp_all
qed

lemma finite_of_le: "\<not> negative x \<Longrightarrow> valof x \<le> 100 \<Longrightarrow> is_finite x"
proof -
  assume x: "\<not> negative x" "valof x \<le> 100"
  then have "mag_value (index x) \<le> mag_value 0x4059000000000000" by (simp add: valof_sgn sgn_of_def hundred)
  then show ?thesis by (simp add: mag_value_le_iff is_finite_def inf_index_def)
qed

lemma valof_nonneg: "\<not> negative x \<Longrightarrow> 0 \<le> valof x"
  by (simp add: valof_sgn sgn_of_def)

lemma snap_cent_bounds:
  assumes "is_finite p" "\<not> negative p" "valof p \<le> 1"
  shows "0 \<le> valof (snap_by kCentGrid p) \<and> valof (snap_by kCentGrid p) \<le> 1"
proof -
  have one: "is_finite (ddiv (double_lit 1 0) kCentGrid)" unfolding one_div_cent by (rule hundred(2))
  have le: "valof p \<le> valof (double_lit 1 0)" using assms(3) by (simp only: valof_one)
  have "valof (ddiv p kCentGrid) \<le> valof (ddiv (double_lit 1 0) kCentGrid)"
    by (rule ddiv_mono [OF assms(1) valof_one(2) cent_facts(1,3) assms(2) valof_one(3) cent_facts(2) le])
  then have "valof (ddiv p kCentGrid) \<le> 100" unfolding one_div_cent by (simp only: hundred(1))
  then have fin: "is_finite (ddiv p kCentGrid)"
    using ddiv_sign [OF assms(1) cent_facts(1,3) assms(2) cent_facts(2)] finite_of_le by blast
  have "valof (snap_by kCentGrid p) \<le> valof (snap_by kCentGrid (double_lit 1 0))"
    by (rule snap_by_mono [OF assms(1) valof_one(2) cent_facts(1,3) assms(2) valof_one(3) cent_facts(2) le fin one])
  moreover have "\<not> negative (round_half_even (ddiv p kCentGrid))" "is_finite (round_half_even (ddiv p kCentGrid))"
    using round_half_even_sign fin ddiv_sign [OF assms(1) cent_facts(1,3) assms(2) cent_facts(2)] round_half_even_value [OF fin] by blast+
  then have "\<not> negative (snap_by kCentGrid p)"
    using cent_facts(1,2) finite_kinds by (auto simp: snap_by_def dmul_def round_frac_def Let_def split: prod.splits)
  ultimately show ?thesis using valof_nonneg valof_one(1) by (simp add: snap_one del: One_nat_def)
qed

lemma snap_default: "snap_to_grid p [kDefaultPriceRange] = snap_by kCentGrid p"
  by (simp add: snap_by_def kDefaultPriceRange_def kCentGrid_def)

text \<open>The step a price is snapped to: that of the first range with a positive step that contains it.\<close>

definition covers :: "double \<Rightarrow> PriceRange \<Rightarrow> bool" where
  "covers p rng \<longleftrightarrow> dless (double_lit 0 0) (pr_step rng) \<and> dle (pr_start rng) p \<and> dle p (pr_end rng)"

definition grid_step :: "double \<Rightarrow> PriceRange list \<Rightarrow> double" where
  "grid_step p ranges = (case find (covers p) ranges of None \<Rightarrow> kCentGrid | Some rng \<Rightarrow> pr_step rng)"

lemma snap_to_grid_eq: "snap_to_grid p ranges = snap_by (grid_step p ranges) p"
  by (induction ranges) (auto simp: snap_by_def grid_step_def covers_def)

text \<open>The step is positive, so a finite quotient and a finite result leave every operand finite.\<close>

lemma grid_step_positive: "is_finite (grid_step p ranges) \<Longrightarrow> 0 < valof (grid_step p ranges)"
proof (cases "find (covers p) ranges")
  case None
  then show ?thesis by (simp add: grid_step_def cent_facts)
next
  case (Some rng)
  assume f: "is_finite (grid_step p ranges)"
  from Some have "covers p rng" by (auto simp: find_Some_iff)
  then have "signed_index (double_lit 0 0) < signed_index (pr_step rng)" by (simp add: covers_def dless_def)
  then have "valof (double_lit 0 0) < valof (pr_step rng)" using signed_index_le [of "pr_step rng" "double_lit 0 0"] by linarith
  moreover have "valof (double_lit 0 0) = 0"
    by (simp add: double_lit_def round_dec_def round_frac_def valof_def inf_index_def)
  ultimately show ?thesis using Some by (simp add: grid_step_def)
qed

lemma snap_shape:
  assumes "is_finite (ddiv p (grid_step p ranges))" "is_finite (snap_to_grid p ranges)"
  shows "\<exists>kd. snap_to_grid p ranges = dmul kd (grid_step p ranges) \<and> is_finite kd \<and>
       valof kd = of_int (half_even (valof (ddiv p (grid_step p ranges))))"
  using round_half_even_value [OF assms(1)] by (auto simp: snap_to_grid_eq snap_by_def)

lemma half_even_near': "\<bar>of_int (half_even x) - x\<bar> \<le> 1 / 2"
  using half_even_near [of x] by (simp add: abs_minus_commute)

text \<open>The arithmetic of the bound, in the reals: \<open>q\<close> is the rounded quotient and \<open>k\<close> its integer.\<close>

lemma half_even_closest: "\<bar>of_int (half_even x) - x\<bar> \<le> \<bar>of_int m - x\<bar>"
proof (cases "half_even x = m")
  case False
  then have "1 \<le> \<bar>half_even x - m\<bar>" by simp
  then have "of_int 1 \<le> (of_int \<bar>half_even x - m\<bar> :: real)" by (simp only: of_int_le_iff)
  then have "1 \<le> \<bar>of_int (half_even x) - of_int m :: real\<bar>" by simp
  with half_even_near [of x] show ?thesis by linarith
qed simp

lemma snap_sum:
  fixes d :: real
  assumes "b \<le> (p + s / 2 + e) / 2 ^ 53" "d \<le> a + f" "a \<le> b + eta" "f \<le> g + 2 * e" "e \<le> p / 2 ^ 53 + s / 2 ^ 60" "0 < s" "0 \<le> p"
  shows "d \<le> g + (p + s) / 2 ^ 51 + eta"
  using assms by (simp add: field_simps)

lemma snap_arith:
  fixes p s q k m r eta :: real
  assumes s: "0 < s" and eta: "0 \<le> eta" "eta \<le> 1 / 2 ^ 60"
    and q: "\<bar>q - p / s\<bar> \<le> \<bar>p / s\<bar> / 2 ^ 53 + eta"
    and k: "\<bar>k - q\<bar> \<le> \<bar>m - q\<bar>" "\<bar>k - q\<bar> \<le> 1 / 2"
    and r: "\<bar>r - k * s\<bar> \<le> \<bar>k * s\<bar> / 2 ^ 53 + eta"
  shows "\<bar>r - p\<bar> \<le> \<bar>m * s - p\<bar> + (\<bar>p\<bar> + s) / 2 ^ 51 + eta"
proof -
  have z: "\<bar>z - p / s\<bar> * s = \<bar>z * s - p\<bar>" for z
  proof -
    have "\<bar>z - p / s\<bar> * s = \<bar>(z - p / s) * s\<bar>" using s by (simp add: abs_mult)
    also have "(z - p / s) * s = z * s - p" using s by (simp add: field_simps)
    finally show ?thesis .
  qed
  define e where "e = \<bar>q * s - p\<bar>"
  have "\<bar>q - p / s\<bar> * s \<le> (\<bar>p / s\<bar> / 2 ^ 53 + eta) * s" using q s by (intro mult_right_mono) simp_all
  also have "\<dots> = \<bar>p\<bar> / 2 ^ 53 + eta * s" using s by (simp add: abs_divide field_simps)
  also have "\<dots> \<le> \<bar>p\<bar> / 2 ^ 53 + 1 / 2 ^ 60 * s" using eta(2) s by (simp add: mult_right_mono)
  finally have e: "e \<le> \<bar>p\<bar> / 2 ^ 53 + s / 2 ^ 60" by (simp add: e_def z)
  have "\<bar>k - q\<bar> * s \<le> \<bar>m - q\<bar> * s" "\<bar>k - q\<bar> * s \<le> 1 / 2 * s" using k s by (simp_all add: mult_right_mono del: mult_le_cancel_right)
  moreover have "\<bar>x - q\<bar> * s = \<bar>x * s - q * s\<bar>" for x
    using s abs_mult [of "x - q" s] by (simp add: left_diff_distrib)
  ultimately have "\<bar>k * s - q * s\<bar> \<le> \<bar>m * s - q * s\<bar>" "\<bar>k * s - q * s\<bar> \<le> s / 2" by simp_all
  then have ks: "\<bar>k * s - p\<bar> \<le> \<bar>m * s - p\<bar> + 2 * e" "\<bar>k * s - p\<bar> \<le> s / 2 + e"
    using abs_triangle_ineq [of "k * s - q * s" "q * s - p"] abs_triangle_ineq [of "m * s - p" "p - q * s"]
    by (simp_all add: e_def abs_minus_commute [of p "q * s"])
  have "\<bar>k * s\<bar> \<le> \<bar>p\<bar> + s / 2 + e" using ks(2) by linarith
  then have "\<bar>k * s\<bar> / 2 ^ 53 \<le> (\<bar>p\<bar> + s / 2 + e) / 2 ^ 53" by (simp add: divide_right_mono)
  moreover have "\<bar>r - p\<bar> \<le> \<bar>r - k * s\<bar> + \<bar>k * s - p\<bar>" using abs_triangle_ineq [of "r - k * s" "k * s - p"] by simp
  ultimately show ?thesis by (rule snap_sum [OF _ _ r ks(1) e s abs_ge_zero])
qed

lemma snap_near:
  assumes "is_finite (ddiv p (grid_step p ranges))" "is_finite (snap_to_grid p ranges)"
  shows "\<bar>valof (snap_to_grid p ranges) - valof p\<bar>
    \<le> \<bar>of_int m * valof (grid_step p ranges) - valof p\<bar> + (\<bar>valof p\<bar> + valof (grid_step p ranges)) / 2 ^ 51 + 2 powi (- 1075)"
proof -
  obtain kd where kd: "snap_to_grid p ranges = dmul kd (grid_step p ranges)" "is_finite kd"
    "valof kd = of_int (half_even (valof (ddiv p (grid_step p ranges))))"
    using snap_shape [OF assms] by blast
  have fin: "is_finite p" "\<not> is_zero (grid_step p ranges)" "is_finite (grid_step p ranges)"
    using ddiv_finite [OF assms(1)] dmul_finite [of kd] assms(2) kd(1) by simp_all
  have "(2::real) powi (- 1075) \<le> 2 powi (- 60)" unfolding powi2_le_iff by simp
  then have eta: "(2::real) powi (- 1075) \<le> 1 / 2 ^ 60" by (simp add: power_int_minus inverse_eq_divide)
  note q = ddiv_error [OF fin(1,3,2) assms(1), unfolded rounding_of_def]
  have r: "\<bar>valof (snap_to_grid p ranges) - valof kd * valof (grid_step p ranges)\<bar>
      \<le> \<bar>valof kd * valof (grid_step p ranges)\<bar> / 2 ^ 53 + 2 powi (- 1075)"
    using dmul_error [OF kd(2) fin(3)] assms(2) unfolding kd(1) rounding_of_def by blast
  show ?thesis
    by (rule snap_arith [OF grid_step_positive [OF fin(3)] less_imp_le [OF powi2_pos] eta q _ _ r])
       (simp_all only: kd(3) half_even_closest half_even_near')
qed

section \<open>Properties\<close>

text \<open>
  C14: \<open>round_half_even\<close> is exact rounding to the nearest integer with ties to the even one, for
  every finite double, although it is computed with \<open>std::round\<close>, which rounds ties away from
  zero; no rounding error enters.
\<close>

theorem round_half_even_correct:
  assumes "is_finite v"
  shows "is_finite (round_half_even v) \<and> valof (round_half_even v) = of_int (half_even (valof v))"
  by (rule round_half_even_value [OF assms])

theorem round_half_even_correct_witness:
  "is_finite (of_index False 0x4004000000000000) \<and> valof (of_index False 0x4004000000000000) = 5 / 2 \<and>
   valof (round_half_even (of_index False 0x4004000000000000)) = 2"
proof -
  have v: "is_finite (of_index False 0x4004000000000000)" "valof (of_index False 0x4004000000000000) = 5 / 2"
    by (simp_all add: value_defs power_divide)
  have "\<lfloor>5 / 2 :: real\<rfloor> = 2" by linarith
  then have "half_even (5 / 2) = 2" by (simp add: half_even_def)
  with v(1) round_half_even_correct [OF v(1)] show ?thesis by (simp add: v(2))
qed

text \<open>
  C38: a snapped price is a multiple of the grid step, rounded once, and the nearest one to the
  price up to the two roundings: no multiple of the step is nearer by more than the sum of price and
  step divided by \<open>2\<^sup>5\<^sup>1\<close> (and half of the smallest double). The step is that of the first range
  with a positive step that contains the price, or one cent when none does; the multiple is the
  rounded quotient, ties going to the even integer. The premises say that neither the quotient nor
  the snapped price overflows.
\<close>

theorem snap_to_grid_nearest:
  assumes "is_finite (ddiv p (grid_step p ranges))" "is_finite (snap_to_grid p ranges)"
  shows "(\<exists>kd. snap_to_grid p ranges = dmul kd (grid_step p ranges) \<and> is_finite kd \<and>
       valof kd = of_int (half_even (valof (ddiv p (grid_step p ranges))))) \<and>
    (\<forall>m. \<bar>valof (snap_to_grid p ranges) - valof p\<bar>
      \<le> \<bar>of_int m * valof (grid_step p ranges) - valof p\<bar> + (\<bar>valof p\<bar> + valof (grid_step p ranges)) / 2 ^ 51 + 2 powi (- 1075))"
  using snap_shape [OF assms] snap_near [OF assms] by blast+

theorem snap_to_grid_nearest_witness:
  "(\<exists>kd. snap_to_grid (double_lit 1 0) [] = dmul kd kCentGrid \<and> valof kd = of_int (half_even 100)) \<and>
   \<bar>valof (snap_to_grid (double_lit 1 0) []) - 1\<bar> \<le> \<bar>of_int 99 * valof kCentGrid - 1\<bar> + (\<bar>1\<bar> + valof kCentGrid) / 2 ^ 51 + 2 powi (- 1075)"
proof -
  have g: "grid_step (double_lit 1 0) [] = kCentGrid" by (simp add: grid_step_def)
  have q: "is_finite (ddiv (double_lit 1 0) (grid_step (double_lit 1 0) []))"
    unfolding g one_div_cent by (rule hundred(2))
  have "snap_to_grid (double_lit 1 0) [] = double_lit 1 0" unfolding snap_to_grid_eq g by (rule snap_one)
  then have s: "is_finite (snap_to_grid (double_lit 1 0) [])" using valof_one(2) by (simp only:)
  show ?thesis
    using snap_to_grid_nearest [OF q s] unfolding g one_div_cent hundred(1) valof_one(1) by blast
qed

text \<open>
  On the default cent grid a price between zero and one dollar snaps to one between zero and
  one dollar.
\<close>

lemma snap_default_bounds:
  assumes "is_finite p" "\<not> negative p" "valof p \<le> 1"
  shows "0 \<le> valof (snap_to_grid p [kDefaultPriceRange]) \<and> valof (snap_to_grid p [kDefaultPriceRange]) \<le> 1"
  using snap_cent_bounds [OF assms] by (simp only: snap_default)

end
