(* ===== verification/Orders.thy ===== *)
theory Orders
  imports Protocol_Types
begin

text \<open>
  The order templates of \<open>src/orders.cpp\<close>: both sides of a ticker, built together when the ticker
  is first seen. The hash map is a finite map from tickers to the two templates.
\<close>

record OrderTemplate =
  ticker :: string
  outcome_side :: Direction

definition side_index :: "Direction \<Rightarrow> nat" where
  "side_index side = (if side = Yes then 0 else 1)"

definition both_sides :: "string \<Rightarrow> OrderTemplate list" where
  "both_sides t = [\<lparr>ticker = t, outcome_side = Yes\<rparr>, \<lparr>ticker = t, outcome_side = No\<rparr>]"

type_synonym OrderTemplates = "string \<rightharpoonup> OrderTemplate list"

definition acquire :: "OrderTemplates \<Rightarrow> string \<Rightarrow> Direction \<Rightarrow> OrderTemplate \<times> OrderTemplates" where
  "acquire by_ticker t side =
     (case by_ticker t of
        Some found \<Rightarrow> (found ! side_index side, by_ticker)
      | None \<Rightarrow>
          let built = both_sides t in (built ! side_index side, by_ticker(t \<mapsto> built)))"

definition templates_size :: "OrderTemplates \<Rightarrow> nat" where
  "templates_size by_ticker = card (dom by_ticker)"

section \<open>The contract of a cache\<close>

text \<open>
  What a client of the templates relies on: the entries are what a fresh build gives, so a
  lookup never shows whether it was a hit; an entry, once there, is never changed or lost.
\<close>

locale build_cache =
  fixes build :: "'k \<Rightarrow> 'v" and pick :: "'s \<Rightarrow> 'v \<Rightarrow> 'r"
    and get :: "('k \<rightharpoonup> 'v) \<Rightarrow> 'k \<Rightarrow> 's \<Rightarrow> 'r \<times> ('k \<rightharpoonup> 'v)"
  assumes get_hit: "m k = Some v \<Longrightarrow> get m k s = (pick s v, m)"
    and get_miss: "m k = None \<Longrightarrow> get m k s = (pick s (build k), m(k \<mapsto> build k))"
begin

definition cache_ok :: "('k \<rightharpoonup> 'v) \<Rightarrow> bool" where
  "cache_ok m \<longleftrightarrow> finite (dom m) \<and> (\<forall>k v. m k = Some v \<longrightarrow> v = build k)"

lemma get_result:
  assumes "cache_ok m"
  shows "fst (get m k s) = pick s (build k) \<and> cache_ok (snd (get m k s)) \<and>
    m \<subseteq>\<^sub>m snd (get m k s) \<and> dom (snd (get m k s)) = insert k (dom m)"
proof (cases "m k")
  case None
  then show ?thesis using assms by (auto simp: get_miss cache_ok_def map_le_def)
next
  case (Some v)
  then have "v = build k" "k \<in> dom m" using assms by (auto simp: cache_ok_def)
  with Some assms show ?thesis by (auto simp: get_hit)
qed

end

interpretation templates: build_cache both_sides "\<lambda>side sides. sides ! side_index side" acquire
  by unfold_locales (simp_all add: acquire_def Let_def)

definition templates_ok :: "OrderTemplates \<Rightarrow> bool" where
  "templates_ok m \<longleftrightarrow> finite (dom m) \<and> (\<forall>t sides. m t = Some sides \<longrightarrow> sides = both_sides t)"

lemma cache_ok_eq: "templates.cache_ok = templates_ok"
  by (auto simp: templates.cache_ok_def templates_ok_def)

lemma both_sides_nth: "both_sides t ! side_index side = \<lparr>ticker = t, outcome_side = side\<rparr>"
  by (cases side) (simp_all add: both_sides_def side_index_def)

lemma acquire_spec:
  assumes "templates_ok m"
  shows "fst (acquire m t side) = \<lparr>ticker = t, outcome_side = side\<rparr> \<and>
     templates_ok (snd (acquire m t side)) \<and> m \<subseteq>\<^sub>m snd (acquire m t side) \<and>
     templates_size (snd (acquire m t side)) = (if t \<in> dom m then templates_size m else Suc (templates_size m))"
proof -
  have r: "fst (acquire m t side) = both_sides t ! side_index side" "templates_ok (snd (acquire m t side))"
      "m \<subseteq>\<^sub>m snd (acquire m t side)" "dom (snd (acquire m t side)) = insert t (dom m)"
    using templates.get_result [of m t side] assms unfolding cache_ok_eq by simp_all
  have "finite (dom m)" using assms by (simp add: templates_ok_def)
  then have "templates_size (snd (acquire m t side)) = (if t \<in> dom m then templates_size m else Suc (templates_size m))"
    unfolding templates_size_def r(4) by (rule card_insert_if)
  with r(1-3) show ?thesis by (simp only: both_sides_nth)
qed

section \<open>Properties\<close>

text \<open>
  C39: a request is answered with the template of its own ticker and side, whether or not the
  ticker was seen before; only a first request grows the table, by one entry, and no template the
  table holds is ever changed or dropped.
\<close>

theorem acquire_correct:
  assumes "templates_ok m"
  shows "fst (acquire m t side) = \<lparr>ticker = t, outcome_side = side\<rparr> \<and>
     templates_ok (snd (acquire m t side)) \<and>
     m \<subseteq>\<^sub>m snd (acquire m t side) \<and>
     templates_size (snd (acquire m t side)) = (if t \<in> dom m then templates_size m else Suc (templates_size m))"
  by (rule acquire_spec [OF assms])

theorem acquire_correct_witness:
  "templates_ok Map.empty \<and>
   fst (acquire Map.empty ''KX'' No) = \<lparr>ticker = ''KX'', outcome_side = No\<rparr> \<and>
   templates_size (snd (acquire Map.empty ''KX'' No)) = 1"
proof -
  have "templates_ok Map.empty" by (simp add: templates_ok_def)
  with acquire_correct [OF this, of "''KX''" No] show ?thesis by (simp add: templates_size_def)
qed

end
