(* ===== verification/Kill_Switch.thy ===== *)
theory Kill_Switch
  imports Prelude
begin

text \<open>
  The kill switch of \<open>src/killswitch.cpp\<close>. The file system is its argument: what stands at the
  switch's path (the contents, if there is a file) and whether the calls the switch makes on it
  succeed. \<open>std::filesystem::exists\<close> answers \<open>None\<close> where it sets its error code. Clock
  readings are 64-bit words, read as signed.
\<close>

record kill_switch =
  ks_ttl_ns :: int64
  ks_checked_at_ns :: int64
  ks_cached :: bool
  ks_has_cached :: bool

definition kDefaultTtlNs :: int64 where
  "kDefaultTtlNs = 1000000000"

definition KillSwitch :: "int64 \<Rightarrow> kill_switch" where
  "KillSwitch ttl_ns = \<lparr>ks_ttl_ns = ttl_ns, ks_checked_at_ns = 0, ks_cached = False, ks_has_cached = False\<rparr>"

definition is_engaged :: "int64 \<Rightarrow> bool option \<Rightarrow> kill_switch \<Rightarrow> bool \<times> kill_switch" where
  "is_engaged now exists ks =
     (if ks_has_cached ks \<and> sint (now - ks_checked_at_ns ks) < sint (ks_ttl_ns ks) then (ks_cached ks, ks)
      else let cached = (exists = Some True)
           in (cached, ks\<lparr>ks_cached := cached, ks_has_cached := True, ks_checked_at_ns := now\<rparr>))"

definition is_blank :: "char \<Rightarrow> bool" where
  "is_blank c \<longleftrightarrow> c = CHR '' '' \<or> c = CHR 0x09 \<or> c = CHR 0x0D \<or> c = CHR 0x0A"

definition reason :: "string option \<Rightarrow> string" where
  "reason file =
     (case file of
        None \<Rightarrow> []
      | Some text \<Rightarrow> rev (dropWhile is_blank (rev text)))"

definition invalidate :: "kill_switch \<Rightarrow> kill_switch" where
  "invalidate ks = ks\<lparr>ks_has_cached := False, ks_checked_at_ns := 0\<rparr>"

text \<open>\<open>writable\<close>: the stream opens and takes the text. \<open>removable\<close>: the removal succeeds.\<close>

definition engage :: "bool \<Rightarrow> string \<Rightarrow> string option \<Rightarrow> kill_switch \<Rightarrow> string option \<times> kill_switch" where
  "engage writable why file ks =
     (if writable then Some (why @ [CHR 0x0A]) else file, invalidate ks)"

definition release :: "bool \<Rightarrow> string option \<Rightarrow> kill_switch \<Rightarrow> string option \<times> kill_switch" where
  "release removable file ks = (if removable then None else file, invalidate ks)"

section \<open>Freshness\<close>

text \<open>
  \<open>present t\<close> is what a probe at time \<open>t\<close> answers. The cache is what a probe answered at the
  time it recorded.
\<close>

definition switch_ok :: "(int \<Rightarrow> bool option) \<Rightarrow> int \<Rightarrow> kill_switch \<Rightarrow> bool" where
  "switch_ok present now ks \<longleftrightarrow>
     (ks_has_cached ks \<longrightarrow>
        ks_cached ks = (present (sint (ks_checked_at_ns ks)) = Some True) \<and>
        0 \<le> sint (ks_checked_at_ns ks) \<and> sint (ks_checked_at_ns ks) \<le> now)"

lemma switch_ok_start [simp]: "switch_ok present now (KillSwitch ttl)"
  and switch_ok_invalidate [simp]: "switch_ok present now (invalidate ks)"
  by (simp_all add: switch_ok_def KillSwitch_def invalidate_def)

lemma sint_diff:
  assumes "0 \<le> sint (a :: int64)" "sint a \<le> sint b"
  shows "sint (b - a) = sint b - sint a"
  using assms sint_less [of b] by (simp add: sint_word_ariths signed_take_bit_int_eq_self)

lemma is_engaged_spec:
  assumes "switch_ok present prev ks" "prev \<le> sint now" "0 \<le> sint now"
    and "is_engaged now (present (sint now)) ks = (b, ks')"
  shows "switch_ok present (sint now) ks' \<and> ks_ttl_ns ks' = ks_ttl_ns ks \<and>
    (\<exists>t. 0 \<le> t \<and> t \<le> sint now \<and> (t = sint now \<or> sint now - t < sint (ks_ttl_ns ks)) \<and> b = (present t = Some True))"
proof (cases "ks_has_cached ks \<and> sint (now - ks_checked_at_ns ks) < sint (ks_ttl_ns ks)")
  case True
  then have c: "b = ks_cached ks" "ks' = ks" using assms(4) by (auto simp: is_engaged_def)
  have ok: "0 \<le> sint (ks_checked_at_ns ks)" "sint (ks_checked_at_ns ks) \<le> sint now"
      "ks_cached ks = (present (sint (ks_checked_at_ns ks)) = Some True)"
    using assms(1,2) True by (auto simp: switch_ok_def)
  have "sint now - sint (ks_checked_at_ns ks) < sint (ks_ttl_ns ks)"
    using True sint_diff [OF ok(1,2)] by simp
  with ok c show ?thesis by (auto simp: switch_ok_def)
next
  case False
  then have "b = (present (sint now) = Some True)"
      "ks' = ks\<lparr>ks_cached := b, ks_has_cached := True, ks_checked_at_ns := now\<rparr>"
    using assms(4) by (auto simp: is_engaged_def Let_def)
  with assms(3) show ?thesis by (auto simp: switch_ok_def)
qed

section \<open>Properties\<close>

text \<open>
  C15: the delay between a change of the switch file and the answers that reflect it is bounded by
  the time to live: once the file has been there (or gone) for that long, every answer says so.
\<close>

theorem is_engaged_delay:
  assumes "switch_ok present prev ks" "prev \<le> sint now" "0 \<le> sint now"
    and "\<forall>t. since \<le> t \<and> t \<le> sint now \<longrightarrow> (present t = Some True) = there"
    and "since + sint (ks_ttl_ns ks) \<le> sint now" "since \<le> sint now"
  shows "fst (is_engaged now (present (sint now)) ks) = there"
proof (cases "is_engaged now (present (sint now)) ks")
  case (Pair b ks')
  then obtain t where "t \<le> sint now" "t = sint now \<or> sint now - t < sint (ks_ttl_ns ks)" "b = (present t = Some True)"
    using is_engaged_spec [OF assms(1-3)] by blast
  moreover from this have "since \<le> t" using assms(5,6) by auto
  ultimately show ?thesis using Pair assms(4) by simp
qed

theorem is_engaged_delay_witness:
  "fst (is_engaged 2500 (Some True) \<lparr>ks_ttl_ns = 1000, ks_checked_at_ns = 1000, ks_cached = False, ks_has_cached = True\<rparr>) = True"
  using is_engaged_delay [of "\<lambda>t. Some (1500 \<le> t)" 1000
      "\<lparr>ks_ttl_ns = 1000, ks_checked_at_ns = 1000, ks_cached = False, ks_has_cached = True\<rparr>" 2500 1500 True]
  by (simp add: switch_ok_def)

text \<open>
  After \<open>engage\<close> has written its file the very next question is answered yes, whatever was
  cached, and \<open>reason\<close> gives the reason back without its trailing white space; after \<open>release\<close>
  has removed the file the next answer is no and the reason is empty.
\<close>

lemma engage_release:
  "(case engage True why file ks of (file', ks') \<Rightarrow>
      reason file' = rev (dropWhile is_blank (rev why)) \<and> fst (is_engaged now (Some (file' \<noteq> None)) ks')) \<and>
   (case release True file ks of (file', ks') \<Rightarrow>
      reason file' = [] \<and> \<not> fst (is_engaged now (Some (file' \<noteq> None)) ks'))"
  by (simp add: engage_def release_def reason_def is_engaged_def invalidate_def Let_def is_blank_def)

end
