(* ===== verification/Executor.thy ===== *)
theory Executor
  imports Wire_Frames Pricing Orders Kill_Switch
begin

text \<open>
  The connection loop and the fire path of \<open>src/executor.cpp\<close>. The operating system is the
  loop's argument: what each \<open>read\<close> and \<open>send\<close> does, and for every pass of the loop the
  answers it gets (the stop flag, the clocks, the probe of the kill switch's file). What the loop
  does to the world is the list of its effects, in order: bytes handed to the peer, recorded
  spans, dispatched fires. A loop that still waits for the operating system when its script ends
  is reported as waiting, so a script is any finite part of a run.
\<close>

section \<open>Data\<close>

record FireRequest =
  fr_order :: OrderTemplate
  fr_price_dollars :: double
  fr_exchange_index :: int64
  fr_correlation_id :: string
  fr_correlation_group :: string
  fr_dry_run :: bool

record WakeRecvEvent =
  wr_correlation_id :: string
  wr_started_at_ms :: int64
  wr_ended_at_ms :: int64
  wr_duration_ms :: double
  wr_dry_run :: bool

datatype FireOutcome = Dispatched | RefusedUntradeablePrice | RefusedKillSwitch

record ExecutorStats =
  frames_read :: uint64
  acks_accepted :: uint64
  acks_rejected :: uint64
  fires_dispatched :: uint64
  fires_refused_price :: uint64
  fires_refused_kill_switch :: uint64

definition zero_stats :: ExecutorStats where
  "zero_stats = \<lparr>frames_read = 0, acks_accepted = 0, acks_rejected = 0, fires_dispatched = 0,
     fires_refused_price = 0, fires_refused_kill_switch = 0\<rparr>"

datatype effect = Sent_bytes "byte list" | Recorded WakeRecvEvent | Dispatch FireRequest

text \<open>
  The two callbacks of the configuration are present or null; a call is an effect. The kill
  switch is the object the configuration points to, if any.
\<close>

record executor =
  ex_dispatch :: bool
  ex_record_wake_recv :: bool
  ex_kill_switch :: "kill_switch option"
  ex_templates :: OrderTemplates
  ex_stats :: ExecutorStats
  ex_ack :: "byte list"
  ex_effects :: "effect list"

definition ExecutorServer :: "bool \<Rightarrow> bool \<Rightarrow> kill_switch option \<Rightarrow> executor" where
  "ExecutorServer disp rec ks =
     \<lparr>ex_dispatch = disp, ex_record_wake_recv = rec, ex_kill_switch = ks, ex_templates = Map.empty,
      ex_stats = zero_stats, ex_ack = [], ex_effects = []\<rparr>"

definition emit :: "effect \<Rightarrow> executor \<Rightarrow> executor" where
  "emit e ex = ex\<lparr>ex_effects := ex_effects ex @ [e]\<rparr>"

section \<open>The fire path\<close>

definition handle_fire :: "int64 \<Rightarrow> bool option \<Rightarrow> WakeMessage \<Rightarrow> executor \<Rightarrow> FireOutcome \<times> executor" where
  "handle_fire now exists m ex =
     (if \<not> dry_run m \<and>
         (dle (wire_price_yes_dollars m) (double_lit 0 0) \<or> dle (double_lit 1 0) (wire_price_yes_dollars m))
      then (RefusedUntradeablePrice,
            ex\<lparr>ex_stats := (ex_stats ex)\<lparr>fires_refused_price := fires_refused_price (ex_stats ex) + 1\<rparr>\<rparr>)
      else
        let wire_price = snap_to_grid (wire_price_yes_dollars m) (price_ranges m);
            (engaged, ex) =
              (case ex_kill_switch ex of
                 Some ks \<Rightarrow>
                   if \<not> dry_run m
                   then let (b, ks') = is_engaged now exists ks in (b, ex\<lparr>ex_kill_switch := Some ks'\<rparr>)
                   else (False, ex)
               | None \<Rightarrow> (False, ex))
        in if engaged
           then (RefusedKillSwitch,
                 ex\<lparr>ex_stats := (ex_stats ex)\<lparr>fires_refused_kill_switch := fires_refused_kill_switch (ex_stats ex) + 1\<rparr>\<rparr>)
           else
             let (order, templates) = acquire (ex_templates ex) (market_ticker m) (direction m);
                 ex = ex\<lparr>ex_templates := templates,
                          ex_stats := (ex_stats ex)\<lparr>fires_dispatched := fires_dispatched (ex_stats ex) + 1\<rparr>\<rparr>;
                 ex = (if ex_dispatch ex
                       then emit (Dispatch \<lparr>fr_order = order, fr_price_dollars = wire_price,
                              fr_exchange_index = exchange_index m, fr_correlation_id = correlation_id m,
                              fr_correlation_group = correlation_group m, fr_dry_run = dry_run m\<rparr>) ex
                       else ex)
             in (Dispatched, ex))"

section \<open>Reading and sending\<close>

text \<open>
  What the socket does next: bytes are there, the peer has closed its end, or a call fails, with
  the two facts the code looks at then: whether \<open>errno\<close> is \<open>EINTR\<close> and whether the stop flag is
  up. A read takes as many of the bytes that are there as it asks for.
\<close>

datatype rx = Chunk "byte list" | Closed | Read_fault bool bool

datatype ReadResult = Read_ok "byte list" | PeerClosed | Failed | Read_waits

fun read_exactly :: "nat \<Rightarrow> byte list \<Rightarrow> rx list \<Rightarrow> ReadResult \<times> rx list" where
  "read_exactly count filled rxs =
     (if length filled < count then
        (case rxs of
           [] \<Rightarrow> (Read_waits, [])
         | Chunk bs # rxs' \<Rightarrow>
             if length bs \<le> count - length filled then read_exactly count (filled @ bs) rxs'
             else (Read_ok (filled @ take (count - length filled) bs), Chunk (drop (count - length filled) bs) # rxs')
         | Closed # rxs' \<Rightarrow> (if filled = [] then PeerClosed else Failed, Closed # rxs')
         | Read_fault eintr stop # rxs' \<Rightarrow>
             if eintr \<and> \<not> stop then read_exactly count filled rxs' else (Failed, rxs'))
      else (Read_ok filled, rxs))"

declare read_exactly.simps [simp del]

datatype tx = Wrote nat | Send_fault bool bool

datatype SendResult = Send_ok | Send_failed | Send_waits

fun send_frame :: "byte list \<Rightarrow> tx list \<Rightarrow> SendResult \<times> byte list" where
  "send_frame [] txs = (Send_ok, [])"
| "send_frame (b # frame) [] = (Send_waits, [])"
| "send_frame (b # frame) (Wrote n # txs) =
     (let (res, sent) = send_frame (drop n (b # frame)) txs in (res, take n (b # frame) @ sent))"
| "send_frame (b # frame) (Send_fault eintr stop # txs) =
     (if eintr \<and> \<not> stop then send_frame (b # frame) txs else (Send_failed, []))"

section \<open>The connection loop\<close>

text \<open>What one pass of the loop is told by its environment.\<close>

record pass =
  ps_stopping :: bool
  ps_started_at_ms :: int64
  ps_started_ns :: int64
  ps_txs :: "tx list"
  ps_ended_ns :: int64
  ps_ended_at_ms :: int64
  ps_now_ns :: int64
  ps_exists :: "bool option"

datatype flow = Continue | Return | Waiting

definition rejected_ack :: "int64 \<Rightarrow> string \<Rightarrow> WakeAck" where
  "rejected_ack at_ms why = \<lparr>ack_schema_version = kSchemaVersion, ack_correlation_id = [], ack_received_at_ms = at_ms,
     ack_status = Rejected, ack_reason = Some why\<rparr>"

definition accepted_ack :: "int64 \<Rightarrow> string \<Rightarrow> WakeAck" where
  "accepted_ack at_ms cid = \<lparr>ack_schema_version = kSchemaVersion, ack_correlation_id = cid, ack_received_at_ms = at_ms,
     ack_status = Accepted, ack_reason = None\<rparr>"

definition send_ack :: "tx list \<Rightarrow> WakeAck \<Rightarrow> executor \<Rightarrow> flow \<times> executor" where
  "send_ack txs a ex =
     (let frame = encode_frame_into_ack a (ex_ack ex);
          (res, sent) = send_frame frame txs;
          ex = emit (Sent_bytes sent) (ex\<lparr>ex_ack := frame\<rparr>)
      in (case res of Send_ok \<Rightarrow> Continue | Send_failed \<Rightarrow> Return | Send_waits \<Rightarrow> Waiting, ex))"

definition span_ms :: "int64 \<Rightarrow> double" where
  "span_ms ns = ddiv (double_of_int (sint ns)) (double_lit 1 6)"

definition serve_frame :: "pass \<Rightarrow> byte list \<Rightarrow> executor \<Rightarrow> flow \<times> executor" where
  "serve_frame ps body ex =
     (let ex = ex\<lparr>ex_stats := (ex_stats ex)\<lparr>frames_read := frames_read (ex_stats ex) + 1\<rparr>\<rparr>
      in case decode_wake_message body of
           Inl e \<Rightarrow>
             send_ack (ps_txs ps) (rejected_ack (ps_started_at_ms ps) (message e))
               (ex\<lparr>ex_stats := (ex_stats ex)\<lparr>acks_rejected := acks_rejected (ex_stats ex) + 1\<rparr>\<rparr>)
         | Inr m \<Rightarrow>
             (case send_ack (ps_txs ps) (accepted_ack (ps_started_at_ms ps) (correlation_id m))
                (ex\<lparr>ex_stats := (ex_stats ex)\<lparr>acks_accepted := acks_accepted (ex_stats ex) + 1\<rparr>\<rparr>) of
                (Continue, ex) \<Rightarrow>
                  (let ex = (if ex_record_wake_recv ex
                       then emit (Recorded \<lparr>wr_correlation_id = correlation_id m, wr_started_at_ms = ps_started_at_ms ps,
                              wr_ended_at_ms = ps_ended_at_ms ps, wr_duration_ms = span_ms (ps_ended_ns ps - ps_started_ns ps),
                              wr_dry_run = dry_run m\<rparr>) ex
                       else ex)
                   in (Continue, snd (handle_fire (ps_now_ns ps) (ps_exists ps) m ex)))
              | (f, ex) \<Rightarrow> (f, ex)))"

fun serve_connection :: "pass list \<Rightarrow> rx list \<Rightarrow> executor \<Rightarrow> flow \<times> executor" where
  "serve_connection [] rxs ex = (Waiting, ex)"
| "serve_connection (ps # pss) rxs ex =
     (if ps_stopping ps then (Return, ex)
      else case read_exactly kFrameLengthBytes [] rxs of
        (Read_ok prefix, rxs1) \<Rightarrow>
          (case decode_frame_length prefix of
             Inl e \<Rightarrow> (Return, ex)
           | Inr len \<Rightarrow>
               (case read_exactly (unat len) [] rxs1 of
                  (Read_ok body, rxs2) \<Rightarrow>
                    (case serve_frame ps body ex of
                       (Continue, ex1) \<Rightarrow> serve_connection pss rxs2 ex1
                     | (f, ex1) \<Rightarrow> (f, ex1))
                | (Read_waits, _) \<Rightarrow> (Waiting, ex)
                | (_, _) \<Rightarrow> (Return, ex)))
      | (Read_waits, _) \<Rightarrow> (Waiting, ex)
      | (_, _) \<Rightarrow> (Return, ex))"

end
