(* ===== verification/Executor_Stream.thy ===== *)
theory Executor_Stream
  imports Executor
begin

text \<open>
  The connection loop against its specification on the byte stream: how the bytes are cut into
  reads and which calls are interrupted does not matter. Then what a whole conversation does: the
  wakes of a peer are acked and fired in order, each ack before its fire.
\<close>

section \<open>Reads\<close>

definition quiet :: "rx list \<Rightarrow> bool" where
  "quiet rxs \<longleftrightarrow> (\<forall>e \<in> set rxs. (\<exists>bs. e = Chunk bs) \<or> e = Read_fault True False)"

fun bytes_of :: "rx list \<Rightarrow> byte list" where
  "bytes_of [] = []"
| "bytes_of (Chunk bs # rxs) = bs @ bytes_of rxs"
| "bytes_of (e # rxs) = bytes_of rxs"

lemma quiet_simps [simp]:
  "quiet []" "quiet (Chunk bs # rxs) = quiet rxs" "quiet (Read_fault True False # rxs) = quiet rxs"
  by (auto simp: quiet_def)

lemma quiet_cases:
  assumes "quiet rxs"
  obtains "rxs = []" | bs rxs' where "rxs = Chunk bs # rxs'" "quiet rxs'"
    | rxs' where "rxs = Read_fault True False # rxs'" "quiet rxs'"
  using assms by (cases rxs) (auto simp: quiet_def)

definition close_mark :: "bool \<Rightarrow> rx list" where
  "close_mark eof = (if eof then [Closed] else [])"

lemma read_exactly_full: "count \<le> length filled \<Longrightarrow> read_exactly count filled rxs = (Read_ok filled, rxs)"
  by (simp add: read_exactly.simps [of count filled])

lemma read_exactly_enough:
  assumes "quiet rxs" "length filled \<le> count" "count \<le> length filled + length (bytes_of rxs)"
  shows "\<exists>rxs'. read_exactly count filled (rxs @ tail) = (Read_ok (take count (filled @ bytes_of rxs)), rxs' @ tail) \<and>
    quiet rxs' \<and> bytes_of rxs' = drop count (filled @ bytes_of rxs)"
  using assms
proof (induction rxs arbitrary: filled)
  case Nil
  then show ?case by (auto simp: read_exactly_full intro!: exI [of _ "[]"])
next
  case (Cons e rxs)
  show ?case
  proof (cases "length filled < count")
    case False
    with Cons.prems show ?thesis
      by (auto simp: read_exactly_full intro!: exI [of _ "e # rxs"])
  next
    case True
    from Cons.prems(1) consider bs where "e = Chunk bs" "quiet rxs" | "e = Read_fault True False" "quiet rxs"
      by (rule quiet_cases) auto
    then show ?thesis
    proof cases
      case (1 bs)
      show ?thesis
      proof (cases "length bs \<le> count - length filled")
        case fit: True
        with True 1 Cons.IH [of "filled @ bs"] Cons.prems show ?thesis
          by (simp add: read_exactly.simps [of count filled])
      next
        case False
        with True 1 show ?thesis
          by (auto simp: read_exactly.simps [of count filled]
              intro!: exI [of _ "Chunk (drop (count - length filled) bs) # rxs"])
      qed
    next
      case 2
      with True Cons.IH [of filled] Cons.prems show ?thesis
        by (simp add: read_exactly.simps [of count filled])
    qed
  qed
qed

lemma read_exactly_short:
  assumes "quiet rxs" "length filled + length (bytes_of rxs) < count"
  shows "fst (read_exactly count filled (rxs @ close_mark eof)) =
    (if \<not> eof then Read_waits else if filled @ bytes_of rxs = [] then PeerClosed else Failed)"
  using assms
proof (induction rxs arbitrary: filled)
  case Nil
  then show ?case by (simp add: read_exactly.simps [of count filled] close_mark_def)
next
  case (Cons e rxs)
  have less: "length filled < count" using Cons.prems(2) by simp
  from Cons.prems(1) consider bs where "e = Chunk bs" "quiet rxs" | "e = Read_fault True False" "quiet rxs"
    by (rule quiet_cases) auto
  then show ?case
  proof cases
    case (1 bs)
    with less Cons.IH [of "filled @ bs"] Cons.prems show ?thesis
      by (auto simp: read_exactly.simps [of count filled])
  next
    case 2
    with less Cons.IH [of filled] Cons.prems show ?thesis
      by (simp add: read_exactly.simps [of count filled])
  qed
qed

section \<open>The loop on the byte stream\<close>

text \<open>The specification: cut the stream into frames, serve each.\<close>

fun serve_stream :: "pass list \<Rightarrow> byte list \<Rightarrow> bool \<Rightarrow> executor \<Rightarrow> flow \<times> executor" where
  "serve_stream [] stream eof ex = (Waiting, ex)"
| "serve_stream (ps # pss) stream eof ex =
     (if ps_stopping ps then (Return, ex)
      else if length stream < kFrameLengthBytes then (if eof then Return else Waiting, ex)
      else case decode_frame_length (take kFrameLengthBytes stream) of
             Inl e \<Rightarrow> (Return, ex)
           | Inr len \<Rightarrow>
               let stream' = drop kFrameLengthBytes stream
               in if length stream' < unat len then (if eof then Return else Waiting, ex)
                  else case serve_frame ps (take (unat len) stream') ex of
                         (Continue, ex1) \<Rightarrow> serve_stream pss (drop (unat len) stream') eof ex1
                       | (f, ex1) \<Rightarrow> (f, ex1))"

lemma read_short_flow:
  assumes "quiet rxs" "length (bytes_of rxs) < count"
  obtains x rxs1 where "read_exactly count [] (rxs @ close_mark eof) = (x, rxs1)"
    "if eof then x = PeerClosed \<or> x = Failed else x = Read_waits"
proof -
  obtain x rxs1 where x: "read_exactly count [] (rxs @ close_mark eof) = (x, rxs1)" by fastforce
  then show ?thesis using read_exactly_short [of rxs "[]" count eof] assms that [of x rxs1] by (auto split: if_splits)
qed

lemma serve_connection_eq:
  "quiet rxs \<Longrightarrow> serve_connection pss (rxs @ close_mark eof) ex = serve_stream pss (bytes_of rxs) eof ex"
proof (induction pss arbitrary: rxs ex)
  case (Cons ps pss)
  show ?case
  proof (cases "length (bytes_of rxs) < kFrameLengthBytes")
    case True
    obtain x rxs1 where "read_exactly kFrameLengthBytes [] (rxs @ close_mark eof) = (x, rxs1)"
        "if eof then x = PeerClosed \<or> x = Failed else x = Read_waits"
      by (rule read_short_flow [OF Cons.prems True])
    with True show ?thesis by (auto split: if_splits)
  next
    case False
    then obtain rxs1 where r1: "read_exactly kFrameLengthBytes [] (rxs @ close_mark eof) =
        (Read_ok (take kFrameLengthBytes (bytes_of rxs)), rxs1 @ close_mark eof)"
        "quiet rxs1" "bytes_of rxs1 = drop kFrameLengthBytes (bytes_of rxs)"
      using read_exactly_enough [OF Cons.prems, of "[]" kFrameLengthBytes "close_mark eof"] by auto
    show ?thesis
    proof (cases "decode_frame_length (take kFrameLengthBytes (bytes_of rxs))")
      case (Inl e)
      with False r1 show ?thesis by simp
    next
      case (Inr len)
      show ?thesis
      proof (cases "length (bytes_of rxs1) < unat len")
        case True
        obtain x rxs2 where "read_exactly (unat len) [] (rxs1 @ close_mark eof) = (x, rxs2)"
            "if eof then x = PeerClosed \<or> x = Failed else x = Read_waits"
          by (rule read_short_flow [OF r1(2) True])
        with True False r1 Inr show ?thesis by (auto simp: Let_def split: if_splits)
      next
        case long: False
        then obtain rxs2 where r2: "read_exactly (unat len) [] (rxs1 @ close_mark eof) =
            (Read_ok (take (unat len) (bytes_of rxs1)), rxs2 @ close_mark eof)"
            "quiet rxs2" "bytes_of rxs2 = drop (unat len) (bytes_of rxs1)"
          using read_exactly_enough [OF r1(2), of "[]" "unat len" "close_mark eof"] by auto
        obtain f ex1 where s: "serve_frame ps (take (unat len) (bytes_of rxs1)) ex = (f, ex1)" by fastforce
        show ?thesis
          using False Inr long r1 r2 s Cons.IH [OF r2(2), of ex1] by (cases f) (simp_all add: Let_def)
      qed
    qed
  qed
qed simp

section \<open>Sends\<close>

lemma take_self: "xs = take k ys \<Longrightarrow> xs = take (length xs) ys"
  by (cases "k \<le> length ys") simp_all

lemma send_frame_prefix:
  "send_frame frame txs = (res, sent) \<Longrightarrow> sent = take (length sent) frame \<and> (res = Send_ok \<longleftrightarrow> sent = frame)"
proof (induction frame txs arbitrary: res sent rule: send_frame.induct)
  case (3 b frame n txs)
  obtain res' sent' where r: "send_frame (drop n (b # frame)) txs = (res', sent')" by fastforce
  have ih: "sent' = take (length sent') (drop n (b # frame))" "res' = Send_ok \<longleftrightarrow> sent' = drop n (b # frame)"
    using 3(1) [OF r] by blast+
  have s: "sent = take n (b # frame) @ sent'" "res = res'" using 3(2) r by auto
  have "sent = take (n + length sent') (b # frame)" unfolding s(1) by (subst ih(1)) (simp only: take_add)
  moreover have "sent = b # frame \<longleftrightarrow> sent' = drop n (b # frame)"
    unfolding s(1) using append_take_drop_id [of n "b # frame"] by (metis same_append_eq)
  ultimately show ?case using ih(2) s(2) take_self by blast
qed (auto split: if_splits)

lemma encode_ack_buffer: "encode_frame_into_ack a out = encode_frame_ack a"
  by (simp add: encode_frame_ack_def encode_ack_eq)

lemma send_ack_eq:
  "send_ack txs a ex =
     (case send_frame (encode_frame_ack a) txs of (res, sent) \<Rightarrow>
        (case res of Send_ok \<Rightarrow> Continue | Send_failed \<Rightarrow> Return | Send_waits \<Rightarrow> Waiting,
         emit (Sent_bytes sent) (ex\<lparr>ex_ack := encode_frame_ack a\<rparr>)))"
  by (simp add: send_ack_def encode_ack_buffer Let_def split: prod.splits)

section \<open>A conversation\<close>

text \<open>What serving one wake does once its ack is out: record the span, then fire.\<close>

definition wake_ack :: "pass \<Rightarrow> WakeMessage \<Rightarrow> WakeAck" where
  "wake_ack ps m = accepted_ack (ps_started_at_ms ps) (correlation_id m)"

definition wake_span :: "pass \<Rightarrow> WakeMessage \<Rightarrow> WakeRecvEvent" where
  "wake_span ps m = \<lparr>wr_correlation_id = correlation_id m, wr_started_at_ms = ps_started_at_ms ps,
     wr_ended_at_ms = ps_ended_at_ms ps, wr_duration_ms = span_ms (ps_ended_ns ps - ps_started_ns ps),
     wr_dry_run = dry_run m\<rparr>"

definition count_accepted :: "executor \<Rightarrow> executor" where
  "count_accepted ex = ex\<lparr>ex_stats := (ex_stats ex)\<lparr>frames_read := frames_read (ex_stats ex) + 1,
     acks_accepted := acks_accepted (ex_stats ex) + 1\<rparr>\<rparr>"

definition acked_wake :: "pass \<Rightarrow> WakeMessage \<Rightarrow> executor \<Rightarrow> executor" where
  "acked_wake ps m ex =
     (let ex = emit (Sent_bytes (encode_frame_ack (wake_ack ps m)))
            ((count_accepted ex)\<lparr>ex_ack := encode_frame_ack (wake_ack ps m)\<rparr>)
      in if ex_record_wake_recv ex then emit (Recorded (wake_span ps m)) ex else ex)"

definition accept_wake :: "pass \<Rightarrow> WakeMessage \<Rightarrow> executor \<Rightarrow> executor" where
  "accept_wake ps m ex = snd (handle_fire (ps_now_ns ps) (ps_exists ps) m (acked_wake ps m ex))"

definition sends_whole :: "pass \<Rightarrow> WakeAck \<Rightarrow> bool" where
  "sends_whole ps a \<longleftrightarrow> fst (send_frame (encode_frame_ack a) (ps_txs ps)) = Send_ok"

lemma serve_frame_accepts:
  assumes "decode_wake_message body = Inr m" "sends_whole ps (wake_ack ps m)"
  shows "serve_frame ps body ex = (Continue, accept_wake ps m ex)"
proof -
  obtain res sent where s: "send_frame (encode_frame_ack (wake_ack ps m)) (ps_txs ps) = (res, sent)" by fastforce
  then have "res = Send_ok" "sent = encode_frame_ack (wake_ack ps m)"
    using assms(2) send_frame_prefix [OF s] by (simp_all add: sends_whole_def)
  with s show ?thesis
    by (simp add: serve_frame_def assms(1) send_ack_eq wake_ack_def [symmetric] wake_span_def [symmetric]
        accept_wake_def acked_wake_def count_accepted_def Let_def)
qed

lemma encode_frame_split:
  assumes "length (encode_frame_message m) \<le> kFrameLengthBytes + unat kMaxFrameBytes"
  shows "decode_frame_length (take kFrameLengthBytes (encode_frame_message m @ rest_bytes)) = Inr (word_of_nat (length (message_text m)))"
    "unat (word_of_nat (length (message_text m)) :: uint32) = length (message_text m)"
    "encode_frame_message m @ rest_bytes = take kFrameLengthBytes (encode_frame_message m) @ map as_byte (message_text m) @ rest_bytes"
    "length (encode_frame_message m) = kFrameLengthBytes + length (message_text m)"
proof -
  have len: "length (message_text m) \<le> 65536" using assms by (simp add: encode_frame_message_eq kMaxFrameBytes_def)
  then show u: "unat (word_of_nat (length (message_text m)) :: uint32) = length (message_text m)"
    by (simp add: unat_of_nat)
  show "decode_frame_length (take kFrameLengthBytes (encode_frame_message m @ rest_bytes)) = Inr (word_of_nat (length (message_text m)))"
    using len by (simp add: encode_frame_message_eq decode_frame_length_prefix word_less_nat_alt u kMaxFrameBytes_def)
qed (simp_all add: encode_frame_message_eq)

lemma serve_stream_wake:
  assumes "wf_message m" "length (encode_frame_message m) \<le> kFrameLengthBytes + unat kMaxFrameBytes"
    and "\<not> ps_stopping ps" "sends_whole ps (wake_ack ps m)"
  shows "serve_stream (ps # pss) (encode_frame_message m @ rest_bytes) eof ex =
    serve_stream pss rest_bytes eof (accept_wake ps m ex)"
proof -
  note e = encode_frame_split [OF assms(2)]
  have d: "drop kFrameLengthBytes (encode_frame_message m) = map as_byte (message_text m)"
    by (simp add: encode_frame_message_eq)
  have t: "take (length (message_text m)) (map as_byte (message_text m) @ rest_bytes) = map as_byte (message_text m)" by simp
  show ?thesis
    using e(1,2,4) assms(3) serve_frame_accepts [OF decode_message_text [OF assms(1)] assms(4), of ex]
    by (simp add: d t Let_def del: take_append)
qed

lemma serve_stream_wakes:
  assumes "length pss = length ms"
    and "\<And>ps m. (ps, m) \<in> set (zip pss ms) \<Longrightarrow> wf_message m \<and>
      length (encode_frame_message m) \<le> kFrameLengthBytes + unat kMaxFrameBytes \<and>
      \<not> ps_stopping ps \<and> sends_whole ps (wake_ack ps m)"
  shows "serve_stream (pss @ pss') (concat (map encode_frame_message ms) @ rest_bytes) eof ex =
    serve_stream pss' rest_bytes eof (fold (\<lambda>(ps, m). accept_wake ps m) (zip pss ms) ex)"
  using assms
proof (induction pss ms arbitrary: ex rule: list_induct2)
  case (Cons ps pss m ms)
  have "wf_message m" "length (encode_frame_message m) \<le> kFrameLengthBytes + unat kMaxFrameBytes"
      "\<not> ps_stopping ps" "sends_whole ps (wake_ack ps m)"
    using Cons.prems [of ps m] by simp_all
  from serve_stream_wake [OF this] have "serve_stream ((ps # pss) @ pss') (concat (map encode_frame_message (m # ms)) @ rest_bytes) eof ex =
      serve_stream (pss @ pss') (concat (map encode_frame_message ms) @ rest_bytes) eof (accept_wake ps m ex)"
    by (simp del: serve_stream.simps)
  also have "\<dots> = serve_stream pss' rest_bytes eof (fold (\<lambda>(ps, m). accept_wake ps m) (zip pss ms) (accept_wake ps m ex))"
    by (rule Cons.IH) (rule Cons.prems, simp)
  finally show ?case by simp
qed simp

end
