(* ===== verification/Executor_Properties.thy ===== *)
theory Executor_Properties
  imports Executor_Stream
begin

text \<open>
  The properties of the executor: the guards of the fire path, the order of acks and fires, the
  balance of the counters, and what the peer makes of the bytes it is sent.
\<close>

section \<open>The fire path\<close>

definition tradeable :: "WakeMessage \<Rightarrow> bool" where
  "tradeable m \<longleftrightarrow> \<not> dle (wire_price_yes_dollars m) (double_lit 0 0) \<and> \<not> dle (double_lit 1 0) (wire_price_yes_dollars m)"

definition halted :: "int64 \<Rightarrow> bool option \<Rightarrow> executor \<Rightarrow> bool" where
  "halted now exists ex \<longleftrightarrow> (\<exists>ks. ex_kill_switch ex = Some ks \<and> fst (is_engaged now exists ks))"

definition fire_of :: "WakeMessage \<Rightarrow> OrderTemplate \<Rightarrow> FireRequest" where
  "fire_of m order = \<lparr>fr_order = order, fr_price_dollars = snap_to_grid (wire_price_yes_dollars m) (price_ranges m),
     fr_exchange_index = exchange_index m, fr_correlation_id = correlation_id m,
     fr_correlation_group = correlation_group m, fr_dry_run = dry_run m\<rparr>"

lemma handle_fire_outcome:
  "fst (handle_fire now exists m ex) =
     (if dry_run m then Dispatched
      else if \<not> tradeable m then RefusedUntradeablePrice
      else if halted now exists ex then RefusedKillSwitch
      else Dispatched)"
  by (auto simp: handle_fire_def tradeable_def halted_def Let_def split: option.splits prod.splits)

lemma handle_fire_effects:
  "ex_effects (snd (handle_fire now exists m ex)) = ex_effects ex @
     (if fst (handle_fire now exists m ex) = Dispatched \<and> ex_dispatch ex
      then [Dispatch (fire_of m (fst (acquire (ex_templates ex) (market_ticker m) (direction m))))] else [])"
  by (auto simp: handle_fire_def fire_of_def emit_def Let_def split: option.splits prod.splits)

lemma handle_fire_stats:
  "ex_stats (snd (handle_fire now exists m ex)) =
     (case fst (handle_fire now exists m ex) of
        Dispatched \<Rightarrow> (ex_stats ex)\<lparr>fires_dispatched := fires_dispatched (ex_stats ex) + 1\<rparr>
      | RefusedUntradeablePrice \<Rightarrow> (ex_stats ex)\<lparr>fires_refused_price := fires_refused_price (ex_stats ex) + 1\<rparr>
      | RefusedKillSwitch \<Rightarrow> (ex_stats ex)\<lparr>fires_refused_kill_switch := fires_refused_kill_switch (ex_stats ex) + 1\<rparr>)"
  by (auto simp: handle_fire_def emit_def Let_def split: option.splits prod.splits)

lemma handle_fire_templates:
  "ex_templates (snd (handle_fire now exists m ex)) =
     (if fst (handle_fire now exists m ex) = Dispatched
      then snd (acquire (ex_templates ex) (market_ticker m) (direction m)) else ex_templates ex)"
  "ex_dispatch (snd (handle_fire now exists m ex)) = ex_dispatch ex"
  "ex_record_wake_recv (snd (handle_fire now exists m ex)) = ex_record_wake_recv ex"
  by (auto simp: handle_fire_def emit_def Let_def split: option.splits prod.splits)

lemma tradeable_value:
  assumes "is_finite (wire_price_yes_dollars m)"
  shows "tradeable m \<longleftrightarrow> 0 < valof (wire_price_yes_dollars m) \<and> valof (wire_price_yes_dollars m) < 1"
proof -
  have "valof (double_lit 0 0) = 0" "valof (double_lit 1 0) = 1"
    by (simp_all add: double_lit_0 double_lit_1 valof_def mag_value_def sig_def ulp_exp_def power_int_def power_divide del: One_nat_def)
  with assms double_lit_finite show ?thesis by (auto simp: tradeable_def dle_valof)
qed

section \<open>The order of effects\<close>

definition fires_acked :: "effect list \<Rightarrow> bool" where
  "fires_acked effs \<longleftrightarrow>
     (\<forall>before fr after. effs = before @ Dispatch fr # after \<longrightarrow>
        (\<exists>before' at_ms recs. before = before' @ Sent_bytes (encode_frame_ack (accepted_ack at_ms (fr_correlation_id fr))) # recs \<and>
           (\<forall>e \<in> set recs. \<exists>w. e = Recorded w)))"

lemma fires_acked_append: "fires_acked a \<Longrightarrow> fires_acked b \<Longrightarrow> fires_acked (a @ b)"
  unfolding fires_acked_def
proof (intro allI impI)
  fix before fr after
  assume a: "\<forall>before fr after. a = before @ Dispatch fr # after \<longrightarrow>
        (\<exists>before' at_ms recs. before = before' @ Sent_bytes (encode_frame_ack (accepted_ack at_ms (fr_correlation_id fr))) # recs \<and>
           (\<forall>e \<in> set recs. \<exists>w. e = Recorded w))"
    and b: "\<forall>before fr after. b = before @ Dispatch fr # after \<longrightarrow>
        (\<exists>before' at_ms recs. before = before' @ Sent_bytes (encode_frame_ack (accepted_ack at_ms (fr_correlation_id fr))) # recs \<and>
           (\<forall>e \<in> set recs. \<exists>w. e = Recorded w))"
    and ab: "a @ b = before @ Dispatch fr # after"
  from ab consider us where "a = before @ us" "us @ b = Dispatch fr # after"
    | us where "before = a @ us" "b = us @ Dispatch fr # after"
    by (auto simp: append_eq_append_conv2)
  then show "\<exists>before' at_ms recs. before = before' @ Sent_bytes (encode_frame_ack (accepted_ack at_ms (fr_correlation_id fr))) # recs \<and>
      (\<forall>e \<in> set recs. \<exists>w. e = Recorded w)"
  proof cases
    case (1 us)
    show ?thesis
    proof (cases us)
      case Nil
      with 1 have "a = before" "b = [] @ Dispatch fr # after" by simp_all
      with b show ?thesis by (metis append_is_Nil_conv list.distinct(1))
    next
      case (Cons u us')
      with 1 a show ?thesis by auto
    qed
  next
    case (2 us)
    with b obtain before' at_ms recs where "us = before' @ Sent_bytes (encode_frame_ack (accepted_ack at_ms (fr_correlation_id fr))) # recs"
        "\<forall>e \<in> set recs. \<exists>w. e = Recorded w" by blast
    with 2 show ?thesis by (metis append.assoc)
  qed
qed

lemma fires_acked_sent [simp]: "fires_acked []" "fires_acked [Sent_bytes bs]"
  by (auto simp: fires_acked_def Cons_eq_append_conv)

lemma acked_wake_fields [simp]:
  "ex_dispatch (acked_wake ps m ex) = ex_dispatch ex"
  "ex_record_wake_recv (acked_wake ps m ex) = ex_record_wake_recv ex"
  "ex_templates (acked_wake ps m ex) = ex_templates ex"
  "ex_kill_switch (acked_wake ps m ex) = ex_kill_switch ex"
  "ex_stats (acked_wake ps m ex) = ex_stats (count_accepted ex)"
  by (simp_all add: acked_wake_def emit_def count_accepted_def Let_def)

lemma acked_wake_effects:
  "ex_effects (acked_wake ps m ex) = ex_effects ex @ Sent_bytes (encode_frame_ack (wake_ack ps m)) #
     (if ex_record_wake_recv ex then [Recorded (wake_span ps m)] else [])"
  by (simp add: acked_wake_def emit_def count_accepted_def Let_def)

lemma accept_wake_effects:
  "ex_effects (accept_wake ps m ex) = ex_effects ex @ Sent_bytes (encode_frame_ack (wake_ack ps m)) #
     (if ex_record_wake_recv ex then [Recorded (wake_span ps m)] else []) @
     (if fst (handle_fire (ps_now_ns ps) (ps_exists ps) m (acked_wake ps m ex)) = Dispatched \<and> ex_dispatch ex
      then [Dispatch (fire_of m (fst (acquire (ex_templates ex) (market_ticker m) (direction m))))] else [])"
  by (simp add: accept_wake_def handle_fire_effects acked_wake_effects)

text \<open>The three ways a frame is served.\<close>

lemma serve_frame_cases:
  obtains e sent f where "decode_wake_message body = Inl e"
      "send_frame (encode_frame_ack (rejected_ack (ps_started_at_ms ps) (message e))) (ps_txs ps) = (f, sent)"
      "ex_effects (snd (serve_frame ps body ex)) = ex_effects ex @ [Sent_bytes sent]"
      "ex_stats (snd (serve_frame ps body ex)) = (ex_stats ex)\<lparr>frames_read := frames_read (ex_stats ex) + 1,
         acks_rejected := acks_rejected (ex_stats ex) + 1\<rparr>"
    | m sent where "decode_wake_message body = Inr m" "fst (serve_frame ps body ex) \<noteq> Continue"
      "ex_effects (snd (serve_frame ps body ex)) = ex_effects ex @ [Sent_bytes sent]"
      "ex_stats (snd (serve_frame ps body ex)) = ex_stats (count_accepted ex)"
    | m where "decode_wake_message body = Inr m" "serve_frame ps body ex = (Continue, accept_wake ps m ex)"
proof (cases "decode_wake_message body")
  case (Inl e)
  moreover obtain f sent where "send_frame (encode_frame_ack (rejected_ack (ps_started_at_ms ps) (message e))) (ps_txs ps) = (f, sent)"
    by fastforce
  ultimately show ?thesis
    by (intro that(1) [of e f sent]) (simp_all add: serve_frame_def send_ack_eq emit_def Let_def)
next
  case (Inr m)
  show ?thesis
  proof (cases "sends_whole ps (wake_ack ps m)")
    case True
    with Inr that(3) serve_frame_accepts show ?thesis by blast
  next
    case False
    obtain res sent where s: "send_frame (encode_frame_ack (wake_ack ps m)) (ps_txs ps) = (res, sent)" by fastforce
    with False have "res \<noteq> Send_ok" by (simp add: sends_whole_def)
    with s Inr show ?thesis
      by (intro that(2) [of m sent]; cases res)
        (simp_all add: serve_frame_def send_ack_eq wake_ack_def [symmetric] emit_def count_accepted_def Let_def)
  qed
qed

lemma fires_acked_wake:
  assumes "\<forall>e \<in> set recs. \<exists>w. e = Recorded w" "fs \<in> {[], [Dispatch fr]}" "fr_correlation_id fr = cid"
  shows "fires_acked (Sent_bytes (encode_frame_ack (accepted_ack at_ms cid)) # recs @ fs)"
  unfolding fires_acked_def
proof (intro allI impI)
  fix before fr' after
  assume e: "Sent_bytes (encode_frame_ack (accepted_ack at_ms cid)) # recs @ fs = before @ Dispatch fr' # after"
  have no: "Dispatch fr' \<notin> set (Sent_bytes (encode_frame_ack (accepted_ack at_ms cid)) # recs)" using assms(1) by auto
  have fs: "fs = [Dispatch fr]" using e assms(1,2) no by (auto dest!: arg_cong [where f = set])
  have "after = []"
    using arg_cong [OF e, of rev] no unfolding fs
    by (cases after rule: rev_cases) (auto dest!: arg_cong [where f = set])
  with e fs have "before = Sent_bytes (encode_frame_ack (accepted_ack at_ms cid)) # recs" "fr' = fr"
    by (metis append.assoc append_Cons append1_eq_conv effect.inject(3))+
  with assms show "\<exists>before' at_ms recs. before = before' @ Sent_bytes (encode_frame_ack (accepted_ack at_ms (fr_correlation_id fr'))) # recs \<and>
      (\<forall>e \<in> set recs. \<exists>w. e = Recorded w)"
    by (intro exI [of _ "[]"] exI [of _ at_ms] exI [of _ recs]) simp
qed

lemma serve_frame_effects:
  "\<exists>new. ex_effects (snd (serve_frame ps body ex)) = ex_effects ex @ new \<and> fires_acked new"
proof (cases rule: serve_frame_cases [of body ps ex])
  case (3 m)
  define recs where "recs = (if ex_record_wake_recv ex then [Recorded (wake_span ps m)] else [])"
  have eff: "ex_effects (accept_wake ps m ex) = ex_effects ex @ Sent_bytes (encode_frame_ack (wake_ack ps m)) # recs @
      (if fst (handle_fire (ps_now_ns ps) (ps_exists ps) m (acked_wake ps m ex)) = Dispatched \<and> ex_dispatch ex
       then [Dispatch (fire_of m (fst (acquire (ex_templates ex) (market_ticker m) (direction m))))] else [])"
    by (simp add: accept_wake_def handle_fire_effects acked_wake_effects recs_def)
  have "fires_acked (Sent_bytes (encode_frame_ack (wake_ack ps m)) # recs @
      (if fst (handle_fire (ps_now_ns ps) (ps_exists ps) m (acked_wake ps m ex)) = Dispatched \<and> ex_dispatch ex
       then [Dispatch (fire_of m (fst (acquire (ex_templates ex) (market_ticker m) (direction m))))] else []))"
    unfolding wake_ack_def by (rule fires_acked_wake) (auto simp: recs_def fire_of_def)
  with 3 eff show ?thesis by auto
qed auto

text \<open>An invariant of the loop: what every served frame keeps, the connection keeps.\<close>

lemma serve_connection_invariant:
  assumes "P Continue ex"
    and step: "\<And>ps body ex. ps \<in> set pss \<Longrightarrow> P Continue ex \<Longrightarrow> P (fst (serve_frame ps body ex)) (snd (serve_frame ps body ex))"
    and stop: "\<And>f ex. P Continue ex \<Longrightarrow> P f ex"
  shows "P (fst (serve_connection pss rxs ex)) (snd (serve_connection pss rxs ex))"
  using assms(1) step
proof (induction pss arbitrary: rxs ex)
  case Nil
  then show ?case using stop by simp
next
  case (Cons ps pss)
  obtain x rxs1 where x: "read_exactly kFrameLengthBytes [] rxs = (x, rxs1)" by fastforce
  show ?case
  proof (cases "\<exists>prefix len body rxs2. \<not> ps_stopping ps \<and> x = Read_ok prefix \<and> decode_frame_length prefix = Inr len \<and>
      read_exactly (unat len) [] rxs1 = (Read_ok body, rxs2)")
    case False
    with x have "snd (serve_connection (ps # pss) rxs ex) = ex" by (auto split: ReadResult.splits sum.splits prod.splits)
    with stop [OF Cons.prems(1)] show ?thesis by metis
  next
    case True
    then obtain prefix len body rxs2 where r: "\<not> ps_stopping ps" "x = Read_ok prefix" "decode_frame_length prefix = Inr len"
        "read_exactly (unat len) [] rxs1 = (Read_ok body, rxs2)" by blast
    obtain f ex1 where s: "serve_frame ps body ex = (f, ex1)" by fastforce
    have P: "P f ex1" using Cons.prems(2) [OF _ Cons.prems(1), of ps body] s by simp
    show ?thesis
    proof (cases "f = Continue")
      case False
      with x r s P show ?thesis by (cases f) auto
    next
      case True
      have "P (fst (serve_connection pss rxs2 ex1)) (snd (serve_connection pss rxs2 ex1))"
        by (rule Cons.IH) (use P True Cons.prems(2) in auto)
      with True x r s show ?thesis by simp
    qed
  qed
qed

lemma serve_connection_effects:
  "\<exists>new. ex_effects (snd (serve_connection pss rxs ex)) = ex_effects ex @ new \<and> fires_acked new"
proof (rule serve_connection_invariant [where P = "\<lambda>f ex'. \<exists>new. ex_effects ex' = ex_effects ex @ new \<and> fires_acked new"])
  show "\<exists>new. ex_effects ex = ex_effects ex @ new \<and> fires_acked new" by (intro exI [of _ "[]"]) simp
next
  fix ps body and ex1 :: executor
  assume "\<exists>new. ex_effects ex1 = ex_effects ex @ new \<and> fires_acked new"
  with serve_frame_effects [of ps body ex1] fires_acked_append
  show "\<exists>new. ex_effects (snd (serve_frame ps body ex1)) = ex_effects ex @ new \<and> fires_acked new" by fastforce
qed

section \<open>The counters\<close>

text \<open>
  Every frame read is acked or rejected, and every ack that went out whole is followed by exactly
  one outcome of the fire path. The counters are 64-bit and the equations hold modulo their width.
\<close>

definition fires_total :: "ExecutorStats \<Rightarrow> uint64" where
  "fires_total st = fires_dispatched st + fires_refused_price st + fires_refused_kill_switch st"

definition balanced :: "flow \<Rightarrow> executor \<Rightarrow> bool" where
  "balanced f ex \<longleftrightarrow>
     frames_read (ex_stats ex) = acks_accepted (ex_stats ex) + acks_rejected (ex_stats ex) \<and>
     (acks_accepted (ex_stats ex) = fires_total (ex_stats ex) \<or>
      f \<noteq> Continue \<and> acks_accepted (ex_stats ex) = fires_total (ex_stats ex) + 1)"

lemma accept_wake_stats:
  "acks_accepted (ex_stats (accept_wake ps m ex)) = acks_accepted (ex_stats ex) + 1"
  "acks_rejected (ex_stats (accept_wake ps m ex)) = acks_rejected (ex_stats ex)"
  "frames_read (ex_stats (accept_wake ps m ex)) = frames_read (ex_stats ex) + 1"
  "fires_total (ex_stats (accept_wake ps m ex)) = fires_total (ex_stats ex) + 1"
  by (auto simp: accept_wake_def handle_fire_stats fires_total_def count_accepted_def split: FireOutcome.splits)

lemma serve_frame_balanced:
  assumes "balanced Continue ex"
  shows "balanced (fst (serve_frame ps body ex)) (snd (serve_frame ps body ex))"
proof (cases rule: serve_frame_cases [of body ps ex])
  case 1
  with assms show ?thesis by (auto simp: balanced_def fires_total_def)
next
  case 2
  with assms show ?thesis by (auto simp: balanced_def fires_total_def count_accepted_def)
next
  case 3
  with assms show ?thesis by (auto simp: balanced_def accept_wake_stats)
qed

lemma serve_connection_balanced:
  assumes "balanced Continue ex"
  shows "balanced (fst (serve_connection pss rxs ex)) (snd (serve_connection pss rxs ex))"
  by (rule serve_connection_invariant [where P = balanced, OF assms serve_frame_balanced])
    (auto simp: balanced_def)

section \<open>What the peer reads\<close>

lemma wf_rejected: "decode_wake_message body = Inl e \<Longrightarrow> wf_ack (rejected_ack at_ms (message e))"
  using decode_wake_message_outcome [of body] by (simp add: wf_ack_def rejected_ack_def)

lemma wf_accepted: "wf_message m \<Longrightarrow> wf_ack (accepted_ack at_ms (correlation_id m))"
  by (simp add: wf_message_def wf_ack_def accepted_ack_def)

lemma decode_ack_frame: "wf_ack a \<Longrightarrow> decode_wake_ack (drop kFrameLengthBytes (encode_frame_ack a)) = Inr a"
  using decode_ack_text by (simp add: encode_frame_ack_eq)

section \<open>Properties\<close>

text \<open>
  C3: the connection loop implements its specification on the byte stream: however the bytes
  are cut into reads and however often a read is interrupted, the frames are cut, served and
  answered as if the stream had arrived at once.
\<close>

theorem serve_connection_refines:
  assumes "quiet rxs"
  shows "serve_connection pss (rxs @ close_mark eof) ex = serve_stream pss (bytes_of rxs) eof ex"
  by (rule serve_connection_eq [OF assms])

definition sample_pass :: pass where
  "sample_pass = \<lparr>ps_stopping = False, ps_started_at_ms = 5, ps_started_ns = 0, ps_txs = [Wrote 100000],
     ps_ended_ns = 1000, ps_ended_at_ms = 6, ps_now_ns = 2000, ps_exists = Some False\<rparr>"

theorem serve_connection_refines_witness:
  "quiet [Chunk [0], Read_fault True False, Chunk [0, 0]] \<and>
   serve_connection [sample_pass] ([Chunk [0], Read_fault True False, Chunk [0, 0]] @ close_mark True) (ExecutorServer True True None) =
     (Return, ExecutorServer True True None)"
  using serve_connection_refines [of "[Chunk [0], Read_fault True False, Chunk [0, 0]]" "[sample_pass]" True "ExecutorServer True True None"]
  by (simp add: sample_pass_def kFrameLengthBytes_def del: serve_connection.simps)

text \<open>
  A peer that sends well-formed wakes within the frame cap, in any segmentation, gets every
  one of them accepted, recorded and fired, in the order sent, and the loop goes on with whatever
  follows them.
\<close>

lemma conversation_served:
  assumes "quiet rxs" "bytes_of rxs = concat (map encode_frame_message ms) @ rest_bytes" "length pss = length ms"
    and "\<And>ps m. (ps, m) \<in> set (zip pss ms) \<Longrightarrow> wf_message m \<and>
      length (encode_frame_message m) \<le> kFrameLengthBytes + unat kMaxFrameBytes \<and>
      \<not> ps_stopping ps \<and> sends_whole ps (wake_ack ps m)"
  shows "serve_connection (pss @ pss') (rxs @ close_mark eof) ex =
    serve_stream pss' rest_bytes eof (fold (\<lambda>(ps, m). accept_wake ps m) (zip pss ms) ex)"
  using serve_connection_eq [OF assms(1)] serve_stream_wakes [OF assms(3,4)] by (simp add: assms(2))

text \<open>The socket takes so many bytes: in any number of writes, interrupted or not.\<close>

fun takes :: "nat \<Rightarrow> tx list \<Rightarrow> bool" where
  "takes 0 txs = True"
| "takes (Suc n) [] = False"
| "takes (Suc n) (Wrote k # txs) = takes (Suc n - k) txs"
| "takes (Suc n) (Send_fault eintr stop # txs) = (eintr \<and> \<not> stop \<and> takes (Suc n) txs)"

lemma send_frame_takes: "fst (send_frame frame txs) = Send_ok \<longleftrightarrow> takes (length frame) txs"
  by (induction frame txs rule: send_frame.induct) (auto split: prod.split simp: case_prod_beta)

lemma sends_whole_takes: "sends_whole ps a \<longleftrightarrow> takes (length (encode_frame_ack a)) (ps_txs ps)"
  by (simp add: sends_whole_def send_frame_takes)

lemma sends_sample: "length (encode_frame_ack a) \<le> 100000 \<Longrightarrow> sends_whole sample_pass a"
  by (cases "encode_frame_ack a") (simp_all add: sends_whole_def sample_pass_def split: prod.splits)

lemma sample_wake_ok:
  "wf_message sample_message \<and>
      length (encode_frame_message sample_message) \<le> kFrameLengthBytes + unat kMaxFrameBytes \<and>
      \<not> ps_stopping sample_pass \<and> sends_whole sample_pass (wake_ack sample_pass sample_message)"
proof (intro conjI)
  show "length (encode_frame_message sample_message) \<le> kFrameLengthBytes + unat kMaxFrameBytes"
    using message_text_length [of sample_message]
    by (simp add: encode_frame_message_eq kFrameLengthBytes_def kMaxFrameBytes_def sample_message_def default_WakeMessage_def)
  show "sends_whole sample_pass (wake_ack sample_pass sample_message)"
    by (rule sends_sample, use ack_text_length [of "wake_ack sample_pass sample_message"] in
      \<open>simp add: encode_frame_ack_eq kFrameLengthBytes_def wake_ack_def accepted_ack_def sample_message_def\<close>)
qed (simp_all add: wf_sample sample_pass_def)

text \<open>
  C7: no fire is dispatched whose ack has not been handed to the peer whole just before it: in
  whatever a connection does, each dispatch is preceded, with at most recorded spans between, by
  the complete accepted ack that carries its correlation id.
\<close>

theorem ack_precedes_fire:
  assumes "ex_effects (snd (serve_connection pss rxs (ExecutorServer disp rec ks))) = before @ Dispatch fr # after"
  shows "\<exists>before' at_ms recs. before = before' @ Sent_bytes (encode_frame_ack (accepted_ack at_ms (fr_correlation_id fr))) # recs \<and>
     (\<forall>e \<in> set recs. \<exists>w. e = Recorded w)"
  using serve_connection_effects [of pss rxs "ExecutorServer disp rec ks"] assms
  by (auto simp: ExecutorServer_def fires_acked_def)

lemma sample_run:
  "serve_connection [sample_pass] ([Chunk (encode_frame_message sample_message)] @ close_mark False) (ExecutorServer True True None) =
     (Waiting, accept_wake sample_pass sample_message (ExecutorServer True True None))"
  using serve_connection_eq [of "[Chunk (encode_frame_message sample_message)]" "[sample_pass]" False "ExecutorServer True True None"]
    serve_stream_wakes [of "[sample_pass]" "[sample_message]" "[]" "[]" False "ExecutorServer True True None"] sample_wake_ok
  by simp

lemma sample_effects:
  "\<exists>fr. ex_effects (accept_wake sample_pass sample_message (ExecutorServer True True None)) =
     [Sent_bytes (encode_frame_ack (accepted_ack 5 ''c-1'')), Recorded (wake_span sample_pass sample_message)] @ [Dispatch fr] \<and>
     fr_correlation_id fr = ''c-1''"
  by (simp add: accept_wake_def handle_fire_effects acked_wake_effects handle_fire_outcome ExecutorServer_def wake_ack_def
      sample_message_def sample_pass_def fire_of_def)

theorem ack_precedes_fire_witness:
  "\<exists>(fr :: FireRequest) before' at_ms recs. fr_correlation_id fr = ''c-1'' \<and>
     [Sent_bytes (encode_frame_ack (accepted_ack 5 ''c-1'')), Recorded (wake_span sample_pass sample_message)] =
       before' @ Sent_bytes (encode_frame_ack (accepted_ack at_ms (fr_correlation_id fr))) # recs \<and>
     (\<forall>e \<in> set recs. \<exists>w. e = Recorded w)"
proof -
  obtain fr where fr: "ex_effects (snd (serve_connection [sample_pass] ([Chunk (encode_frame_message sample_message)] @ close_mark False)
        (ExecutorServer True True None))) =
      [Sent_bytes (encode_frame_ack (accepted_ack 5 ''c-1'')), Recorded (wake_span sample_pass sample_message)] @ Dispatch fr # []"
      "fr_correlation_id fr = ''c-1''"
    using sample_effects unfolding sample_run by auto
  from ack_precedes_fire [OF fr(1)] fr(2) show ?thesis by blast
qed

text \<open>
  C4: a real order is dispatched only at a price strictly between zero and one dollar and only
  while the kill switch, if there is one, answers that it is released; it goes out for the wake's
  own ticker and side at the snapped wire price.
\<close>

theorem fire_guarded:
  assumes "templates_ok (ex_templates ex)" "is_finite (wire_price_yes_dollars m)"
    and "ex_effects (snd (handle_fire now exists m ex)) = ex_effects ex @ [Dispatch fr]" "\<not> fr_dry_run fr"
  shows "0 < valof (wire_price_yes_dollars m) \<and> valof (wire_price_yes_dollars m) < 1 \<and>
    (\<forall>ks. ex_kill_switch ex = Some ks \<longrightarrow> \<not> fst (is_engaged now exists ks)) \<and>
    fr_order fr = \<lparr>ticker = market_ticker m, outcome_side = direction m\<rparr> \<and>
    fr_price_dollars fr = snap_to_grid (wire_price_yes_dollars m) (price_ranges m)"
proof -
  have d: "fst (handle_fire now exists m ex) = Dispatched"
      "fr = fire_of m (fst (acquire (ex_templates ex) (market_ticker m) (direction m)))"
    using assms(3) by (auto simp: handle_fire_effects split: if_splits)
  then have "\<not> dry_run m" using assms(4) by (simp add: fire_of_def)
  with d(1) have "tradeable m" "\<not> halted now exists ex" by (auto simp: handle_fire_outcome split: if_splits)
  with d(2) show ?thesis
    using tradeable_value [OF assms(2)] acquire_spec [OF assms(1), of "market_ticker m" "direction m"]
    by (simp add: halted_def fire_of_def)
qed

definition real_wake :: WakeMessage where
  "real_wake = sample_message\<lparr>dry_run := False, wire_price_yes_dollars := double_lit 1 (- 2)\<rparr>"

lemma cent_value: "valof (double_lit 1 (- 2)) = real (sig 0x3F847AE147AE147B) * 2 powi ulp_exp 0x3F847AE147AE147B"
  by (simp add: double_lit_cent valof_def mag_value_def del: One_nat_def)

lemma real_wake_tradeable: "tradeable real_wake" "is_finite (wire_price_yes_dollars real_wake)"
proof -
  have f: "is_finite (wire_price_yes_dollars real_wake)" using double_lit_finite(3) by (simp add: real_wake_def)
  have "0 < valof (double_lit 1 (- 2))" "valof (double_lit 1 (- 2)) < 1"
    unfolding cent_value by (simp_all add: sig_def ulp_exp_def power_int_def power_divide)
  then have "0 < valof (wire_price_yes_dollars real_wake)" "valof (wire_price_yes_dollars real_wake) < 1"
    by (simp_all add: real_wake_def)
  with f show "tradeable real_wake" "is_finite (wire_price_yes_dollars real_wake)" by (simp_all only: tradeable_value f simp_thms)
qed

theorem fire_guarded_witness:
  "0 < valof (wire_price_yes_dollars real_wake) \<and>
   (\<exists>fr. ex_effects (snd (handle_fire 9 None real_wake (ExecutorServer True False None))) = [Dispatch fr] \<and>
      fr_order fr = \<lparr>ticker = market_ticker real_wake, outcome_side = No\<rparr>)"
proof -
  have ok: "templates_ok (ex_templates (ExecutorServer True False None))" by (simp add: ExecutorServer_def templates_ok_def)
  obtain fr where fr: "ex_effects (snd (handle_fire 9 None real_wake (ExecutorServer True False None))) =
      ex_effects (ExecutorServer True False None) @ [Dispatch fr]" "\<not> fr_dry_run fr"
    using real_wake_tradeable(1)
    by (simp add: handle_fire_effects handle_fire_outcome halted_def ExecutorServer_def fire_of_def real_wake_def)
  from fire_guarded [OF ok real_wake_tradeable(2) fr] fr show ?thesis
    by (auto simp: ExecutorServer_def real_wake_def sample_message_def)
qed

text \<open>
  Every wake has exactly one outcome, counted once: the fire path refuses a real fire at an
  untradeable price before it looks at the kill switch, refuses a real fire while the switch is
  engaged, and lets every shadow fire through; a refusal has no effect and builds no template.
\<close>

lemma fire_outcomes:
  "fst (handle_fire now exists m ex) =
     (if dry_run m then Dispatched
      else if \<not> tradeable m then RefusedUntradeablePrice
      else if halted now exists ex then RefusedKillSwitch
      else Dispatched) \<and>
   fires_total (ex_stats (snd (handle_fire now exists m ex))) = fires_total (ex_stats ex) + 1 \<and>
   ex_effects (snd (handle_fire now exists m ex)) = ex_effects ex @
     (if fst (handle_fire now exists m ex) = Dispatched \<and> ex_dispatch ex
      then [Dispatch (fire_of m (fst (acquire (ex_templates ex) (market_ticker m) (direction m))))] else []) \<and>
   ex_templates (snd (handle_fire now exists m ex)) =
     (if fst (handle_fire now exists m ex) = Dispatched
      then snd (acquire (ex_templates ex) (market_ticker m) (direction m)) else ex_templates ex)"
  using handle_fire_outcome [of now exists m ex] handle_fire_effects [of now exists m ex] handle_fire_templates(1) [of now exists m ex]
  by (simp add: handle_fire_stats fires_total_def split: FireOutcome.splits)

text \<open>
  C17: over a whole connection the counters balance: frames read are the accepted plus the
  rejected ones, and the fires counted are the acks accepted, less one when the connection ended
  because the last ack could not be sent.
\<close>

theorem counters_balance:
  assumes "serve_connection pss rxs (ExecutorServer disp rec ks) = (f, ex)"
  shows "frames_read (ex_stats ex) = acks_accepted (ex_stats ex) + acks_rejected (ex_stats ex) \<and>
     acks_accepted (ex_stats ex) - fires_total (ex_stats ex) \<in> {0, 1}"
proof -
  have "balanced Continue (ExecutorServer disp rec ks)"
    by (simp add: balanced_def ExecutorServer_def zero_stats_def fires_total_def)
  from serve_connection_balanced [OF this, of pss rxs] show ?thesis using assms by (auto simp: balanced_def)
qed

theorem counters_balance_witness:
  "case ex_stats (accept_wake sample_pass sample_message (ExecutorServer True True None)) of st \<Rightarrow>
     frames_read st = acks_accepted st + acks_rejected st \<and> acks_accepted st - fires_total st \<in> {0, 1}"
  using counters_balance [OF sample_run] by simp

lemma empty_body: "decode_wake_message [] =
    Inl \<lparr>code = MalformedJson, message = ''expected '' @ [CHR 0x27, CHR 0x7B, CHR 0x27] @ '', got end of input''\<rparr>"
  by (simp add: decode_wake_message_def text_of_def begin_object_def expect_def peek_def skip_whitespace_def
      skip_while.simps Reader_def fail_def reader_failure_def decode_fail_def Let_def)

definition half_cent :: double where
  "half_cent = of_index False 0x3F747AE147AE147B"

lemma half_cent_value: "valof half_cent = valof kCentGrid / 2" "is_finite half_cent" "\<not> negative half_cent"
  unfolding valof_cent by (simp_all add: half_cent_def value_defs power_divide)

lemma snap_half_cent: "valof (snap_by kCentGrid half_cent) = 0"
proof -
  have z: "\<not> is_zero kCentGrid" using cent_facts zero_value by auto
  have q: "valof half_cent / valof kCentGrid = 1 / 2" using half_cent_value(1) cent_facts(3) by simp
  have "fits (1 / 2)" using fits_valof [OF valof_half(2)] by (simp add: valof_half(1))
  then have d: "is_finite (ddiv half_cent kCentGrid)" "valof (ddiv half_cent kCentGrid) = 1 / 2"
    using ddiv_exact [OF half_cent_value(2) cent_facts(1) z] q by simp_all
  have "half_even (1 / 2) = 0" by (simp add: half_even_def)
  then have r: "is_finite (round_half_even (ddiv half_cent kCentGrid))" "valof (round_half_even (ddiv half_cent kCentGrid)) = 0"
    using round_half_even_value [OF d(1)] by (simp_all add: d(2))
  have "fits 0" using fits_scaled [of 0 0 0] by simp
  then show ?thesis using dmul_exact [OF r(1) cent_facts(1)] by (simp add: snap_by_def r(2))
qed

definition half_cent_wake :: WakeMessage where
  "half_cent_wake = sample_message\<lparr>dry_run := False, wire_price_yes_dollars := half_cent, price_ranges := [kDefaultPriceRange]\<rparr>"

text \<open>
  C37: the price guard looks at the price before it is snapped, so a real fire that passes it can
  still be dispatched at zero: half a cent on the cent grid is a tie that goes to the even
  multiple, zero.
\<close>

theorem fire_at_zero:
  "wf_message half_cent_wake \<and> \<not> dry_run half_cent_wake \<and>
   (\<exists>fr. ex_effects (snd (handle_fire now exists half_cent_wake (ExecutorServer True rec None))) = [Dispatch fr] \<and>
      valof (fr_price_dollars fr) = 0)"
proof -
  have wf: "wf_message half_cent_wake"
    using wf_sample half_cent_value(2) by (auto simp: wf_message_def half_cent_wake_def sample_message_def)
  have "0 < valof half_cent" "valof half_cent < 1" unfolding half_cent_value(1) valof_cent by simp_all
  then have "tradeable half_cent_wake"
    using half_cent_value(2) by (subst tradeable_value) (simp_all add: half_cent_wake_def)
  then have "fst (handle_fire now exists half_cent_wake (ExecutorServer True rec None)) = Dispatched"
    by (simp add: handle_fire_outcome halted_def ExecutorServer_def)
  moreover have "valof (fr_price_dollars (fire_of half_cent_wake order)) = 0" for order
    using snap_half_cent snap_default [of half_cent] by (simp add: fire_of_def half_cent_wake_def del: snap_to_grid.simps)
  ultimately show ?thesis using wf by (simp add: handle_fire_effects ExecutorServer_def half_cent_wake_def del: snap_to_grid.simps)
qed

end
