(* ===== verification/Executor_Lifecycle.thy ===== *)
theory Executor_Lifecycle
  imports Executor_Properties "HOL-Library.Multiset"
begin

text \<open>
  The life of the executor around its connections: \<open>listen\<close>, the accept loop, \<open>serve_forever\<close>,
  \<open>stop\<close> and the destructor of \<open>src/executor.cpp\<close>. System calls are recorded in order with what
  they answered; the answers are an argument. A load of the stop flag is an answer too, because
  \<open>stop\<close> may run at any time; the interleaving of \<open>stop\<close> with the serving thread is the subject of
  \<open>Executor_Stop\<close>.
\<close>

section \<open>Setting up\<close>

text \<open>Calls that hand out a descriptor carry it, or \<open>None\<close> when they failed.\<close>

datatype syscall =
    Create_directories | Remove_path
  | Sys_pipe "(int \<times> int) option" | Sys_socket "int option" | Sys_bind bool
  | Sys_chmod nat bool | Sys_listen int bool | Sys_accept "int option"
  | Sys_close int | Write_wake int | Sys_shutdown int

record server =
  sv_executor :: executor
  sv_listen_fd :: int
  sv_wake_read_fd :: int
  sv_wake_write_fd :: int
  sv_connection_fd :: int
  sv_stopping :: bool
  sv_calls :: "syscall list"

definition new_server :: "executor \<Rightarrow> server" where
  "new_server ex = \<lparr>sv_executor = ex, sv_listen_fd = - 1, sv_wake_read_fd = - 1, sv_wake_write_fd = - 1,
     sv_connection_fd = - 1, sv_stopping = False, sv_calls = []\<rparr>"

definition call :: "syscall \<Rightarrow> server \<Rightarrow> server" where
  "call c sv = sv\<lparr>sv_calls := sv_calls sv @ [c]\<rparr>"

text \<open>
  What the system answers \<open>listen\<close>, with the size of \<open>sun_path\<close> and the text of \<open>errno\<close>, both of
  the platform.
\<close>

record answers =
  an_sun_path_size :: nat
  an_errno_text :: string
  an_pipe :: "(int \<times> int) option"
  an_socket :: "int option"
  an_bind :: bool
  an_chmod :: bool
  an_listen :: bool

definition syscall_error :: "answers \<Rightarrow> string \<Rightarrow> string" where
  "syscall_error an name = name @ '': '' @ an_errno_text an"

text \<open>\<open>S_IRUSR | S_IWUSR\<close>, octal 600.\<close>

definition owner_only :: nat where
  "owner_only = 384"

definition listen :: "answers \<Rightarrow> string \<Rightarrow> int \<Rightarrow> server \<Rightarrow> string option \<times> server" where
  "listen an socket_path backlog sv =
     (if length socket_path \<ge> an_sun_path_size an
      then (Some (''socket path exceeds '' @ nat_digits (an_sun_path_size an - 1) @ '' bytes''), sv)
      else
        let sv = call (Sys_pipe (an_pipe an)) (call Remove_path (call Create_directories sv))
        in case an_pipe an of
             None \<Rightarrow> (Some (syscall_error an ''pipe''), sv)
           | Some (r, w) \<Rightarrow>
               let sv = call (Sys_socket (an_socket an)) (sv\<lparr>sv_wake_read_fd := r, sv_wake_write_fd := w\<rparr>)
               in case an_socket an of
                    None \<Rightarrow> (Some (syscall_error an ''socket''), sv\<lparr>sv_listen_fd := - 1\<rparr>)
                  | Some fd \<Rightarrow>
                      let sv = call (Sys_bind (an_bind an)) (sv\<lparr>sv_listen_fd := fd\<rparr>)
                      in if \<not> an_bind an then (Some (syscall_error an ''bind''), sv)
                         else
                           let sv = call (Sys_chmod owner_only (an_chmod an)) sv
                           in if \<not> an_chmod an then (Some (syscall_error an ''chmod''), sv)
                              else
                                let sv = call (Sys_listen backlog (an_listen an)) sv
                                in if \<not> an_listen an then (Some (syscall_error an ''listen''), sv)
                                   else (None, sv))"

definition close_fd :: "int \<Rightarrow> server \<Rightarrow> server" where
  "close_fd fd sv = (if fd \<ge> 0 then call (Sys_close fd) sv else sv)"

definition destroy_server :: "server \<Rightarrow> server" where
  "destroy_server sv =
     (let sv = (close_fd (sv_listen_fd sv) sv)\<lparr>sv_listen_fd := - 1\<rparr>;
          sv = (close_fd (sv_wake_read_fd sv) sv)\<lparr>sv_wake_read_fd := - 1\<rparr>;
          sv = (close_fd (sv_wake_write_fd sv) sv)\<lparr>sv_wake_write_fd := - 1\<rparr>
      in call Remove_path sv)"

definition stop :: "server \<Rightarrow> server" where
  "stop sv =
     (let sv = sv\<lparr>sv_stopping := True\<rparr>;
          sv = (if sv_wake_write_fd sv \<ge> 0 then call (Write_wake (sv_wake_write_fd sv)) sv else sv)
      in if sv_connection_fd sv \<ge> 0 then call (Sys_shutdown (sv_connection_fd sv)) sv else sv)"

section \<open>Accepting\<close>

text \<open>
  A \<open>poll\<close> fails, with \<open>errno = EINTR\<close> or not and the flag then, or returns with the wake pipe
  readable or not, the flag then, and the listening socket readable or not.
\<close>

datatype poll_answer = Poll_fault bool bool | Poll_returned bool bool bool

text \<open>The wait for a peer: \<open>None\<close> while it waits, else whether there is one to accept.\<close>

fun await_peer :: "poll_answer list \<Rightarrow> bool option" where
  "await_peer [] = None"
| "await_peer (Poll_fault eintr stopping # ps) = (if eintr \<and> \<not> stopping then await_peer ps else Some False)"
| "await_peer (Poll_returned wake stopping ready # ps) =
     (if wake \<or> stopping then Some False else if ready then Some True else await_peer ps)"

datatype accept_answer = Accepted_fd int | Accept_fault bool bool

record visit =
  vi_stopping :: bool
  vi_polls :: "poll_answer list"
  vi_accept :: accept_answer
  vi_passes :: "pass list"
  vi_rxs :: "rx list"
  vi_stopped :: bool

text \<open>The value returned, or \<open>None\<close> while the call waits for the system.\<close>

definition serve_one_connection :: "visit \<Rightarrow> server \<Rightarrow> bool option \<times> server" where
  "serve_one_connection v sv =
     (if (sv_stopping sv \<or> vi_stopping v) \<or> sv_listen_fd sv < 0 then (Some False, sv)
      else case await_peer (vi_polls v) of
        None \<Rightarrow> (None, sv)
      | Some False \<Rightarrow> (Some False, sv)
      | Some True \<Rightarrow>
          (case vi_accept v of
             Accept_fault eintr stopping \<Rightarrow> (Some (\<not> stopping \<and> eintr), call (Sys_accept None) sv)
           | Accepted_fd fd \<Rightarrow>
               let sv = (call (Sys_accept (Some fd)) sv)\<lparr>sv_connection_fd := fd\<rparr>;
                   (f, ex) = serve_connection (vi_passes v) (vi_rxs v) (sv_executor sv);
                   sv = sv\<lparr>sv_executor := ex\<rparr>
               in if f = Return
                  then (Some (\<not> vi_stopped v), call (Sys_close fd) (sv\<lparr>sv_connection_fd := - 1\<rparr>))
                  else (None, sv)))"

text \<open>\<open>serve_forever\<close> has returned (\<open>True\<close>) or is still serving at the end of the script.\<close>

fun serve_forever :: "visit list \<Rightarrow> server \<Rightarrow> bool \<times> server" where
  "serve_forever [] sv = (False, sv)"
| "serve_forever (v # vs) sv =
     (case serve_one_connection v sv of
        (Some True, sv') \<Rightarrow> serve_forever vs sv'
      | (Some False, sv') \<Rightarrow> (True, sv')
      | (None, sv') \<Rightarrow> (False, sv'))"

section \<open>Lemmas\<close>

lemma call_fields [simp]:
  "sv_executor (call c sv) = sv_executor sv" "sv_listen_fd (call c sv) = sv_listen_fd sv"
  "sv_wake_read_fd (call c sv) = sv_wake_read_fd sv" "sv_wake_write_fd (call c sv) = sv_wake_write_fd sv"
  "sv_connection_fd (call c sv) = sv_connection_fd sv" "sv_stopping (call c sv) = sv_stopping sv"
  "sv_calls (call c sv) = sv_calls sv @ [c]"
  by (simp_all add: call_def)

lemma new_server_fields [simp]:
  "sv_executor (new_server ex) = ex" "sv_listen_fd (new_server ex) = - 1" "sv_wake_read_fd (new_server ex) = - 1"
  "sv_wake_write_fd (new_server ex) = - 1" "sv_connection_fd (new_server ex) = - 1"
  "sv_stopping (new_server ex) = False" "sv_calls (new_server ex) = []"
  by (simp_all add: new_server_def)

text \<open>The descriptors a run of calls was handed, and the ones it gave back.\<close>

fun opened :: "syscall \<Rightarrow> int list" where
  "opened (Sys_pipe (Some (r, w))) = [r, w]"
| "opened (Sys_socket (Some fd)) = [fd]"
| "opened (Sys_accept (Some fd)) = [fd]"
| "opened _ = []"

fun given_back :: "syscall \<Rightarrow> int list" where
  "given_back (Sys_close fd) = [fd]"
| "given_back _ = []"

abbreviation opened_by :: "server \<Rightarrow> int list" where
  "opened_by sv \<equiv> concat (map opened (sv_calls sv))"

abbreviation closed_by :: "server \<Rightarrow> int list" where
  "closed_by sv \<equiv> concat (map given_back (sv_calls sv))"

text \<open>The calls of \<open>listen\<close> in order, with whether each succeeded.\<close>

definition stages :: "answers \<Rightarrow> (string \<times> bool) list" where
  "stages an = [(''pipe'', an_pipe an \<noteq> None), (''socket'', an_socket an \<noteq> None), (''bind'', an_bind an),
     (''chmod'', an_chmod an), (''listen'', an_listen an)]"

lemma listen_result:
  "fst (listen an path backlog sv) =
     (if an_sun_path_size an \<le> length path
      then Some (''socket path exceeds '' @ nat_digits (an_sun_path_size an - 1) @ '' bytes'')
      else map_option (syscall_error an \<circ> fst) (find (Not \<circ> snd) (stages an)))"
  by (auto simp: listen_def stages_def Let_def split: option.splits prod.splits)

text \<open>A call that succeeds hands out non-negative descriptors.\<close>

definition valid_fds :: "answers \<Rightarrow> bool" where
  "valid_fds an \<longleftrightarrow> (case an_pipe an of None \<Rightarrow> True | Some (r, w) \<Rightarrow> 0 \<le> r \<and> 0 \<le> w) \<and>
     (case an_socket an of None \<Rightarrow> True | Some fd \<Rightarrow> 0 \<le> fd)"

definition held :: "server \<Rightarrow> int list" where
  "held sv = filter (\<lambda>fd. 0 \<le> fd) [sv_listen_fd sv, sv_wake_read_fd sv, sv_wake_write_fd sv]"

lemma listen_fields:
  "sv_executor (snd (listen an path backlog sv)) = sv_executor sv"
  "sv_connection_fd (snd (listen an path backlog sv)) = sv_connection_fd sv"
  "sv_stopping (snd (listen an path backlog sv)) = sv_stopping sv"
  "closed_by (snd (listen an path backlog sv)) = closed_by sv"
  by (simp_all add: listen_def Let_def split: option.split)

lemma listen_opens:
  "valid_fds an \<Longrightarrow> mset (opened_by (snd (listen an path backlog (new_server ex)))) = mset (held (snd (listen an path backlog (new_server ex))))"
  by (cases "an_pipe an"; cases "an_socket an"; cases "an_bind an"; cases "an_chmod an"; cases "an_listen an")
    (auto simp: listen_def held_def valid_fds_def Let_def)

lemma listen_resources:
  assumes "listen an path backlog (new_server ex) = (r, sv)" "valid_fds an"
  shows "closed_by sv = [] \<and> sv_connection_fd sv = - 1 \<and> mset (opened_by sv) = mset (held sv)"
  using listen_fields [of an path backlog "new_server ex"] listen_opens [OF assms(2), of path backlog ex] assms(1) by simp

lemma destroy_resources:
  "closed_by (destroy_server sv) = closed_by sv @ held sv" "opened_by (destroy_server sv) = opened_by sv"
  by (simp_all add: destroy_server_def close_fd_def held_def Let_def)

lemma serve_one_cases:
  assumes "serve_one_connection v sv = (r, sv')"
  obtains (idle) "sv' = sv" "r \<noteq> Some True"
    | (fault) eintr stopping where "vi_accept v = Accept_fault eintr stopping" "sv' = call (Sys_accept None) sv" "r = Some (\<not> stopping \<and> eintr)"
    | (served) fd ex where "vi_accept v = Accepted_fd fd" "serve_connection (vi_passes v) (vi_rxs v) (sv_executor sv) = (Return, ex)"
        "sv' = call (Sys_close fd) ((call (Sys_accept (Some fd)) sv)\<lparr>sv_executor := ex, sv_connection_fd := - 1\<rparr>)"
        "r = Some (\<not> vi_stopped v)"
    | (serving) f fd ex where "vi_accept v = Accepted_fd fd" "serve_connection (vi_passes v) (vi_rxs v) (sv_executor sv) = (f, ex)"
        "sv' = (call (Sys_accept (Some fd)) sv)\<lparr>sv_executor := ex, sv_connection_fd := fd\<rparr>" "r = None"
proof (cases "((sv_stopping sv \<or> vi_stopping v) \<or> sv_listen_fd sv < 0) \<or> await_peer (vi_polls v) \<noteq> Some True")
  case True
  then have "sv' = sv" "r \<noteq> Some True"
    using assms by (auto simp: serve_one_connection_def split: option.splits bool.splits if_splits)
  then show thesis by (rule idle)
next
  case False
  obtain f ex where s: "serve_connection (vi_passes v) (vi_rxs v) (sv_executor sv) = (f, ex)" by fastforce
  show thesis
  proof (cases "vi_accept v")
    case (Accept_fault eintr stopping)
    with False assms show thesis by (intro fault) (auto simp: serve_one_connection_def)
  next
    case (Accepted_fd fd)
    show thesis
    proof (cases "f = Return")
      case True
      with False Accepted_fd assms s show thesis by (intro served) (auto simp: serve_one_connection_def call_def)
    next
      case other: False
      with False Accepted_fd assms s show thesis by (intro serving) (auto simp: serve_one_connection_def call_def)
    qed
  qed
qed

lemma serve_one_accepts:
  assumes "\<not> sv_stopping sv" "0 \<le> sv_listen_fd sv" "\<not> vi_stopping v" "await_peer (vi_polls v) = Some True"
    and "vi_accept v = Accepted_fd fd" "serve_connection (vi_passes v) (vi_rxs v) (sv_executor sv) = (Return, ex)"
  shows "serve_one_connection v sv = (Some (\<not> vi_stopped v),
    call (Sys_close fd) ((call (Sys_accept (Some fd)) sv)\<lparr>sv_executor := ex, sv_connection_fd := - 1\<rparr>))"
  using assms by (simp add: serve_one_connection_def call_def)

lemma serve_one_resources:
  assumes "serve_one_connection v sv = (Some b, sv')" "sv_connection_fd sv = - 1"
  shows "held sv' = held sv \<and> sv_connection_fd sv' = - 1 \<and>
    (\<exists>fds. opened_by sv' = opened_by sv @ fds \<and> closed_by sv' = closed_by sv @ fds)"
  using assms(1) by (rule serve_one_cases) (auto simp: held_def assms(2))

lemma serve_forever_resources:
  assumes "serve_forever vs sv = (True, sv')" "sv_connection_fd sv = - 1"
  shows "held sv' = held sv \<and> sv_connection_fd sv' = - 1 \<and>
    (\<exists>fds. opened_by sv' = opened_by sv @ fds \<and> closed_by sv' = closed_by sv @ fds)"
  using assms
proof (induction vs arbitrary: sv)
  case (Cons v vs)
  obtain r sv1 where one: "serve_one_connection v sv = (r, sv1)" by fastforce
  with Cons.prems obtain b where r: "r = Some b" by (cases r) auto
  note res = serve_one_resources [OF one [unfolded r] Cons.prems(2)]
  show ?case
  proof (cases b)
    case True
    with Cons.prems one r have "serve_forever vs sv1 = (True, sv')" by simp
    from Cons.IH [OF this] res show ?thesis by force
  next
    case False
    with Cons.prems one r res show ?thesis by simp
  qed
qed simp

text \<open>What every connection keeps of the executor, the whole service keeps.\<close>

lemma serve_one_executor:
  assumes "P (sv_executor sv)" "\<And>pss rxs ex. P ex \<Longrightarrow> P (snd (serve_connection pss rxs ex))"
  shows "P (sv_executor (snd (serve_one_connection v sv)))"
proof -
  obtain r sv' where one: "serve_one_connection v sv = (r, sv')" by fastforce
  have "P (snd (serve_connection (vi_passes v) (vi_rxs v) (sv_executor sv)))" using assms by blast
  with one assms(1) show ?thesis by (cases rule: serve_one_cases [OF one]) simp_all
qed

lemma serve_forever_executor:
  assumes "P (sv_executor sv)" "\<And>pss rxs ex. P ex \<Longrightarrow> P (snd (serve_connection pss rxs ex))"
  shows "P (sv_executor (snd (serve_forever vs sv)))"
  using assms(1)
proof (induction vs arbitrary: sv)
  case (Cons v vs)
  obtain r sv1 where one: "serve_one_connection v sv = (r, sv1)" by fastforce
  have "P (sv_executor sv1)" using serve_one_executor [of P, OF Cons.prems assms(2), of v] one by simp
  with one Cons.IH [of sv1] show ?case by (simp split: option.splits bool.splits)
qed simp

lemma listen_calls:
  assumes "listen an path backlog (new_server ex) = (r, sv)"
  shows "(\<exists>before after. sv_calls sv = before @ Sys_listen n ok # after) =
      (sv_calls sv = [Create_directories, Remove_path, Sys_pipe (an_pipe an), Sys_socket (an_socket an), Sys_bind True,
         Sys_chmod owner_only True, Sys_listen backlog (an_listen an)] \<and> n = backlog \<and> ok = an_listen an)"
  unfolding in_set_conv_decomp [symmetric]
  using assms by (auto simp: listen_def Let_def split: option.splits prod.splits if_splits)

section \<open>Properties\<close>

text \<open>
  C35: the socket is offered to peers only when its file is owner-only: in every run of
  \<open>listen\<close> the call that makes it connectable comes last, after a successful bind and a
  successful chmod to mode 600; \<open>listen\<close> reports the first call that failed by name, and
  nothing exactly when all of them succeeded.
\<close>

theorem listen_secured:
  assumes "listen an path backlog (new_server ex) = (r, sv)"
  shows "(\<exists>before after. sv_calls sv = before @ Sys_listen n ok # after) =
      (sv_calls sv = [Create_directories, Remove_path, Sys_pipe (an_pipe an), Sys_socket (an_socket an), Sys_bind True,
         Sys_chmod owner_only True, Sys_listen backlog (an_listen an)] \<and> n = backlog \<and> ok = an_listen an) \<and>
    r = (if an_sun_path_size an \<le> length path
       then Some (''socket path exceeds '' @ nat_digits (an_sun_path_size an - 1) @ '' bytes'')
       else map_option (syscall_error an \<circ> fst) (find (Not \<circ> snd) (stages an)))"
  using listen_result [of an path backlog "new_server ex"] listen_calls [OF assms, of n ok] assms by simp

definition sample_answers :: answers where
  "sample_answers = \<lparr>an_sun_path_size = 108, an_errno_text = ''Permission denied'', an_pipe = Some (3, 4),
     an_socket = Some 5, an_bind = True, an_chmod = False, an_listen = True\<rparr>"

lemmas sample_listen_defs = sample_answers_def listen_def stages_def syscall_error_def Let_def

theorem listen_secured_witness:
  "fst (listen sample_answers ''/tmp/x.sock'' 16 (new_server (ExecutorServer True True None))) = Some ''chmod: Permission denied'' \<and>
   \<not> (\<exists>before after. sv_calls (snd (listen sample_answers ''/tmp/x.sock'' 16 (new_server (ExecutorServer True True None)))) = before @ Sys_listen 16 True # after)"
proof -
  obtain r sv where l: "listen sample_answers ''/tmp/x.sock'' 16 (new_server (ExecutorServer True True None)) = (r, sv)" by fastforce
  have "sv_calls sv = [Create_directories, Remove_path, Sys_pipe (Some (3, 4)), Sys_socket (Some 5), Sys_bind True, Sys_chmod owner_only False]"
    using l by (simp add: sample_listen_defs) (auto simp: call_def)
  with l listen_secured [OF l, of 16 True] show ?thesis by (simp add: sample_answers_def stages_def syscall_error_def)
qed

text \<open>
  C34: no descriptor leaks and none is closed twice: over a whole life (listen, whether or not
  it succeeds, any number of connections until \<open>serve_forever\<close> returns, destruction) the
  descriptors closed are exactly the ones the system handed out, and no connection is left
  registered.
\<close>

theorem descriptors_released:
  assumes "listen an path backlog (new_server ex) = (r, sv)" "valid_fds an" "serve_forever vs sv = (True, sv')"
  shows "mset (closed_by (destroy_server sv')) = mset (opened_by (destroy_server sv')) \<and> sv_connection_fd sv' = - 1"
proof -
  note l = listen_resources [OF assms(1,2)]
  then have "sv_connection_fd sv = - 1" by simp
  from serve_forever_resources [OF assms(3) this] obtain fds where "held sv' = held sv" "sv_connection_fd sv' = - 1"
      "opened_by sv' = opened_by sv @ fds" "closed_by sv' = closed_by sv @ fds" by blast
  with l show ?thesis by (simp add: destroy_resources)
qed

definition sample_visit :: visit where
  "sample_visit = \<lparr>vi_stopping = False, vi_polls = [Poll_fault True False, Poll_returned False False True], vi_accept = Accepted_fd 6,
     vi_passes = [sample_pass], vi_rxs = [Closed], vi_stopped = True\<rparr>"

lemma sample_visit_served:
  assumes "\<not> sv_stopping sv" "0 \<le> sv_listen_fd sv"
  shows "serve_forever [sample_visit] sv =
    (True, call (Sys_close 6) ((call (Sys_accept (Some 6)) sv)\<lparr>sv_executor := sv_executor sv, sv_connection_fd := - 1\<rparr>))"
proof -
  have "serve_connection [sample_pass] [Closed] (sv_executor sv) = (Return, sv_executor sv)"
    using serve_connection_eq [of "[]" "[sample_pass]" True "sv_executor sv"] by (simp add: close_mark_def sample_pass_def kFrameLengthBytes_def read_exactly.simps)
  with assms show ?thesis
    using serve_one_accepts [of sv sample_visit 6 "sv_executor sv"] by (simp add: sample_visit_def del: serve_connection.simps)
qed

theorem descriptors_released_witness:
  "\<exists>sv' :: server. serve_forever [sample_visit] (snd (listen sample_answers ''/tmp/x.sock'' 16 (new_server (ExecutorServer True True None)))) =
     (True, sv') \<and> mset (closed_by (destroy_server sv')) = mset (opened_by (destroy_server sv'))"
proof -
  obtain r sv where l: "listen sample_answers ''/tmp/x.sock'' 16 (new_server (ExecutorServer True True None)) = (r, sv)" by fastforce
  have ok: "\<not> sv_stopping sv" "0 \<le> sv_listen_fd sv" using l by (auto simp: sample_listen_defs)
  have "valid_fds sample_answers" by (simp add: valid_fds_def sample_answers_def)
  from descriptors_released [OF l this sample_visit_served [OF ok]] sample_visit_served [OF ok] l
  show ?thesis by simp
qed

text \<open>
  A failing \<open>accept\<close> ends the service although nobody asked it to stop: with the stop flag
  down and a peer waiting, any \<open>errno\<close> but \<open>EINTR\<close> makes \<open>serve_forever\<close> return. The comment on
  \<open>serve_one_connection\<close> promises false only once stopped.
\<close>

lemma accept_failure_ends_service:
  assumes "\<not> sv_stopping sv" "0 \<le> sv_listen_fd sv" "\<not> vi_stopping v" "await_peer (vi_polls v) = Some True"
    and "vi_accept v = Accept_fault False False"
  shows "serve_forever (v # vs) sv = (True, call (Sys_accept None) sv)"
  using assms by (simp add: serve_one_connection_def)

lemma accept_failure_ends_service_witness:
  "serve_forever [sample_visit\<lparr>vi_accept := Accept_fault False False\<rparr>] (new_server (ExecutorServer True True None)\<lparr>sv_listen_fd := 5\<rparr>) =
     (True, call (Sys_accept None) (new_server (ExecutorServer True True None)\<lparr>sv_listen_fd := 5\<rparr>))"
  by (rule accept_failure_ends_service) (simp_all add: sample_visit_def)

end
