(* ===== verification/Executor_Stop.thy ===== *)
theory Executor_Stop
  imports Executor_Lifecycle
begin

text \<open>
  \<open>stop\<close> of \<open>src/executor.cpp\<close> against the thread that serves. Both are cut into their shared-memory
  accesses and blocking calls; a run interleaves them with the peer and with signals. The two atomics
  are accessed with \<open>memory_order_relaxed\<close>: a store may become visible to the other thread later
  than the accesses that follow it, which the flag \<open>weak\<close> switches on by letting each store wait
  in a buffer. With the flag off every store is visible at once.
\<close>

section \<open>Configurations\<close>

text \<open>
  Where the serving thread is: at the load of the flag on top of \<open>serve_one_connection\<close>, in
  \<open>poll\<close>, at the load after it, in \<open>accept\<close>, before the store of the descriptor, at the load on top
  of the connection loop, in a \<open>read\<close>, in a \<open>send\<close>, before the store of minus one, before \<open>close\<close>,
  at the last load, or out of \<open>serve_forever\<close>.
\<close>

datatype spot = Check_top | In_poll | Check_poll | In_accept | Store_fd | Loop_top | In_read | In_send
  | Clear_fd | Close_fd | Check_end | Ended

text \<open>Where \<open>stop\<close> is: before each of its four actions, the last with the descriptor it loaded.\<close>

datatype stop_spot = Not_called | Set_flag | Write_pipe | Load_fd | Shut_down bool | Stop_done

record conf =
  cf_server :: spot
  cf_stop :: stop_spot
  cf_stopping :: bool
  cf_stopping_buffer :: bool
  cf_connection :: bool
  cf_connection_buffer :: "bool list"
  cf_wake_byte :: bool
  cf_shut :: bool

definition first_conf :: conf where
  "first_conf = \<lparr>cf_server = Check_top, cf_stop = Not_called, cf_stopping = False, cf_stopping_buffer = False,
     cf_connection = False, cf_connection_buffer = [], cf_wake_byte = False, cf_shut = False\<rparr>"

definition store_connection :: "bool \<Rightarrow> bool \<Rightarrow> conf \<Rightarrow> conf" where
  "store_connection weak b c =
     (if weak then c\<lparr>cf_connection_buffer := cf_connection_buffer c @ [b]\<rparr> else c\<lparr>cf_connection := b\<rparr>)"

definition store_stopping :: "bool \<Rightarrow> conf \<Rightarrow> conf" where
  "store_stopping weak c = (if weak then c\<lparr>cf_stopping_buffer := True\<rparr> else c\<lparr>cf_stopping := True\<rparr>)"

text \<open>Whether the socket of a connection is open.\<close>

definition socket_open :: "spot \<Rightarrow> bool" where
  "socket_open s \<longleftrightarrow> s \<in> {Store_fd, Loop_top, In_read, In_send, Clear_fd, Close_fd}"

section \<open>Steps\<close>

text \<open>Who moves: the serving thread by itself, the peer, a signal or a failing call that lets it go on, \<open>stop\<close>, a buffer.\<close>

datatype mover = By_server | By_peer | By_signal | By_fault | By_stop | By_memory

inductive serve_step :: "bool \<Rightarrow> mover \<Rightarrow> conf \<Rightarrow> conf \<Rightarrow> bool" for weak :: bool where
  check_top: "cf_server c = Check_top \<Longrightarrow>
    serve_step weak By_server c (c\<lparr>cf_server := if cf_stopping c then Ended else In_poll\<rparr>)"
| poll_wake: "cf_server c = In_poll \<Longrightarrow> cf_wake_byte c \<Longrightarrow> serve_step weak By_server c (c\<lparr>cf_server := Ended\<rparr>)"
| poll_failed: "cf_server c = In_poll \<Longrightarrow> serve_step weak By_fault c (c\<lparr>cf_server := Ended\<rparr>)"
| poll_peer: "cf_server c = In_poll \<Longrightarrow> \<not> cf_wake_byte c \<Longrightarrow> serve_step weak By_peer c (c\<lparr>cf_server := Check_poll\<rparr>)"
| poll_eintr: "cf_server c = In_poll \<Longrightarrow>
    serve_step weak By_signal c (c\<lparr>cf_server := if cf_stopping c then Ended else In_poll\<rparr>)"
| check_poll: "cf_server c = Check_poll \<Longrightarrow>
    serve_step weak By_server c (c\<lparr>cf_server := if cf_stopping c then Ended else In_accept\<rparr>)"
| accepted: "cf_server c = In_accept \<Longrightarrow>
    serve_step weak By_server c (c\<lparr>cf_server := Store_fd, cf_shut := False\<rparr>)"
| accept_eintr: "cf_server c = In_accept \<Longrightarrow>
    serve_step weak By_signal c (c\<lparr>cf_server := if cf_stopping c then Ended else Check_top\<rparr>)"
| accept_failed: "cf_server c = In_accept \<Longrightarrow> serve_step weak By_fault c (c\<lparr>cf_server := Ended\<rparr>)"
| store_fd: "cf_server c = Store_fd \<Longrightarrow>
    serve_step weak By_server c ((store_connection weak True c)\<lparr>cf_server := Loop_top\<rparr>)"
| loop_top: "cf_server c = Loop_top \<Longrightarrow>
    serve_step weak By_server c (c\<lparr>cf_server := if cf_stopping c then Clear_fd else In_read\<rparr>)"
| read_frame: "cf_server c = In_read \<Longrightarrow> serve_step weak By_peer c (c\<lparr>cf_server := In_send\<rparr>)"
| read_closed: "cf_server c = In_read \<Longrightarrow> serve_step weak By_peer c (c\<lparr>cf_server := Clear_fd\<rparr>)"
| read_shut: "cf_server c = In_read \<Longrightarrow> cf_shut c \<Longrightarrow> serve_step weak By_server c (c\<lparr>cf_server := Clear_fd\<rparr>)"
| read_eintr: "cf_server c = In_read \<Longrightarrow>
    serve_step weak By_signal c (c\<lparr>cf_server := if cf_stopping c then Clear_fd else In_read\<rparr>)"
| send_taken: "cf_server c = In_send \<Longrightarrow> serve_step weak By_peer c (c\<lparr>cf_server := Loop_top\<rparr>)"
| send_failed: "cf_server c = In_send \<Longrightarrow> serve_step weak By_peer c (c\<lparr>cf_server := Clear_fd\<rparr>)"
| send_shut: "cf_server c = In_send \<Longrightarrow> cf_shut c \<Longrightarrow> serve_step weak By_server c (c\<lparr>cf_server := Clear_fd\<rparr>)"
| send_eintr: "cf_server c = In_send \<Longrightarrow>
    serve_step weak By_signal c (c\<lparr>cf_server := if cf_stopping c then Clear_fd else In_send\<rparr>)"
| clear_fd: "cf_server c = Clear_fd \<Longrightarrow>
    serve_step weak By_server c ((store_connection weak False c)\<lparr>cf_server := Close_fd\<rparr>)"
| close_conn: "cf_server c = Close_fd \<Longrightarrow> serve_step weak By_server c (c\<lparr>cf_server := Check_end\<rparr>)"
| check_end: "cf_server c = Check_end \<Longrightarrow>
    serve_step weak By_server c (c\<lparr>cf_server := if cf_stopping c then Ended else Check_top\<rparr>)"

inductive stop_step :: "bool \<Rightarrow> mover \<Rightarrow> conf \<Rightarrow> conf \<Rightarrow> bool" for weak :: bool where
  call_stop: "cf_stop c = Not_called \<Longrightarrow> stop_step weak By_stop c (c\<lparr>cf_stop := Set_flag\<rparr>)"
| set_flag: "cf_stop c = Set_flag \<Longrightarrow> stop_step weak By_stop c ((store_stopping weak c)\<lparr>cf_stop := Write_pipe\<rparr>)"
| write_pipe: "cf_stop c = Write_pipe \<Longrightarrow> stop_step weak By_stop c (c\<lparr>cf_wake_byte := True, cf_stop := Load_fd\<rparr>)"
| load_fd: "cf_stop c = Load_fd \<Longrightarrow> stop_step weak By_stop c (c\<lparr>cf_stop := Shut_down (cf_connection c)\<rparr>)"
| shut_down: "cf_stop c = Shut_down b \<Longrightarrow>
    stop_step weak By_stop c (c\<lparr>cf_shut := cf_shut c \<or> b \<and> socket_open (cf_server c), cf_stop := Stop_done\<rparr>)"

inductive memory_step :: "mover \<Rightarrow> conf \<Rightarrow> conf \<Rightarrow> bool" where
  flush_stopping: "cf_stopping_buffer c \<Longrightarrow> memory_step By_memory c (c\<lparr>cf_stopping := True, cf_stopping_buffer := False\<rparr>)"
| flush_connection: "cf_connection_buffer c = b # bs \<Longrightarrow>
    memory_step By_memory c (c\<lparr>cf_connection := b, cf_connection_buffer := bs\<rparr>)"

definition run_step :: "bool \<Rightarrow> mover \<Rightarrow> conf \<Rightarrow> conf \<Rightarrow> bool" where
  "run_step weak w c c' \<longleftrightarrow> serve_step weak w c c' \<or> stop_step weak w c c' \<or> memory_step w c c'"

inductive run :: "bool \<Rightarrow> mover list \<Rightarrow> conf \<Rightarrow> conf \<Rightarrow> bool" for weak :: bool where
  run_nil: "run weak [] c c"
| run_cons: "run_step weak w c c' \<Longrightarrow> run weak ws c' c'' \<Longrightarrow> run weak (w # ws) c c''"

inductive_cases serve_stepE: "serve_step weak w c c'"
inductive_cases stop_stepE: "stop_step weak w c c'"
inductive_cases memory_stepE: "memory_step w c c'"
inductive_cases run_consE: "run weak (w # ws) c c''"
inductive_simps run_nil_iff: "run weak [] c c'"
inductive_simps run_cons_iff: "run weak (w # ws) c c''"

section \<open>With every store visible at once\<close>

text \<open>
  The invariant: the flag is up from the moment \<open>stop\<close> has stored it, the pipe holds the byte once
  it was written, and the registered descriptor is the open one wherever the serving thread may
  block on it. Once \<open>stop\<close> has loaded the descriptor, a thread that may still block on the socket
  without having looked at the flag since has it shut down or about to be.
\<close>

definition blocking :: "spot \<Rightarrow> bool" where
  "blocking s \<longleftrightarrow> s \<in> {In_read, In_send}"

definition stop_inv :: "conf \<Rightarrow> bool" where
  "stop_inv c \<longleftrightarrow>
     cf_stopping c = (cf_stop c \<notin> {Not_called, Set_flag}) \<and>
     cf_wake_byte c = (cf_stop c \<notin> {Not_called, Set_flag, Write_pipe}) \<and>
     cf_connection c = (cf_server c \<in> {Loop_top, In_read, In_send, Clear_fd}) \<and>
     \<not> cf_stopping_buffer c \<and> cf_connection_buffer c = [] \<and>
     (blocking (cf_server c) \<longrightarrow> cf_stop c \<noteq> Shut_down False) \<and>
     (blocking (cf_server c) \<longrightarrow> cf_stop c = Stop_done \<longrightarrow> cf_shut c)"

lemma stop_inv_first: "stop_inv first_conf"
  by (simp add: stop_inv_def first_conf_def blocking_def)

lemma stop_inv_step: "run_step False w c c' \<Longrightarrow> stop_inv c \<Longrightarrow> stop_inv c'"
  unfolding run_step_def
proof (elim disjE)
  assume "stop_inv c" "serve_step False w c c'"
  then show "stop_inv c'"
    by (elim serve_stepE) (auto simp: stop_inv_def blocking_def store_connection_def)
next
  assume "stop_inv c" "stop_step False w c c'"
  then show "stop_inv c'"
    by (elim stop_stepE) (auto simp: stop_inv_def blocking_def store_stopping_def socket_open_def)
next
  assume "stop_inv c" "memory_step w c c'"
  then show "stop_inv c'" by (elim memory_stepE) (auto simp: stop_inv_def)
qed

lemma run_inv: "run False ws c c' \<Longrightarrow> stop_inv c \<Longrightarrow> stop_inv c'"
  by (induction rule: run.induct) (auto intro: stop_inv_step)

text \<open>Once \<open>stop\<close> has returned, every step takes the serving thread closer to its end.\<close>

fun steps_left :: "spot \<Rightarrow> nat" where
  "steps_left In_poll = 8"
| "steps_left Check_poll = 7"
| "steps_left In_accept = 6"
| "steps_left In_read = 6"
| "steps_left Store_fd = 5"
| "steps_left In_send = 5"
| "steps_left Loop_top = 4"
| "steps_left Clear_fd = 3"
| "steps_left Close_fd = 2"
| "steps_left Check_end = 1"
| "steps_left Check_top = 1"
| "steps_left Ended = 0"

lemma steps_left_bound: "steps_left s \<le> 8"
  by (cases s) simp_all

lemma stopped_decreases:
  assumes "run_step False w c c'" "stop_inv c" "cf_stop c = Stop_done"
  shows "steps_left (cf_server c') < steps_left (cf_server c) \<and> cf_stop c' = Stop_done"
  using assms(1) unfolding run_step_def
proof (elim disjE)
  assume "serve_step False w c c'"
  then show ?thesis using assms(2,3)
    by (elim serve_stepE) (auto simp: stop_inv_def store_connection_def)
next
  assume "stop_step False w c c'"
  then show ?thesis using assms(3) by (elim stop_stepE) auto
next
  assume "memory_step w c c'"
  then show ?thesis using assms(2) by (elim memory_stepE) (auto simp: stop_inv_def)
qed

lemma stopped_enabled:
  assumes "stop_inv c" "cf_stop c = Stop_done" "cf_server c \<noteq> Ended"
  shows "\<exists>c'. run_step False By_server c c'"
proof -
  have "\<exists>c'. serve_step False By_server c c'"
    using assms by (cases "cf_server c") (auto simp: stop_inv_def blocking_def intro: serve_step.intros)
  then show ?thesis by (auto simp: run_step_def)
qed

lemma stopped_run:
  assumes "run False ws c c'" "stop_inv c" "cf_stop c = Stop_done"
  shows "length ws + steps_left (cf_server c') \<le> steps_left (cf_server c) \<and> cf_stop c' = Stop_done \<and> stop_inv c'"
  using assms
proof (induction rule: run.induct)
  case (run_cons w c c' ws c'')
  have "stop_inv c'" using stop_inv_step run_cons.hyps(1) run_cons.prems(1) .
  with stopped_decreases [OF run_cons.hyps(1) run_cons.prems] run_cons.IH show ?case by simp
qed simp

section \<open>Properties\<close>

text \<open>
  C19: with its stores visible at once, \<open>stop\<close> stops: wherever the serving thread was when \<open>stop\<close>
  ran, in \<open>poll\<close>, in \<open>read\<close>, in \<open>send\<close> or between a look at the flag and the blocking call after it,
  from the return of \<open>stop\<close> on it takes at most eight more steps, and until it has left
  \<open>serve_forever\<close> it can always take one by itself, without the peer.
\<close>

theorem stop_stops:
  assumes "run False ws first_conf c" "cf_stop c = Stop_done" "run False ws' c c'"
  shows "length ws' \<le> 8 \<and> (cf_server c' = Ended \<or> (\<exists>c''. run_step False By_server c' c''))"
proof -
  have "stop_inv c" using run_inv [OF assms(1) stop_inv_first] .
  from stopped_run [OF assms(3) this assms(2)] steps_left_bound [of "cf_server c"]
  have "length ws' \<le> 8" "stop_inv c'" "cf_stop c' = Stop_done" by simp_all
  with stopped_enabled [of c'] show ?thesis by blast
qed

text \<open>Concrete runs are built step by step; the state reached is computed along the way.\<close>

lemma run_into:
  assumes "run_step weak w c c1" "\<exists>c''. run weak ws c1 c'' \<and> P c''"
  shows "\<exists>c''. run weak (w # ws) c c'' \<and> P c''"
  using assms by (auto intro: run_cons)

lemma serve_into: "serve_step weak w c c1 \<Longrightarrow> \<exists>c''. run weak ws c1 c'' \<and> P c'' \<Longrightarrow> \<exists>c''. run weak (w # ws) c c'' \<and> P c''"
  by (rule run_into) (simp_all add: run_step_def)

lemma stop_into: "stop_step weak w c c1 \<Longrightarrow> \<exists>c''. run weak ws c1 c'' \<and> P c'' \<Longrightarrow> \<exists>c''. run weak (w # ws) c c'' \<and> P c''"
  by (rule run_into) (simp_all add: run_step_def)

lemma memory_into: "memory_step w c c1 \<Longrightarrow> \<exists>c''. run weak ws c1 c'' \<and> P c'' \<Longrightarrow> \<exists>c''. run weak (w # ws) c c'' \<and> P c''"
  by (rule run_into) (simp_all add: run_step_def)

lemma run_here: "P c \<Longrightarrow> \<exists>c''. run weak [] c c'' \<and> P c''"
  by (auto intro: run_nil)

lemmas run_eval = first_conf_def store_connection_def store_stopping_def socket_open_def

definition to_read :: "mover list" where
  "to_read = [By_server, By_peer, By_server, By_server, By_server, By_server]"

lemma reaches_read:
  assumes "\<exists>c''. run weak ws (first_conf\<lparr>cf_server := In_read,
      cf_connection := \<not> weak, cf_connection_buffer := if weak then [True] else []\<rparr>) c'' \<and> P c''"
  shows "\<exists>c''. run weak (to_read @ ws) first_conf c'' \<and> P c''"
  unfolding to_read_def append.simps
  apply (rule serve_into, rule check_top, simp add: run_eval)
  apply (rule serve_into, rule poll_peer, simp add: run_eval, simp add: run_eval)
  apply (rule serve_into, rule check_poll, simp add: run_eval)
  apply (rule serve_into, rule accepted, simp add: run_eval)
  apply (rule serve_into, rule store_fd, simp add: run_eval)
  apply (rule serve_into, rule loop_top, simp add: run_eval)
  using assms by (cases weak) (simp_all add: run_eval)

lemma stop_while_reading:
  "\<exists>c. run False (to_read @ [By_stop, By_stop, By_stop, By_stop, By_stop]) first_conf c \<and>
     cf_stop c = Stop_done \<and> cf_server c = In_read"
  apply (rule reaches_read)
  apply (rule stop_into, rule call_stop, simp add: run_eval)
  apply (rule stop_into, rule set_flag, simp add: run_eval)
  apply (rule stop_into, rule write_pipe, simp add: run_eval)
  apply (rule stop_into, rule load_fd, simp add: run_eval)
  apply (rule stop_into, rule shut_down [where b = True], simp add: run_eval)
  by (rule run_here) (simp add: run_eval)

theorem stop_stops_witness:
  "\<exists>c c'. run False (to_read @ [By_stop, By_stop, By_stop, By_stop, By_stop]) first_conf c \<and>
     cf_server c = In_read \<and> run_step False By_server c c'"
proof -
  obtain c where c: "run False (to_read @ [By_stop, By_stop, By_stop, By_stop, By_stop]) first_conf c"
      "cf_stop c = Stop_done" "cf_server c = In_read"
    using stop_while_reading by blast
  from stop_stops [OF c(1,2) run_nil] c show ?thesis by auto
qed

text \<open>
  C33: with relaxed accesses a stop can be lost. There is a run in which the thread has stored
  the descriptor and then seen the flag down, while \<open>stop\<close> has stored the flag and then seen no
  descriptor: \<open>stop\<close> has returned, all stores are visible, and the thread sits in a \<open>read\<close> on a
  socket nobody shut down, which only the peer or a signal can end.
\<close>

theorem stop_can_be_lost:
  "\<exists>ws c. run True ws first_conf c \<and> cf_stop c = Stop_done \<and> cf_stopping c \<and> cf_connection c \<and>
     cf_server c = In_read \<and> \<not> cf_shut c \<and> {w. \<exists>c'. run_step True w c c'} = {By_peer, By_signal}"
proof (rule exI)
  have steps: "{w. \<exists>c'. run_step True w c c'} = {By_peer, By_signal}"
    if "cf_server c = In_read" "cf_stop c = Stop_done" "\<not> cf_shut c" "\<not> cf_stopping_buffer c" "cf_connection_buffer c = []" for c
    using that unfolding run_step_def
    by (auto elim!: serve_stepE stop_stepE memory_stepE intro: serve_step.intros)
  have "\<exists>c. run True (to_read @ [By_stop, By_stop, By_stop, By_stop, By_stop, By_memory, By_memory]) first_conf c \<and>
      cf_stop c = Stop_done \<and> cf_stopping c \<and> cf_connection c \<and> cf_server c = In_read \<and> \<not> cf_shut c \<and>
      \<not> cf_stopping_buffer c \<and> cf_connection_buffer c = []"
    apply (rule reaches_read)
    apply (rule stop_into, rule call_stop, simp add: run_eval)
    apply (rule stop_into, rule set_flag, simp add: run_eval)
    apply (rule stop_into, rule write_pipe, simp add: run_eval)
    apply (rule stop_into, rule load_fd, simp add: run_eval)
    apply (rule stop_into, rule shut_down [where b = False], simp add: run_eval)
    apply (rule memory_into, rule flush_stopping, simp add: run_eval)
    apply (rule memory_into, rule flush_connection [where b = True and bs = "[]"], simp add: run_eval)
    by (rule run_here) (simp add: run_eval)
  with steps show "\<exists>c. run True (to_read @ [By_stop, By_stop, By_stop, By_stop, By_stop, By_memory, By_memory]) first_conf c \<and>
      cf_stop c = Stop_done \<and> cf_stopping c \<and> cf_connection c \<and> cf_server c = In_read \<and> \<not> cf_shut c \<and>
      {w. \<exists>c'. run_step True w c c'} = {By_peer, By_signal}"
    by blast
qed

end
