(* ===== verification/Executor_Halt.thy ===== *)
theory Executor_Halt
  imports Executor_Lifecycle
begin

text \<open>
  The kill switch under the executor: what \<open>is_engaged\<close> of \<open>src/killswitch.cpp\<close> promises for one
  question, the connection loop and the service of \<open>src/executor.cpp\<close> promise for a whole run. The
  passes of the loop are in the order of their clock readings, and each probe of the file answers
  what is there at its time.
\<close>

section \<open>Runs in time\<close>

fun timed :: "(int \<Rightarrow> bool option) \<Rightarrow> int \<Rightarrow> pass list \<Rightarrow> bool" where
  "timed present prev [] \<longleftrightarrow> True"
| "timed present prev (ps # pss) \<longleftrightarrow>
     prev \<le> sint (ps_now_ns ps) \<and> 0 \<le> sint (ps_now_ns ps) \<and> ps_exists ps = present (sint (ps_now_ns ps)) \<and>
     timed present (sint (ps_now_ns ps)) pss"

fun last_time :: "int \<Rightarrow> pass list \<Rightarrow> int" where
  "last_time prev [] = prev"
| "last_time prev (ps # pss) = last_time (sint (ps_now_ns ps)) pss"

lemma timed_append [simp]: "timed present prev (a @ b) \<longleftrightarrow> timed present prev a \<and> timed present (last_time prev a) b"
  by (induction a arbitrary: prev) auto

lemma last_time_append [simp]: "last_time prev (a @ b) = last_time (last_time prev a) b"
  by (induction a arbitrary: prev) simp_all

lemma timed_last: "timed present prev pss \<Longrightarrow> prev \<le> last_time prev pss"
  by (induction pss arbitrary: prev) fastforce+

text \<open>The executor has the kill switch, and what it has cached was true when it was cached.\<close>

definition switch_fresh :: "(int \<Rightarrow> bool option) \<Rightarrow> int64 \<Rightarrow> int \<Rightarrow> executor \<Rightarrow> bool" where
  "switch_fresh present ttl prev ex \<longleftrightarrow>
     (\<exists>ks. ex_kill_switch ex = Some ks \<and> switch_ok present prev ks \<and> ks_ttl_ns ks = ttl)"

lemma switch_fresh_later: "switch_fresh present ttl prev ex \<Longrightarrow> prev \<le> now \<Longrightarrow> switch_fresh present ttl now ex"
  by (auto simp: switch_fresh_def switch_ok_def)

lemma switch_fresh_cong: "switch_fresh present ttl prev ex \<Longrightarrow> ex_kill_switch ex' = ex_kill_switch ex \<Longrightarrow> switch_fresh present ttl prev ex'"
  by (simp add: switch_fresh_def)

section \<open>One frame\<close>

lemma handle_fire_switch:
  "ex_kill_switch (snd (handle_fire now exists m ex)) =
     (if dry_run m \<or> \<not> tradeable m then ex_kill_switch ex else map_option (\<lambda>ks. snd (is_engaged now exists ks)) (ex_kill_switch ex))"
  by (auto simp: handle_fire_def tradeable_def emit_def Let_def split: option.splits prod.splits)

lemma serve_frame_switch:
  "ex_kill_switch (snd (serve_frame ps body ex)) = ex_kill_switch ex \<or>
   ex_kill_switch (snd (serve_frame ps body ex)) = map_option (\<lambda>ks. snd (is_engaged (ps_now_ns ps) (ps_exists ps) ks)) (ex_kill_switch ex)"
proof -
  have s: "ex_kill_switch (snd (send_ack txs a ex')) = ex_kill_switch ex'" for txs a ex'
    by (simp add: send_ack_def emit_def Let_def split: prod.split)
  have k: "send_ack txs a ex' = (f, ex'') \<Longrightarrow> ex_kill_switch ex'' = ex_kill_switch ex'" for txs a ex' f ex''
    using s [of txs a ex'] by simp
  show ?thesis
    by (auto simp: serve_frame_def Let_def s handle_fire_switch emit_def dest!: k split: sum.splits prod.splits flow.splits)
qed

lemma serve_frame_fresh:
  assumes "switch_fresh present ttl prev ex" "timed present prev [ps]"
  shows "switch_fresh present ttl (sint (ps_now_ns ps)) (snd (serve_frame ps body ex))"
proof -
  obtain ks where ks: "ex_kill_switch ex = Some ks" "switch_ok present prev ks" "ks_ttl_ns ks = ttl"
    using assms(1) by (auto simp: switch_fresh_def)
  obtain b ks' where e: "is_engaged (ps_now_ns ps) (present (sint (ps_now_ns ps))) ks = (b, ks')" by fastforce
  have "switch_ok present (sint (ps_now_ns ps)) ks'" "ks_ttl_ns ks' = ttl"
    using is_engaged_spec [OF ks(2) _ _ e] assms(2) ks(3) by simp_all
  moreover have "switch_ok present (sint (ps_now_ns ps)) ks" using ks(2) assms(2) by (auto simp: switch_ok_def)
  ultimately show ?thesis
    using serve_frame_switch [of ps body ex] ks e assms(2) by (auto simp: switch_fresh_def)
qed

text \<open>\<open>there\<close> since \<open>since\<close> for longer than the time to live: a pass of the loop that must obey.\<close>

definition must_obey :: "int64 \<Rightarrow> int \<Rightarrow> pass \<Rightarrow> bool" where
  "must_obey ttl since ps \<longleftrightarrow> since \<le> sint (ps_now_ns ps) \<and> since + sint ttl \<le> sint (ps_now_ns ps)"

definition shadow_only :: "effect list \<Rightarrow> bool" where
  "shadow_only effs \<longleftrightarrow> (\<forall>fr. Dispatch fr \<in> set effs \<longrightarrow> fr_dry_run fr)"

lemma shadow_only_append [simp]: "shadow_only (a @ b) \<longleftrightarrow> shadow_only a \<and> shadow_only b"
  and shadow_only_Nil [simp]: "shadow_only []"
  by (auto simp: shadow_only_def)

lemma serve_frame_obeys:
  assumes "switch_fresh present ttl prev ex" "timed present prev [ps]" "must_obey ttl since ps"
    and there: "\<And>t. since \<le> t \<Longrightarrow> present t = Some True"
  shows "\<exists>new. ex_effects (snd (serve_frame ps body ex)) = ex_effects ex @ new \<and> shadow_only new"
proof (cases rule: serve_frame_cases [of body ps ex])
  case (3 m)
  obtain ks where ks: "ex_kill_switch ex = Some ks" "switch_ok present prev ks" "ks_ttl_ns ks = ttl"
    using assms(1) by (auto simp: switch_fresh_def)
  obtain b ks' where e: "is_engaged (ps_now_ns ps) (present (sint (ps_now_ns ps))) ks = (b, ks')" by fastforce
  obtain t where t: "t \<le> sint (ps_now_ns ps)" "t = sint (ps_now_ns ps) \<or> sint (ps_now_ns ps) - t < sint (ks_ttl_ns ks)"
      "b = (present t = Some True)"
    using is_engaged_spec [OF ks(2) _ _ e] assms(2) by auto
  then have "since \<le> t" using assms(3) ks(3) by (auto simp: must_obey_def)
  then have b using t(3) there by simp
  then have "halted (ps_now_ns ps) (ps_exists ps) (acked_wake ps m ex)" using ks(1) e assms(2) by (auto simp: halted_def)
  then have d: "dry_run m" if "fst (handle_fire (ps_now_ns ps) (ps_exists ps) m (acked_wake ps m ex)) = Dispatched"
    using that by (auto simp: handle_fire_outcome split: if_splits)
  show ?thesis
    using 3 d by (auto simp: accept_wake_def handle_fire_effects acked_wake_effects shadow_only_def fire_of_def)
qed (auto simp: shadow_only_def)

section \<open>A connection\<close>

lemma serve_connection_fresh:
  "switch_fresh present ttl prev ex \<Longrightarrow> timed present prev pss \<Longrightarrow>
     switch_fresh present ttl (last_time prev pss) (snd (serve_connection pss rxs ex))"
proof (induction pss arbitrary: prev rxs ex)
  case (Cons ps pss)
  have p: "timed present prev [ps]" "timed present (sint (ps_now_ns ps)) pss" using Cons.prems(2) by simp_all
  have stay: "switch_fresh present ttl (last_time prev (ps # pss)) ex"
    by (rule switch_fresh_later [OF Cons.prems(1) timed_last [OF Cons.prems(2)]])
  have served: "switch_fresh present ttl (last_time prev (ps # pss)) ex1" if "serve_frame ps body ex = (f, ex1)" for body f ex1
    using serve_frame_fresh [OF Cons.prems(1) p(1), of body] that timed_last [OF p(2)] by (auto intro: switch_fresh_later)
  have more: "switch_fresh present ttl (last_time prev (ps # pss)) (snd (serve_connection pss rxs2 ex1))"
    if "serve_frame ps body ex = (f, ex1)" for body f ex1 rxs2
    using Cons.IH [OF _ p(2), of ex1 rxs2] serve_frame_fresh [OF Cons.prems(1) p(1), of body] that by simp
  show ?case
    using stay served more by (auto split: ReadResult.split sum.split prod.split flow.split)
qed simp

lemma serve_connection_obeys:
  assumes there: "\<And>t. since \<le> t \<Longrightarrow> present t = Some True"
  shows "switch_fresh present ttl prev ex \<Longrightarrow> timed present prev pss \<Longrightarrow> \<forall>ps \<in> set pss. must_obey ttl since ps \<Longrightarrow>
    \<exists>new. ex_effects (snd (serve_connection pss rxs ex)) = ex_effects ex @ new \<and> shadow_only new"
proof (induction pss arbitrary: prev rxs ex)
  case (Cons ps pss)
  have p: "timed present prev [ps]" "timed present (sint (ps_now_ns ps)) pss" "must_obey ttl since ps" using Cons.prems(2,3) by simp_all
  have served: "\<exists>new. ex_effects ex1 = ex_effects ex @ new \<and> shadow_only new" if "serve_frame ps body ex = (f, ex1)" for body f ex1
    using serve_frame_obeys [OF Cons.prems(1) p(1,3) there, of body] that by simp
  have more: "\<exists>new. ex_effects (snd (serve_connection pss rxs2 ex1)) = ex_effects ex @ new \<and> shadow_only new"
    if s: "serve_frame ps body ex = (f, ex1)" for body f ex1 rxs2
  proof -
    have "switch_fresh present ttl (sint (ps_now_ns ps)) ex1" using serve_frame_fresh [OF Cons.prems(1) p(1), of body] s by simp
    from Cons.IH [OF this p(2), of rxs2] served [OF s] Cons.prems(3) show ?thesis by fastforce
  qed
  have stay: "\<exists>new. ex_effects ex = ex_effects ex @ new \<and> shadow_only new" by (intro exI [of _ "[]"]) simp
  show ?case
    using stay served more by (auto split: ReadResult.split sum.split prod.split flow.split)
qed simp

text \<open>The part of a connection behind some moment, after any part before it.\<close>

lemma serve_connection_obeys_after:
  assumes there: "\<And>t. since \<le> t \<Longrightarrow> present t = Some True"
  shows "switch_fresh present ttl prev ex \<Longrightarrow> timed present prev (pss @ late) \<Longrightarrow> \<forall>ps \<in> set late. must_obey ttl since ps \<Longrightarrow>
    \<exists>new. ex_effects (snd (serve_connection (pss @ late) rxs ex)) = ex_effects (snd (serve_connection pss rxs ex)) @ new \<and> shadow_only new"
proof (induction pss arbitrary: prev rxs ex)
  case Nil
  then show ?case using serve_connection_obeys [OF there, where pss = late] by simp
next
  case (Cons ps pss)
  have p: "timed present prev [ps]" "timed present (sint (ps_now_ns ps)) (pss @ late)" using Cons.prems(2) by simp_all
  have more: "\<exists>new. ex_effects (snd (serve_connection (pss @ late) rxs2 ex1)) = ex_effects (snd (serve_connection pss rxs2 ex1)) @ new \<and> shadow_only new"
    if s: "serve_frame ps body ex = (f, ex1)" for body f ex1 rxs2
  proof -
    have "switch_fresh present ttl (sint (ps_now_ns ps)) ex1" using serve_frame_fresh [OF Cons.prems(1) p(1), of body] s by simp
    from Cons.IH [OF this p(2) Cons.prems(3)] show ?thesis .
  qed
  have stay: "\<exists>new. effs = effs @ new \<and> shadow_only new" for effs :: "effect list" by (intro exI [of _ "[]"]) simp
  show ?case
    using stay more by (auto split: ReadResult.split sum.split prod.split flow.split)
qed

section \<open>The service\<close>

definition passes_of :: "visit list \<Rightarrow> pass list" where
  "passes_of vs = concat (map vi_passes vs)"

lemma passes_of_simps [simp]:
  "passes_of [] = []" "passes_of (v # vs) = vi_passes v @ passes_of vs" "passes_of (vs @ ws) = passes_of vs @ passes_of ws"
  by (simp_all add: passes_of_def)

lemma serve_one_fresh:
  assumes "switch_fresh present ttl prev (sv_executor sv)" "timed present prev (vi_passes v)"
  shows "switch_fresh present ttl (last_time prev (vi_passes v)) (sv_executor (snd (serve_one_connection v sv)))"
proof -
  obtain r sv' where one: "serve_one_connection v sv = (r, sv')" by fastforce
  show ?thesis
    using serve_connection_fresh [OF assms, of "vi_rxs v"] switch_fresh_later [OF assms(1) timed_last [OF assms(2)]] one
    by (cases rule: serve_one_cases [OF one]) simp_all
qed

lemma serve_one_obeys:
  assumes there: "\<And>t. since \<le> t \<Longrightarrow> present t = Some True"
    and "switch_fresh present ttl prev (sv_executor sv)" "timed present prev (past @ late)" "\<forall>ps \<in> set late. must_obey ttl since ps"
    and "vi_passes v = past @ late"
  shows "\<exists>new. ex_effects (sv_executor (snd (serve_one_connection v sv))) =
    ex_effects (sv_executor (snd (serve_one_connection (v\<lparr>vi_passes := past\<rparr>) sv))) @ new \<and> shadow_only new"
proof -
  have e: "sv_executor (snd (serve_one_connection u sv)) =
      (if ((sv_stopping sv \<or> vi_stopping u) \<or> sv_listen_fd sv < 0) \<or> await_peer (vi_polls u) \<noteq> Some True then sv_executor sv
       else case vi_accept u of Accept_fault eintr stopping \<Rightarrow> sv_executor sv
         | Accepted_fd fd \<Rightarrow> snd (serve_connection (vi_passes u) (vi_rxs u) (sv_executor sv)))" for u
    by (auto simp: serve_one_connection_def Let_def split: option.splits bool.splits accept_answer.splits prod.splits)
  have "\<exists>new. effs = effs @ new \<and> shadow_only new" for effs :: "effect list" by (intro exI [of _ "[]"]) simp
  then show ?thesis
    using serve_connection_obeys_after [OF assms(1-4), of "vi_rxs v"] assms(5) by (simp add: e split: accept_answer.split)
qed

lemma serve_forever_obeys:
  assumes there: "\<And>t. since \<le> t \<Longrightarrow> present t = Some True"
  shows "switch_fresh present ttl prev (sv_executor sv) \<Longrightarrow> timed present prev (passes_of vs) \<Longrightarrow>
    \<forall>ps \<in> set (passes_of vs). must_obey ttl since ps \<Longrightarrow>
    \<exists>new. ex_effects (sv_executor (snd (serve_forever vs sv))) = ex_effects (sv_executor sv) @ new \<and> shadow_only new"
proof (induction vs arbitrary: prev sv)
  case (Cons v vs)
  have p: "timed present prev ([] @ vi_passes v)" "timed present (last_time prev (vi_passes v)) (passes_of vs)"
      "\<forall>ps \<in> set (vi_passes v). must_obey ttl since ps" "\<forall>ps \<in> set (passes_of vs). must_obey ttl since ps"
    using Cons.prems(2,3) by auto
  obtain r sv1 where one: "serve_one_connection v sv = (r, sv1)" by fastforce
  have "snd (serve_connection [] rxs ex) = ex" for rxs ex by simp
  then have "sv_executor (snd (serve_one_connection (v\<lparr>vi_passes := []\<rparr>) sv)) = sv_executor sv"
    by (auto simp: serve_one_connection_def Let_def split: option.split bool.split accept_answer.split prod.split)
  with serve_one_obeys [OF there Cons.prems(1) p(1,3), where v = v] one
  have first: "\<exists>new. ex_effects (sv_executor sv1) = ex_effects (sv_executor sv) @ new \<and> shadow_only new" by simp
  have "switch_fresh present ttl (last_time prev (vi_passes v)) (sv_executor sv1)"
    using serve_one_fresh [OF Cons.prems(1), of v] p(1) one by simp
  from Cons.IH [OF this p(2,4)] first
  have "\<exists>new. ex_effects (sv_executor (snd (serve_forever vs sv1))) = ex_effects (sv_executor sv) @ new \<and> shadow_only new" by fastforce
  with first one show ?case by (auto split: option.split bool.split)
qed (auto intro: exI [of _ "[]"])

lemma serve_forever_obeys_after:
  assumes there: "\<And>t. since \<le> t \<Longrightarrow> present t = Some True"
    and v: "vi_passes v = past @ later" "\<forall>ps \<in> set (later @ passes_of late). must_obey ttl since ps"
  shows "switch_fresh present ttl prev (sv_executor sv) \<Longrightarrow> timed present prev (passes_of (early @ v # late)) \<Longrightarrow>
    \<exists>new. ex_effects (sv_executor (snd (serve_forever (early @ v # late) sv))) =
      ex_effects (sv_executor (snd (serve_forever (early @ [v\<lparr>vi_passes := past\<rparr>]) sv))) @ new \<and> shadow_only new"
proof (induction early arbitrary: prev sv)
  case Nil
  obtain r sv1 where one: "serve_one_connection v sv = (r, sv1)" by fastforce
  obtain r2 sv2 where two: "serve_one_connection (v\<lparr>vi_passes := past\<rparr>) sv = (r2, sv2)" by fastforce
  have p: "timed present prev (past @ later)" "timed present prev (vi_passes v)" "timed present (last_time prev (vi_passes v)) (passes_of late)"
    using Nil.prems(2) v(1) by simp_all
  have a: "\<exists>new. ex_effects (sv_executor sv1) = ex_effects (sv_executor sv2) @ new \<and> shadow_only new"
    using serve_one_obeys [OF there Nil.prems(1) p(1) _ v(1)] v(2) one two by simp
  have "switch_fresh present ttl (last_time prev (vi_passes v)) (sv_executor sv1)"
    using serve_one_fresh [OF Nil.prems(1) p(2)] one by simp
  from serve_forever_obeys [OF there this p(3)] v(2) a
  have "\<exists>new. ex_effects (sv_executor (snd (serve_forever late sv1))) = ex_effects (sv_executor sv2) @ new \<and> shadow_only new" by fastforce
  with a one two show ?case by (auto split: option.split bool.split)
next
  case (Cons u early)
  obtain r sv1 where one: "serve_one_connection u sv = (r, sv1)" by fastforce
  have p: "timed present prev (vi_passes u)" "timed present (last_time prev (vi_passes u)) (passes_of (early @ v # late))"
    using Cons.prems(2) by simp_all
  have "switch_fresh present ttl (last_time prev (vi_passes u)) (sv_executor sv1)"
    using serve_one_fresh [OF Cons.prems(1) p(1)] one by simp
  note more = Cons.IH [OF this p(2)]
  have stay: "\<exists>new. effs = effs @ new \<and> shadow_only new" for effs :: "effect list" by (intro exI [of _ "[]"]) simp
  show ?case using more stay one by (auto split: option.split bool.split)
qed

section \<open>Properties\<close>

text \<open>
  C5: the kill switch stops live trading within its time to live, whatever the peer sends and
  however the service goes on. Take a service with a switch of time to live \<open>ttl\<close>, its passes in
  the order of their clock readings, and a moment \<open>since\<close> from which the file is there. Cut the run
  anywhere, in the middle of a connection or between two, such that every later pass is at
  \<open>since + ttl\<close> or after: all that the service does behind the cut, over the rest of that
  connection and every later one, dispatches only shadow orders.
\<close>

theorem halt_respected:
  assumes "sv_executor sv = ExecutorServer dispatch recv (Some (KillSwitch ttl))"
    and "timed present 0 (passes_of (early @ v # late))"
    and "vi_passes v = past @ later"
    and "\<forall>ps \<in> set (later @ passes_of late). must_obey ttl since ps"
    and there: "\<And>t. since \<le> t \<Longrightarrow> present t = Some True"
  shows "\<exists>new. ex_effects (sv_executor (snd (serve_forever (early @ v # late) sv))) =
      ex_effects (sv_executor (snd (serve_forever (early @ [v\<lparr>vi_passes := past\<rparr>]) sv))) @ new \<and>
    (\<forall>fr. Dispatch fr \<in> set new \<longrightarrow> fr_dry_run fr)"
proof -
  have "switch_fresh present ttl 0 (sv_executor sv)"
    by (simp add: assms(1) switch_fresh_def ExecutorServer_def) (simp add: KillSwitch_def)
  from serve_forever_obeys_after [OF there assms(3,4) this assms(2)] show ?thesis by (simp add: shadow_only_def)
qed

text \<open>
  Two wakes of real orders over one connection, the file appearing between them: the second is past the time to
  live of the answer the first got.
\<close>

definition halted_pass :: pass where
  "halted_pass = sample_pass\<lparr>ps_now_ns := 4000, ps_exists := Some True\<rparr>"

definition halted_visit :: visit where
  "halted_visit = sample_visit\<lparr>vi_passes := [sample_pass, halted_pass, halted_pass],
     vi_rxs := [Chunk (encode_frame_message real_wake), Chunk (encode_frame_message real_wake)] @ close_mark True\<rparr>"

definition armed_server :: server where
  "armed_server = (new_server (ExecutorServer True True (Some (KillSwitch 1000))))\<lparr>sv_listen_fd := 5\<rparr>"

theorem halt_respected_witness:
  "\<exists>new. ex_effects (sv_executor (snd (serve_forever [halted_visit] armed_server))) =
      ex_effects (sv_executor (snd (serve_forever [halted_visit\<lparr>vi_passes := [sample_pass]\<rparr>] armed_server))) @ new \<and>
    (\<forall>fr. Dispatch fr \<in> set new \<longrightarrow> fr_dry_run fr)"
  using halt_respected [of armed_server True True 1000 "\<lambda>t. Some (2500 \<le> t)" "[]" halted_visit "[]" "[sample_pass]"
      "[halted_pass, halted_pass]" 2500]
  by (simp add: armed_server_def halted_visit_def halted_pass_def sample_pass_def must_obey_def del: serve_forever.simps)

end
