(* ===== verification/Telemetry.thy ===== *)
theory Telemetry
  imports Spsc_Ring Charconv "HOL-Library.Sublist"
begin

text \<open>
  The telemetry sink of \<open>src/telemetry.cpp\<close>: recording copies a row into the ring and returns;
  one writer thread drains the ring in batches and appends them to a SQLite database. SQLite and
  the wall clock are arguments: a record of the calls the code makes, on a state \<open>'w\<close> that is
  theirs. The two threads meet in a step relation that interleaves a record with the writer's
  pops, with the stale index loads of the ring.
\<close>

section \<open>Data\<close>

datatype LatencyStage =
    DetectFire | IngestFetch | Decision | WakeSend | WakeRecv | OrderBuild | Sign | DispatchSend
  | DispatchAck | TelemetryWrite

fun stage_name :: "LatencyStage \<Rightarrow> string" where
  "stage_name DetectFire = ''detect_fire''"
| "stage_name IngestFetch = ''ingest_fetch''"
| "stage_name Decision = ''decision''"
| "stage_name WakeSend = ''wake_send''"
| "stage_name WakeRecv = ''wake_recv''"
| "stage_name OrderBuild = ''order_build''"
| "stage_name Sign = ''sign''"
| "stage_name DispatchSend = ''dispatch_send''"
| "stage_name DispatchAck = ''dispatch_ack''"
| "stage_name TelemetryWrite = ''telemetry_write''"

record LatencyEvent =
  le_correlation_id :: string
  le_stage :: LatencyStage
  le_started_at_ms :: int64
  le_ended_at_ms :: int64
  le_duration_ms :: double
  le_dry_run :: bool

record TelemetryStats =
  rows_written :: uint64
  rows_dropped_ring_full :: uint64
  rows_dropped_oversized_id :: uint64
  rows_dropped_write_failed :: uint64
  queue_depth :: uint64

definition kMaxCorrelationIdBytes :: nat where
  "kMaxCorrelationIdBytes = 128"

definition kDefaultCapacity :: nat where
  "kDefaultCapacity = 8192"

definition kMaxBatchRows :: nat where
  "kMaxBatchRows = 500"

text \<open>A row of the ring: the id is copied into a fixed array, with its length in one byte.\<close>

record Row =
  row_started_at_ms :: int64
  row_ended_at_ms :: int64
  row_duration_ms :: double
  row_correlation_id_len :: byte
  row_stage :: LatencyStage
  row_dry_run :: bool
  row_correlation_id :: "char list"

definition zero_row :: Row where
  "zero_row = \<lparr>row_started_at_ms = 0, row_ended_at_ms = 0, row_duration_ms = of_index False 0, row_correlation_id_len = 0,
     row_stage = DetectFire, row_dry_run = False, row_correlation_id = replicate kMaxCorrelationIdBytes CHR 0x00\<rparr>"

definition copy_into :: "char list \<Rightarrow> string \<Rightarrow> char list" where
  "copy_into dest src = src @ drop (length src) dest"

definition row_of :: "LatencyEvent \<Rightarrow> Row" where
  "row_of event =
     zero_row\<lparr>row_started_at_ms := le_started_at_ms event, row_ended_at_ms := le_ended_at_ms event,
       row_duration_ms := le_duration_ms event,
       row_correlation_id_len := word_of_nat (length (le_correlation_id event)),
       row_stage := le_stage event, row_dry_run := le_dry_run event,
       row_correlation_id := copy_into (row_correlation_id zero_row) (le_correlation_id event)\<rparr>"

definition row_id :: "Row \<Rightarrow> string" where
  "row_id row = take (unat (row_correlation_id_len row)) (row_correlation_id row)"

section \<open>SQLite\<close>

text \<open>
  The statements the code prepares, by the variables that hold them. What a call does with a
  handle that is null, or with a path whose directory is missing, is the library's.
\<close>

datatype statement = Table_select | Correlation_insert | Event_insert

record 'w sqlite =
  sq_exec :: "string \<Rightarrow> 'w \<Rightarrow> bool \<times> 'w"
  sq_reset :: "statement \<Rightarrow> 'w \<Rightarrow> 'w"
  sq_bind_text :: "statement \<Rightarrow> nat \<Rightarrow> string \<Rightarrow> 'w \<Rightarrow> bool \<times> 'w"
  sq_bind_int64 :: "statement \<Rightarrow> nat \<Rightarrow> int64 \<Rightarrow> 'w \<Rightarrow> bool \<times> 'w"
  sq_bind_double :: "statement \<Rightarrow> nat \<Rightarrow> double \<Rightarrow> 'w \<Rightarrow> bool \<times> 'w"
  sq_step_done :: "statement \<Rightarrow> 'w \<Rightarrow> bool \<times> 'w"
  sq_wall_clock_ms :: "'w \<Rightarrow> int64 \<times> 'w"
  sq_open :: "'w \<Rightarrow> bool \<times> 'w"
  sq_step_row :: "statement \<Rightarrow> 'w \<Rightarrow> bool \<times> 'w"
  sq_finalize :: "statement \<Rightarrow> 'w \<Rightarrow> 'w"
  sq_close :: "'w \<Rightarrow> 'w"
  sq_busy_timeout :: "nat \<Rightarrow> 'w \<Rightarrow> bool \<times> 'w"
  sq_prepare :: "statement \<Rightarrow> string \<Rightarrow> 'w \<Rightarrow> bool \<times> 'w"
  sq_errmsg :: "'w \<Rightarrow> string"

text \<open>Calls joined by \<open>&&\<close>: the first that fails ends the chain.\<close>

fun all_ok :: "('w \<Rightarrow> bool \<times> 'w) list \<Rightarrow> 'w \<Rightarrow> bool \<times> 'w" where
  "all_ok [] w = (True, w)"
| "all_ok (call # calls) w = (case call w of (True, w1) \<Rightarrow> all_ok calls w1 | (False, w1) \<Rightarrow> (False, w1))"

definition kDryRunMetadata :: "bool \<Rightarrow> string" where
  "kDryRunMetadata dry =
     (if dry then CHR 0x7B # CHR 0x22 # ''dry_run'' @ [CHR 0x22] @ '': true}''
      else CHR 0x7B # CHR 0x22 # ''dry_run'' @ [CHR 0x22] @ '': false}'')"

definition insert_row :: "'w sqlite \<Rightarrow> Row \<Rightarrow> 'w \<Rightarrow> bool \<times> 'w" where
  "insert_row sq row w =
     (let w = sq_reset sq Correlation_insert w
      in case all_ok [sq_bind_text sq Correlation_insert 1 (row_id row),
                      (\<lambda>w. let (now, w) = sq_wall_clock_ms sq w in sq_bind_int64 sq Correlation_insert 2 now w),
                      sq_step_done sq Correlation_insert] w of
           (False, w) \<Rightarrow> (False, w)
         | (True, w) \<Rightarrow>
             all_ok [sq_bind_text sq Event_insert 1 (row_id row),
                     sq_bind_text sq Event_insert 2 (stage_name (row_stage row)),
                     sq_bind_int64 sq Event_insert 3 (row_started_at_ms row),
                     sq_bind_int64 sq Event_insert 4 (row_ended_at_ms row),
                     sq_bind_double sq Event_insert 5 (row_duration_ms row),
                     sq_bind_text sq Event_insert 6 (kDryRunMetadata (row_dry_run row)),
                     sq_step_done sq Event_insert] (sq_reset sq Event_insert w))"

section \<open>The sink\<close>

record 'w sink =
  sk_ring :: "Row ring"
  sk_world :: 'w
  sk_db :: bool
  sk_stopping :: bool
  sk_rows_written :: uint64
  sk_dropped_ring_full :: uint64
  sk_dropped_oversized_id :: uint64
  sk_dropped_write_failed :: uint64

definition TelemetrySink :: "nat \<Rightarrow> 'w \<Rightarrow> 'w sink" where
  "TelemetrySink capacity w =
     \<lparr>sk_ring = SpscRing zero_row capacity, sk_world = w, sk_db = False, sk_stopping = False, sk_rows_written = 0,
      sk_dropped_ring_full = 0, sk_dropped_oversized_id = 0, sk_dropped_write_failed = 0\<rparr>"

definition record_event :: "uint64 \<Rightarrow> LatencyEvent \<Rightarrow> 'w sink \<Rightarrow> bool \<times> 'w sink" where
  "record_event seen event sk =
     (if length (le_correlation_id event) > kMaxCorrelationIdBytes
      then (False, sk\<lparr>sk_dropped_oversized_id := sk_dropped_oversized_id sk + 1\<rparr>)
      else let (pushed, ring) = try_push seen (row_of event) (sk_ring sk);
               sk = sk\<lparr>sk_ring := ring\<rparr>
           in if \<not> pushed then (False, sk\<lparr>sk_dropped_ring_full := sk_dropped_ring_full sk + 1\<rparr>)
              else (True, sk))"

definition stats :: "'w sink \<Rightarrow> TelemetryStats" where
  "stats sk = \<lparr>rows_written = sk_rows_written sk, rows_dropped_ring_full = sk_dropped_ring_full sk,
     rows_dropped_oversized_id = sk_dropped_oversized_id sk, rows_dropped_write_failed = sk_dropped_write_failed sk,
     queue_depth = ring_size (sk_ring sk)\<rparr>"

fun insert_all :: "'w sqlite \<Rightarrow> Row list \<Rightarrow> 'w \<Rightarrow> bool \<times> 'w" where
  "insert_all sq [] w = (True, w)"
| "insert_all sq (row # rows) w =
     (case insert_row sq row w of (False, w1) \<Rightarrow> (False, w1) | (True, w1) \<Rightarrow> insert_all sq rows w1)"

definition try_batch :: "'w sqlite \<Rightarrow> Row list \<Rightarrow> 'w \<Rightarrow> bool \<times> 'w" where
  "try_batch sq batch w =
     (case sq_exec sq ''BEGIN'' w of
        (False, w) \<Rightarrow> (False, w)
      | (True, w) \<Rightarrow>
          (let (all_inserted, w) = insert_all sq batch w;
               (committed, w) = (if all_inserted then sq_exec sq ''COMMIT'' w else (False, w))
           in if committed then (True, w) else (False, snd (sq_exec sq ''ROLLBACK'' w))))"

definition retry_row :: "'w sqlite \<Rightarrow> Row \<Rightarrow> 'w sink \<Rightarrow> 'w sink" where
  "retry_row sq row sk =
     (case all_ok [sq_exec sq ''BEGIN'', insert_row sq row, sq_exec sq ''COMMIT''] (sk_world sk) of
        (True, w) \<Rightarrow> sk\<lparr>sk_world := w, sk_rows_written := sk_rows_written sk + 1\<rparr>
      | (False, w) \<Rightarrow> sk\<lparr>sk_world := snd (sq_exec sq ''ROLLBACK'' w),
                        sk_dropped_write_failed := sk_dropped_write_failed sk + 1\<rparr>)"

definition write_batch :: "'w sqlite \<Rightarrow> Row list \<Rightarrow> 'w sink \<Rightarrow> 'w sink" where
  "write_batch sq batch sk =
     (let (committed, w) = try_batch sq batch (sk_world sk); sk = sk\<lparr>sk_world := w\<rparr>
      in if committed then sk\<lparr>sk_rows_written := sk_rows_written sk + word_of_nat (length batch)\<rparr>
         else fold (retry_row sq) batch sk)"

section \<open>Opening and closing\<close>

definition sqlite_failure :: "'w sqlite \<Rightarrow> 'w \<Rightarrow> string \<Rightarrow> string" where
  "sqlite_failure sq w what = what @ '': '' @ sq_errmsg sq w"

definition quoted :: "string \<Rightarrow> string" where
  "quoted name = [CHR 0x27] @ name @ [CHR 0x27]"

definition has_latency_events :: "'w sqlite \<Rightarrow> 'w \<Rightarrow> bool \<times> 'w" where
  "has_latency_events sq w =
     (case sq_prepare sq Table_select
         (''SELECT 1 FROM sqlite_master WHERE type = '' @ quoted ''table'' @ '' AND name = '' @ quoted ''latency_events'') w of
        (False, w) \<Rightarrow> (False, w)
      | (True, w) \<Rightarrow> (let (found, w) = sq_step_row sq Table_select w in (found, sq_finalize sq Table_select w)))"

text \<open>The destructor of the connection.\<close>

definition destroy_db :: "'w sqlite \<Rightarrow> 'w \<Rightarrow> 'w" where
  "destroy_db sq w = sq_close sq (sq_finalize sq Event_insert (sq_finalize sq Correlation_insert w))"

definition kTelemetrySchemaVersion :: nat where
  "kTelemetrySchemaVersion = 6"

definition kBusyTimeoutMs :: nat where
  "kBusyTimeoutMs = 5000"

definition correlation_insert_sql :: string where
  "correlation_insert_sql = ''INSERT OR IGNORE INTO correlations (correlation_id, created_at_ms) '' @ ''VALUES (?, ?)''"

definition event_insert_sql :: string where
  "event_insert_sql = ''INSERT INTO latency_events (correlation_id, stage, started_at_ms, '' @
     ''ended_at_ms, duration_ms, metadata_json) VALUES (?, ?, ?, ?, ?, ?)''"

text \<open>The schema: a line break first, then these lines, each with its own.\<close>

definition kSchemaSql :: string where
  "kSchemaSql = CHR 0x0A # concat (map (\<lambda>line. line @ [CHR 0x0A])
     [''CREATE TABLE IF NOT EXISTS correlations ('',
      ''    correlation_id  TEXT    PRIMARY KEY,'',
      ''    created_at_ms   INTEGER NOT NULL'',
      '');'',
      [],
      ''CREATE TABLE IF NOT EXISTS latency_events ('',
      ''    id              INTEGER PRIMARY KEY AUTOINCREMENT,'',
      ''    correlation_id  TEXT    NOT NULL REFERENCES correlations (correlation_id),'',
      ''    stage           TEXT    NOT NULL,'',
      ''    started_at_ms   INTEGER NOT NULL,'',
      ''    ended_at_ms     INTEGER NOT NULL,'',
      ''    duration_ms     REAL    NOT NULL,'',
      ''    metadata_json   TEXT,'',
      ''    created_at_ms   INTEGER NOT NULL DEFAULT (CAST(strftime('' @ [CHR 0x27] @ ''%s'' @ [CHR 0x27] @ '', '' @ [CHR 0x27] @ ''now'' @ [CHR 0x27] @ '') AS INTEGER) * 1000)'',
      '');'',
      [],
      ''CREATE INDEX IF NOT EXISTS idx_latency_events_stage ON latency_events (stage);'',
      ''CREATE INDEX IF NOT EXISTS idx_latency_events_correlation_id ON latency_events (correlation_id);'',
      ''CREATE INDEX IF NOT EXISTS idx_latency_events_started_at ON latency_events (started_at_ms);''])"

text \<open>Calls in turn, the first that fails named with SQLite's message.\<close>

fun first_failure :: "'w sqlite \<Rightarrow> (string \<times> ('w \<Rightarrow> bool \<times> 'w)) list \<Rightarrow> 'w \<Rightarrow> string option \<times> 'w" where
  "first_failure sq [] w = (None, w)"
| "first_failure sq ((what, call) # calls) w =
     (case call w of
        (True, w1) \<Rightarrow> first_failure sq calls w1
      | (False, w1) \<Rightarrow> (Some (sqlite_failure sq w1 what), w1))"

text \<open>The calls of \<open>open\<close> behind the look at the tables.\<close>

definition open_calls :: "'w sqlite \<Rightarrow> bool \<Rightarrow> (string \<times> ('w \<Rightarrow> bool \<times> 'w)) list" where
  "open_calls sq preexisting =
     [(''PRAGMA journal_mode'', sq_exec sq ''PRAGMA journal_mode = WAL''),
      (''PRAGMA foreign_keys'', sq_exec sq ''PRAGMA foreign_keys = ON''),
      (''PRAGMA synchronous'', sq_exec sq ''PRAGMA synchronous = NORMAL''),
      (''sqlite3_busy_timeout'', sq_busy_timeout sq kBusyTimeoutMs),
      (''schema'', sq_exec sq kSchemaSql)] @
     (if preexisting then []
      else [(''PRAGMA user_version'', sq_exec sq (''PRAGMA user_version = '' @ nat_digits kTelemetrySchemaVersion))]) @
     [(''prepare correlations insert'', sq_prepare sq Correlation_insert correlation_insert_sql),
      (''prepare latency_events insert'', sq_prepare sq Event_insert event_insert_sql)]"

text \<open>An early return of \<open>open\<close> destroys the connection it was building.\<close>

definition open_sink :: "'w sqlite \<Rightarrow> bool \<Rightarrow> 'w sink \<Rightarrow> string option \<times> 'w sink" where
  "open_sink sq joinable sk =
     (if joinable then (None, sk)
      else
        case sq_open sq (sk_world sk) of
          (False, w) \<Rightarrow> (Some (sqlite_failure sq w ''sqlite3_open''), sk\<lparr>sk_world := destroy_db sq w\<rparr>)
        | (True, w) \<Rightarrow>
            (let (preexisting, w) = has_latency_events sq w
             in case first_failure sq (open_calls sq preexisting) w of
                  (Some e, w) \<Rightarrow> (Some e, sk\<lparr>sk_world := destroy_db sq w\<rparr>)
                | (None, w) \<Rightarrow> (None, sk\<lparr>sk_world := w, sk_db := True, sk_stopping := False\<rparr>)))"

text \<open>\<open>close\<close> up to the join of the writer, and what it does behind it.\<close>

definition close_sink :: "bool \<Rightarrow> 'w sink \<Rightarrow> 'w sink" where
  "close_sink joinable sk = (if joinable then sk\<lparr>sk_stopping := True\<rparr> else sk)"

definition reset_db :: "'w sqlite \<Rightarrow> 'w sink \<Rightarrow> 'w sink" where
  "reset_db sq sk = (if sk_db sk then sk\<lparr>sk_world := destroy_db sq (sk_world sk), sk_db := False\<rparr> else sk)"

section \<open>The two threads\<close>

text \<open>
  The writer is at the top of its loop, draining (with what the flag said and the batch so far)
  or has returned. \<open>tl_accepted\<close>, \<open>tl_taken\<close> and \<open>tl_calls\<close> only observe: the rows pushed, the
  rows handed to \<open>write_batch\<close> and the number of records. The flag's load may be stale; when
  it does return true, the release that set it makes every earlier push visible, so the pops of
  that pass load the producer's index as it is. The producer is the thread that closes the sink,
  so nothing is recorded after the flag is set.
\<close>

datatype writer_pc = Writer_top | Writer_drain bool "Row list" | Writer_returned

record 'w tel =
  tl_sink :: "'w sink"
  tl_writer :: writer_pc
  tl_accepted :: "Row list"
  tl_taken :: "Row list"
  tl_calls :: nat

definition end_pass :: "'w sqlite \<Rightarrow> bool \<Rightarrow> Row list \<Rightarrow> 'w tel \<Rightarrow> 'w tel" where
  "end_pass sq draining batch s =
     (if batch = [] then s\<lparr>tl_writer := if draining then Writer_returned else Writer_top\<rparr>
      else s\<lparr>tl_writer := Writer_top, tl_sink := write_batch sq batch (tl_sink s), tl_taken := tl_taken s @ batch\<rparr>)"

inductive sink_step :: "'w sqlite \<Rightarrow> 'w tel \<Rightarrow> 'w tel \<Rightarrow> bool" for sq where
  step_record:
    "\<not> sk_stopping (tl_sink s) \<Longrightarrow>
     may_see (rg_tail_cache (sk_ring (tl_sink s))) (rg_tail (sk_ring (tl_sink s))) seen \<Longrightarrow>
     record_event seen event (tl_sink s) = (ok, sk) \<Longrightarrow>
       sink_step sq s (s\<lparr>tl_sink := sk, tl_calls := Suc (tl_calls s),
         tl_accepted := if ok then tl_accepted s @ [row_of event] else tl_accepted s\<rparr>)"
| step_close: "sink_step sq s (s\<lparr>tl_sink := close_sink True (tl_sink s)\<rparr>)"
| step_top:
    "tl_writer s = Writer_top \<Longrightarrow> (draining \<longrightarrow> sk_stopping (tl_sink s)) \<Longrightarrow>
       sink_step sq s (s\<lparr>tl_writer := Writer_drain draining []\<rparr>)"
| step_pop:
    "tl_writer s = Writer_drain draining batch \<Longrightarrow> length batch < kMaxBatchRows \<Longrightarrow>
     may_see (rg_head_cache (sk_ring (tl_sink s))) (rg_head (sk_ring (tl_sink s))) seen \<Longrightarrow>
     try_pop seen (sk_ring (tl_sink s)) = (Some row, ring) \<Longrightarrow>
       sink_step sq s (s\<lparr>tl_sink := (tl_sink s)\<lparr>sk_ring := ring\<rparr>, tl_writer := Writer_drain draining (batch @ [row])\<rparr>)"
| step_empty:
    "tl_writer s = Writer_drain draining batch \<Longrightarrow> length batch < kMaxBatchRows \<Longrightarrow>
     may_see (rg_head_cache (sk_ring (tl_sink s))) (rg_head (sk_ring (tl_sink s))) seen \<Longrightarrow>
     (draining \<longrightarrow> seen = rg_head (sk_ring (tl_sink s))) \<Longrightarrow>
     try_pop seen (sk_ring (tl_sink s)) = (None, ring) \<Longrightarrow>
       sink_step sq s (end_pass sq draining batch (s\<lparr>tl_sink := (tl_sink s)\<lparr>sk_ring := ring\<rparr>\<rparr>))"
| step_full:
    "tl_writer s = Writer_drain draining batch \<Longrightarrow> length batch = kMaxBatchRows \<Longrightarrow>
       sink_step sq s (end_pass sq draining batch s)"
| step_joined: "tl_writer s = Writer_returned \<Longrightarrow> sink_step sq s (s\<lparr>tl_sink := reset_db sq (tl_sink s)\<rparr>)"

definition tel_init :: "nat \<Rightarrow> 'w \<Rightarrow> 'w tel" where
  "tel_init capacity w =
     \<lparr>tl_sink = (TelemetrySink capacity w)\<lparr>sk_db := True\<rparr>, tl_writer = Writer_top, tl_accepted = [], tl_taken = [], tl_calls = 0\<rparr>"

definition tel_reachable :: "'w sqlite \<Rightarrow> nat \<Rightarrow> 'w \<Rightarrow> 'w tel \<Rightarrow> bool" where
  "tel_reachable sq capacity w s \<longleftrightarrow> (sink_step sq)\<^sup>*\<^sup>* (tel_init capacity w) s"

section \<open>Accounting\<close>

lemma retry_row_fields [simp]:
  "sk_ring (retry_row sq row sk) = sk_ring sk" "sk_stopping (retry_row sq row sk) = sk_stopping sk"
  "sk_dropped_ring_full (retry_row sq row sk) = sk_dropped_ring_full sk"
  "sk_dropped_oversized_id (retry_row sq row sk) = sk_dropped_oversized_id sk"
  "sk_rows_written (retry_row sq row sk) + sk_dropped_write_failed (retry_row sq row sk) =
     sk_rows_written sk + sk_dropped_write_failed sk + 1"
  by (simp_all add: retry_row_def split: prod.splits bool.splits)

lemma retry_rows_fields [simp]:
  "sk_ring (fold (retry_row sq) batch sk) = sk_ring sk"
  "sk_stopping (fold (retry_row sq) batch sk) = sk_stopping sk"
  "sk_dropped_ring_full (fold (retry_row sq) batch sk) = sk_dropped_ring_full sk"
  "sk_dropped_oversized_id (fold (retry_row sq) batch sk) = sk_dropped_oversized_id sk"
  by (induction batch arbitrary: sk) simp_all

lemma retry_rows_count:
  "sk_rows_written (fold (retry_row sq) batch sk) + sk_dropped_write_failed (fold (retry_row sq) batch sk) =
     sk_rows_written sk + sk_dropped_write_failed sk + word_of_nat (length batch)"
  by (induction batch arbitrary: sk) (simp_all add: add.assoc)

lemma write_batch_fields [simp]:
  "sk_ring (write_batch sq batch sk) = sk_ring sk"
  "sk_stopping (write_batch sq batch sk) = sk_stopping sk"
  "sk_dropped_ring_full (write_batch sq batch sk) = sk_dropped_ring_full sk"
  "sk_dropped_oversized_id (write_batch sq batch sk) = sk_dropped_oversized_id sk"
  by (simp_all add: write_batch_def Let_def split: prod.splits)

lemma write_batch_count [simp]:
  "sk_rows_written (write_batch sq batch sk) + sk_dropped_write_failed (write_batch sq batch sk) =
     sk_rows_written sk + sk_dropped_write_failed sk + word_of_nat (length batch)"
proof (cases "try_batch sq batch (sk_world sk)")
  case (Pair committed w)
  then show ?thesis
    by (cases committed) (simp_all add: write_batch_def retry_rows_count add.assoc add.commute [of "word_of_nat (length batch)"])
qed

fun batch_of :: "writer_pc \<Rightarrow> Row list" where
  "batch_of (Writer_drain draining batch) = batch"
| "batch_of pc = []"

definition tel_inv :: "'w tel \<Rightarrow> bool" where
  "tel_inv s \<longleftrightarrow>
     ring_ok (sk_ring (tl_sink s)) \<and>
     tl_accepted s = tl_taken s @ batch_of (tl_writer s) @ contents (sk_ring (tl_sink s)) \<and>
     sk_rows_written (tl_sink s) + sk_dropped_write_failed (tl_sink s) = word_of_nat (length (tl_taken s)) \<and>
     word_of_nat (length (tl_accepted s)) + sk_dropped_ring_full (tl_sink s) + sk_dropped_oversized_id (tl_sink s) =
       (word_of_nat (tl_calls s) :: uint64) \<and>
     (tl_writer s = Writer_returned \<or> (\<exists>batch. tl_writer s = Writer_drain True batch) \<longrightarrow> sk_stopping (tl_sink s)) \<and>
     (tl_writer s = Writer_returned \<longrightarrow> contents (sk_ring (tl_sink s)) = [])"

lemma tel_inv_init: "capacity \<le> 2 ^ 63 \<Longrightarrow> tel_inv (tel_init capacity w)"
  using ring_ok_init [of capacity zero_row] by (simp add: tel_inv_def tel_init_def TelemetrySink_def)

lemma tel_inv_record:
  assumes "tel_inv s" "\<not> sk_stopping (tl_sink s)"
    and "may_see (rg_tail_cache (sk_ring (tl_sink s))) (rg_tail (sk_ring (tl_sink s))) seen"
    and "record_event seen event (tl_sink s) = (ok, sk)"
  shows "tel_inv (s\<lparr>tl_sink := sk, tl_calls := Suc (tl_calls s),
     tl_accepted := if ok then tl_accepted s @ [row_of event] else tl_accepted s\<rparr>)"
proof -
  obtain pushed ring where p: "try_push seen (row_of event) (sk_ring (tl_sink s)) = (pushed, ring)" by fastforce
  have r: "ring_ok ring" "contents ring = (if pushed then contents (sk_ring (tl_sink s)) @ [row_of event] else contents (sk_ring (tl_sink s)))"
    using try_push_spec [OF _ assms(3) p] assms(1) by (simp_all add: tel_inv_def)
  show ?thesis
    using assms(1,2,4) p r
    by (cases pushed) (auto simp: tel_inv_def record_event_def Let_def algebra_simps split: if_splits)
qed

lemma tel_inv_pop:
  assumes "tel_inv s" "tl_writer s = Writer_drain draining batch"
    and "may_see (rg_head_cache (sk_ring (tl_sink s))) (rg_head (sk_ring (tl_sink s))) seen"
    and "try_pop seen (sk_ring (tl_sink s)) = (Some row, ring)"
  shows "tel_inv (s\<lparr>tl_sink := (tl_sink s)\<lparr>sk_ring := ring\<rparr>, tl_writer := Writer_drain draining (batch @ [row])\<rparr>)"
  using try_pop_spec [OF _ assms(3,4)] assms(1,2) by (auto simp: tel_inv_def)

lemma tel_inv_end:
  assumes "tel_inv s" "tl_writer s = Writer_drain draining batch"
    and "draining \<Longrightarrow> batch = [] \<Longrightarrow> contents (sk_ring (tl_sink s)) = []"
  shows "tel_inv (end_pass sq draining batch s)"
  using assms by (auto simp: tel_inv_def end_pass_def)

lemma tel_inv_step: "sink_step sq s s' \<Longrightarrow> tel_inv s \<Longrightarrow> tel_inv s'"
proof (induction rule: sink_step.induct)
  case (step_record s seen event ok sk)
  then show ?case by (intro tel_inv_record)
next
  case (step_pop s draining batch seen row ring)
  then show ?case by (intro tel_inv_pop)
next
  case (step_empty s draining batch seen ring)
  have ok: "ring_ok (sk_ring (tl_sink s))" using step_empty.prems by (simp add: tel_inv_def)
  have r: "ring_ok ring" "contents ring = contents (sk_ring (tl_sink s))" "seen = rg_tail (sk_ring (tl_sink s))"
    using try_pop_spec [OF ok step_empty(3,5)] by simp_all
  have e: "contents (sk_ring (tl_sink s)) = []" if draining
  proof -
    have "occ (sk_ring (tl_sink s)) = 0" unfolding occ_0 using step_empty(4) that r(3) by simp
    then show ?thesis by (simp flip: length_0_conv)
  qed
  show ?case
    by (rule tel_inv_end) (use step_empty r e in \<open>auto simp: tel_inv_def\<close>)
next
  case (step_full s draining batch)
  then have "batch \<noteq> []" by (auto simp: kMaxBatchRows_def)
  with step_full show ?case by (intro tel_inv_end) auto
qed (auto simp: tel_inv_def close_sink_def reset_db_def simp del: length_contents)

lemma tel_reachable_inv:
  assumes "capacity \<le> 2 ^ 63" "tel_reachable sq capacity w s"
  shows "tel_inv s"
  using assms(2) unfolding tel_reachable_def
  by (induction rule: rtranclp_induct) (auto intro: tel_inv_init [OF assms(1)] tel_inv_step)

section \<open>Properties\<close>

text \<open>
  Whatever the interleaving of the recording thread and the writer and whatever SQLite
  answers, no row is lost silently: the rows accepted are, in order, those already handed to the
  database, those of the batch in hand and those in the ring; and every record call is accounted
  for by a row or by one of the two drop counters.
\<close>

lemma telemetry_accounting:
  assumes "capacity \<le> 2 ^ 63" "tel_reachable sq capacity w s"
  shows "tl_accepted s = tl_taken s @ batch_of (tl_writer s) @ contents (sk_ring (tl_sink s)) \<and>
     sk_rows_written (tl_sink s) + sk_dropped_write_failed (tl_sink s) = word_of_nat (length (tl_taken s)) \<and>
     word_of_nat (length (tl_accepted s)) + sk_dropped_ring_full (tl_sink s) + sk_dropped_oversized_id (tl_sink s) =
       (word_of_nat (tl_calls s) :: uint64)"
  using tel_reachable_inv [OF assms] unfolding tel_inv_def by blast

text \<open>A database that refuses everything is still a database, and the simplest one to run.\<close>

definition refusing :: "unit sqlite" where
  "refusing = \<lparr>sq_exec = (\<lambda>_ w. (False, w)), sq_reset = (\<lambda>_ w. w), sq_bind_text = (\<lambda>_ _ _ w. (False, w)),
     sq_bind_int64 = (\<lambda>_ _ _ w. (False, w)), sq_bind_double = (\<lambda>_ _ _ w. (False, w)), sq_step_done = (\<lambda>_ w. (False, w)),
     sq_wall_clock_ms = (\<lambda>w. (0, w)), sq_open = (\<lambda>w. (False, w)), sq_step_row = (\<lambda>_ w. (False, w)), sq_finalize = (\<lambda>_ w. w), sq_close = (\<lambda>w. w),
     sq_busy_timeout = (\<lambda>_ w. (False, w)), sq_prepare = (\<lambda>_ _ w. (False, w)), sq_errmsg = (\<lambda>_. [])\<rparr>"

definition long_event :: LatencyEvent where
  "long_event = \<lparr>le_correlation_id = replicate 129 CHR ''x'', le_stage = WakeRecv, le_started_at_ms = 0, le_ended_at_ms = 0,
     le_duration_ms = of_index False 0, le_dry_run = False\<rparr>"

definition one_dropped :: "unit tel" where
  "one_dropped = (tel_init 2 ())\<lparr>tl_sink := (tl_sink (tel_init 2 ()))\<lparr>sk_dropped_oversized_id := 1\<rparr>, tl_calls := 1\<rparr>"

lemma one_dropped_reachable: "tel_reachable refusing 2 () one_dropped"
proof -
  have r: "record_event 0 long_event (tl_sink (tel_init 2 ())) =
      (False, (tl_sink (tel_init 2 ()))\<lparr>sk_dropped_oversized_id := 1\<rparr>)"
    by (simp add: record_event_def long_event_def kMaxCorrelationIdBytes_def tel_init_def TelemetrySink_def)
  have "sink_step refusing (tel_init 2 ()) ((tel_init 2 ())\<lparr>tl_sink := (tl_sink (tel_init 2 ()))\<lparr>sk_dropped_oversized_id := 1\<rparr>,
      tl_calls := Suc (tl_calls (tel_init 2 ())),
      tl_accepted := if False then tl_accepted (tel_init 2 ()) @ [row_of long_event] else tl_accepted (tel_init 2 ())\<rparr>)"
    by (rule step_record [OF _ _ r]) (simp_all add: tel_init_def TelemetrySink_def SpscRing_def may_see_def Let_def)
  then show ?thesis by (simp add: tel_reachable_def one_dropped_def tel_init_def)
qed

lemma tel_drained:
  assumes "capacity \<le> 2 ^ 63" "tel_reachable sq capacity w s" "tl_writer s = Writer_returned"
  shows "tl_taken s = tl_accepted s \<and> queue_depth (stats (tl_sink s)) = 0 \<and>
     rows_written (stats (tl_sink s)) + rows_dropped_write_failed (stats (tl_sink s)) +
       rows_dropped_ring_full (stats (tl_sink s)) + rows_dropped_oversized_id (stats (tl_sink s)) = word_of_nat (tl_calls s)"
proof -
  note inv = tel_reachable_inv [OF assms(1,2)]
  then have e: "contents (sk_ring (tl_sink s)) = []" using assms(3) by (simp add: tel_inv_def)
  then have "occ (sk_ring (tl_sink s)) = 0" using length_contents [of "sk_ring (tl_sink s)"] by simp
  then have "ring_size (sk_ring (tl_sink s)) = 0" by (simp add: ring_size_def occ_0)
  moreover have a: "tl_taken s = tl_accepted s" using inv e assms(3) by (simp add: tel_inv_def)
  moreover have "sk_rows_written (tl_sink s) + sk_dropped_write_failed (tl_sink s) = word_of_nat (length (tl_accepted s))"
      "word_of_nat (length (tl_accepted s)) + sk_dropped_ring_full (tl_sink s) + sk_dropped_oversized_id (tl_sink s) =
       (word_of_nat (tl_calls s) :: uint64)"
    using inv unfolding a [symmetric] tel_inv_def by auto
  ultimately show ?thesis by (simp add: stats_def)
qed

text \<open>
  C10: closing the sink loses nothing: once the writer has returned the ring is empty, and the
  counters printed at shutdown add up to the number of records ever made.
\<close>

theorem close_drains:
  assumes "capacity \<le> 2 ^ 63" "tel_reachable sq capacity w s" "tl_writer s = Writer_returned"
  shows "tl_taken s = tl_accepted s \<and> queue_depth (stats (tl_sink s)) = 0 \<and>
     rows_written (stats (tl_sink s)) + rows_dropped_write_failed (stats (tl_sink s)) +
       rows_dropped_ring_full (stats (tl_sink s)) + rows_dropped_oversized_id (stats (tl_sink s)) = word_of_nat (tl_calls s)"
  by (rule tel_drained [OF assms])

definition drained :: "unit tel" where
  "drained = one_dropped\<lparr>tl_writer := Writer_returned, tl_sink := (tl_sink one_dropped)\<lparr>sk_stopping := True\<rparr>\<rparr>"

lemma drained_reachable: "tel_reachable refusing 2 () drained"
proof -
  have b: "bit_ceil 2 = 2" by (simp add: bit_ceil_def bit_width.simps)
  let ?s1 = "one_dropped\<lparr>tl_sink := (tl_sink one_dropped)\<lparr>sk_stopping := True\<rparr>\<rparr>"
  let ?s2 = "?s1\<lparr>tl_writer := Writer_drain True []\<rparr>"
  note defs = one_dropped_def tel_init_def TelemetrySink_def SpscRing_def b
  have "sink_step refusing one_dropped ?s1" using step_close [of refusing one_dropped] by (simp add: close_sink_def)
  moreover have "sink_step refusing ?s1 ?s2" by (rule step_top) (simp_all add: defs)
  moreover have "sink_step refusing ?s2 (end_pass refusing True [] (?s2\<lparr>tl_sink := (tl_sink ?s2)\<lparr>sk_ring := sk_ring (tl_sink ?s2)\<rparr>\<rparr>))"
    by (rule step_empty [where seen = 0]) (simp_all add: defs kMaxBatchRows_def may_see_def try_pop_def)
  moreover have "end_pass refusing True [] (?s2\<lparr>tl_sink := (tl_sink ?s2)\<lparr>sk_ring := sk_ring (tl_sink ?s2)\<rparr>\<rparr>) = drained"
    by (simp add: end_pass_def drained_def)
  ultimately show ?thesis
    using one_dropped_reachable unfolding tel_reachable_def by (metis rtranclp.rtrancl_into_rtrancl)
qed

theorem close_drains_witness:
  "tl_writer drained = Writer_returned \<and> queue_depth (stats (tl_sink drained)) = 0 \<and>
   rows_dropped_oversized_id (stats (tl_sink drained)) = 1"
  using close_drains [OF _ drained_reachable] by (simp add: drained_def one_dropped_def stats_def)

text \<open>The fixed-size copy of a correlation id reads back as the id, for every id that is recorded.\<close>

lemma row_id_roundtrip:
  assumes "length (le_correlation_id event) \<le> kMaxCorrelationIdBytes"
  shows "row_id (row_of event) = le_correlation_id event \<and> length (row_correlation_id (row_of event)) = kMaxCorrelationIdBytes"
  using assms by (simp add: row_id_def row_of_def copy_into_def zero_row_def kMaxCorrelationIdBytes_def unat_of_nat)

text \<open>An \<open>open\<close> that fails has closed its connection behind everything it called on it.\<close>

lemma open_failure_closes:
  assumes "open_sink sq joinable sk = (Some e, sk')"
  shows "\<exists>w. sk' = sk\<lparr>sk_world := destroy_db sq w\<rparr>"
  using assms by (auto simp: open_sink_def Let_def split: if_splits prod.splits bool.splits option.splits)

end
