(* ===== verification/Sqlite_Contract.thy ===== *)
theory Sqlite_Contract
  imports Telemetry
begin

text \<open>
  What \<open>src/telemetry.cpp\<close> relies on of SQLite, call by call: binding a parameter, stepping an
  \<open>INSERT\<close>, beginning and ending a transaction, preparing and closing. From these the effect of the
  code's own \<open>insert\<close> and \<open>write_batch\<close> on the table is derived, column by column.
\<close>

section \<open>The contract\<close>

text \<open>What a column holds. SQLite stores a NaN as NULL.\<close>

datatype sql_value = Sql_text string | Sql_integer int64 | Sql_real double | Sql_null

definition sql_double :: "double \<Rightarrow> sql_value" where
  "sql_double d = (if is_nan d then Sql_null else Sql_real d)"

type_synonym entry = "(string \<times> sql_value) list"

text \<open>
  What can be observed of a database through its connection: the committed rows of
  \<open>latency_events\<close>, with the columns an \<open>INSERT\<close> named; those of the open transaction, if one is
  open; and for each statement the text it was prepared from and what is bound to its parameters.
\<close>

record 'w view =
  vw_saved :: "'w \<Rightarrow> entry list"
  vw_pending :: "'w \<Rightarrow> entry list option"
  vw_prepared :: "'w \<Rightarrow> statement \<Rightarrow> string option"
  vw_bound :: "'w \<Rightarrow> statement \<Rightarrow> nat \<Rightarrow> sql_value"

fun join_names :: "string list \<Rightarrow> string" where
  "join_names [] = []"
| "join_names [c] = c"
| "join_names (c # cs) = c @ '', '' @ join_names cs"

definition insert_text :: "string list \<Rightarrow> string" where
  "insert_text cols = ''INSERT INTO latency_events ('' @ join_names cols @ '') VALUES ('' @
     join_names (map (\<lambda>_. ''?'') cols) @ '')''"

definition column_name :: "string \<Rightarrow> bool" where
  "column_name c \<longleftrightarrow> c \<noteq> [] \<and> CHR '','' \<notin> set c \<and> CHR '')'' \<notin> set c"

text \<open>A call that leaves the rows and the statements as they are.\<close>

definition idle :: "'w view \<Rightarrow> 'w \<Rightarrow> 'w \<Rightarrow> bool" where
  "idle vw w w' \<longleftrightarrow> vw_saved vw w' = vw_saved vw w \<and> vw_pending vw w' = vw_pending vw w \<and> vw_prepared vw w' = vw_prepared vw w"

definition binds :: "'w view \<Rightarrow> (statement \<Rightarrow> nat \<Rightarrow> 'v \<Rightarrow> 'w \<Rightarrow> bool \<times> 'w) \<Rightarrow> ('v \<Rightarrow> sql_value) \<Rightarrow> bool" where
  "binds vw call value \<longleftrightarrow> (\<forall>st n v w b w'. call st n v w = (b, w') \<longrightarrow> idle vw w w' \<and>
     (b \<longrightarrow> vw_bound vw w' = (vw_bound vw w)(st := (vw_bound vw w st)(n := value v))))"

text \<open>
  A step of \<open>INSERT INTO latency_events (c1, c2, ...) VALUES (?, ?, ...)\<close> inside a transaction adds
  the row with the first parameter in \<open>c1\<close> and so on, or fails and adds nothing, though it may end
  the transaction. One that inserts into \<open>correlations\<close> does not touch the table.
\<close>

definition steps_insert :: "'w sqlite \<Rightarrow> 'w view \<Rightarrow> bool" where
  "steps_insert sq vw \<longleftrightarrow> (\<forall>st w b w' rows. sq_step_done sq st w = (b, w') \<longrightarrow> vw_pending vw w = Some rows \<longrightarrow>
     (\<forall>cols. vw_prepared vw w st = Some (insert_text cols) \<longrightarrow> list_all column_name cols \<longrightarrow>
        vw_saved vw w' = vw_saved vw w \<and> vw_prepared vw w' = vw_prepared vw w \<and>
        (if b then vw_pending vw w' = Some (rows @ [zip cols (map (vw_bound vw w st) [1..<Suc (length cols)])])
         else vw_pending vw w' \<in> {Some rows, None})) \<and>
     (\<forall>rest. vw_prepared vw w st = Some (''INSERT OR IGNORE INTO correlations '' @ rest) \<longrightarrow>
        vw_saved vw w' = vw_saved vw w \<and> vw_prepared vw w' = vw_prepared vw w \<and>
        (if b then vw_pending vw w' = Some rows else vw_pending vw w' \<in> {Some rows, None})))"

definition transacts :: "'w sqlite \<Rightarrow> 'w view \<Rightarrow> bool" where
  "transacts sq vw \<longleftrightarrow>
     (\<forall>w b w'. sq_exec sq ''BEGIN'' w = (b, w') \<longrightarrow> vw_saved vw w' = vw_saved vw w \<and> vw_prepared vw w' = vw_prepared vw w \<and>
        (if b then vw_pending vw w = None \<and> vw_pending vw w' = Some [] else vw_pending vw w' = vw_pending vw w)) \<and>
     (\<forall>w b w' rows. sq_exec sq ''COMMIT'' w = (b, w') \<longrightarrow> vw_pending vw w = Some rows \<longrightarrow> vw_prepared vw w' = vw_prepared vw w \<and>
        (if b then vw_saved vw w' = vw_saved vw w @ rows \<and> vw_pending vw w' = None else vw_saved vw w' = vw_saved vw w)) \<and>
     (\<forall>w b w'. sq_exec sq ''ROLLBACK'' w = (b, w') \<longrightarrow>
        vw_saved vw w' = vw_saved vw w \<and> vw_pending vw w' = None \<and> vw_prepared vw w' = vw_prepared vw w)"

definition sqlite_documented :: "'w sqlite \<Rightarrow> 'w view \<Rightarrow> bool" where
  "sqlite_documented sq vw \<longleftrightarrow>
     binds vw (sq_bind_text sq) Sql_text \<and> binds vw (sq_bind_int64 sq) Sql_integer \<and> binds vw (sq_bind_double sq) sql_double \<and>
     (\<forall>st w. idle vw w (sq_reset sq st w)) \<and>
     (\<forall>w t w'. sq_wall_clock_ms sq w = (t, w') \<longrightarrow> idle vw w w') \<and>
     steps_insert sq vw \<and> transacts sq vw \<and>
     (\<forall>st sql w w'. sq_prepare sq st sql w = (True, w') \<longrightarrow> vw_prepared vw w' = (vw_prepared vw w)(st := Some sql)) \<and>
     (\<forall>st w. vw_saved vw (sq_finalize sq st w) = vw_saved vw w \<and> (vw_pending vw w = None \<longrightarrow> vw_pending vw (sq_finalize sq st w) = None)) \<and>
     (\<forall>w. vw_saved vw (sq_close sq w) = vw_saved vw w \<and> (vw_pending vw w = None \<longrightarrow> vw_pending vw (sq_close sq w) = None))"

section \<open>One row\<close>

text \<open>The row of the table that stands for a row of the ring, by the names of its columns.\<close>

definition entry_of :: "Row \<Rightarrow> entry" where
  "entry_of row = [(''correlation_id'', Sql_text (row_id row)), (''stage'', Sql_text (stage_name (row_stage row))),
     (''started_at_ms'', Sql_integer (row_started_at_ms row)), (''ended_at_ms'', Sql_integer (row_ended_at_ms row)),
     (''duration_ms'', sql_double (row_duration_ms row)), (''metadata_json'', Sql_text (kDryRunMetadata (row_dry_run row)))]"

text \<open>Both statements are prepared, with the texts of the code.\<close>

definition ready :: "'w view \<Rightarrow> 'w \<Rightarrow> bool" where
  "ready vw w \<longleftrightarrow> vw_prepared vw w Correlation_insert = Some correlation_insert_sql \<and>
     vw_prepared vw w Event_insert = Some event_insert_sql"

lemma ready_cong: "ready vw w \<Longrightarrow> vw_prepared vw w' = vw_prepared vw w \<Longrightarrow> ready vw w'"
  by (simp add: ready_def)

lemma idleD: "idle vw w w' \<Longrightarrow> vw_saved vw w' = vw_saved vw w \<and> vw_pending vw w' = vw_pending vw w \<and> vw_prepared vw w' = vw_prepared vw w"
  by (simp add: idle_def)

lemma idle_refl [simp]: "idle vw w w"
  by (simp add: idle_def)

lemma idle_trans: "idle vw w w1 \<Longrightarrow> idle vw w1 w2 \<Longrightarrow> idle vw w w2"
  by (simp add: idle_def)

definition event_columns :: "string list" where
  "event_columns = [''correlation_id'', ''stage'', ''started_at_ms'', ''ended_at_ms'', ''duration_ms'', ''metadata_json'']"

lemma event_insert_columns: "event_insert_sql = insert_text event_columns" "list_all column_name event_columns"
  by (simp_all add: event_insert_sql_def insert_text_def event_columns_def column_name_def)

lemma correlation_insert_table: "correlation_insert_sql = ''INSERT OR IGNORE INTO correlations '' @ ''(correlation_id, created_at_ms) VALUES (?, ?)''"
  by (simp add: correlation_insert_sql_def)

text \<open>A chain of calls each of which leaves the rows alone does so up to the one that fails.\<close>

lemma all_ok_idle:
  "(\<And>call w b w'. call \<in> set calls \<Longrightarrow> call w = (b, w') \<Longrightarrow> idle vw w w') \<Longrightarrow> all_ok calls w = (b, w') \<Longrightarrow> idle vw w w'"
proof (induction calls arbitrary: w)
  case (Cons call calls)
  obtain b1 w1 where c: "call w = (b1, w1)" by fastforce
  have i: "idle vw w w1" by (rule Cons.prems(1) [of call]) (simp_all add: c)
  show ?case
  proof (cases b1)
    case True
    have "idle vw w1 w'" by (rule Cons.IH) (use Cons.prems c True in auto)
    with i show ?thesis by (rule idle_trans)
  next
    case False
    with Cons.prems(2) c i show ?thesis by simp
  qed
qed simp

lemma all_ok_append:
  "all_ok (xs @ ys) w = (case all_ok xs w of (True, w1) \<Rightarrow> all_ok ys w1 | (False, w1) \<Rightarrow> (False, w1))"
  by (induction xs arbitrary: w) (auto split: prod.split bool.split)


text \<open>A call that binds one parameter, and a chain of them.\<close>

definition binds_to :: "'w view \<Rightarrow> statement \<Rightarrow> ('w \<Rightarrow> bool \<times> 'w) \<Rightarrow> nat \<times> sql_value \<Rightarrow> bool" where
  "binds_to vw st call nv \<longleftrightarrow> (\<forall>w b w'. call w = (b, w') \<longrightarrow> idle vw w w' \<and>
     (b \<longrightarrow> vw_bound vw w' st = (vw_bound vw w st)(fst nv := snd nv)))"

lemma binds_toI: "binds vw call value \<Longrightarrow> binds_to vw st (call st n v) (n, value v)"
  by (simp add: binds_def binds_to_def)

lemma binds_idle: "binds vw call value \<Longrightarrow> call st n v w = (b, w') \<Longrightarrow> idle vw w w'"
  by (auto simp: binds_def)

lemma all_ok_binds:
  "list_all2 (binds_to vw st) calls nvs \<Longrightarrow> all_ok calls w = (b, w') \<Longrightarrow>
     idle vw w w' \<and> (b \<longrightarrow> vw_bound vw w' st = fold (\<lambda>nv f. f(fst nv := snd nv)) nvs (vw_bound vw w st))"
proof (induction calls nvs arbitrary: w rule: list_all2_induct)
  case (Cons call calls nv nvs)
  obtain b1 w1 where c: "call w = (b1, w1)" by fastforce
  with Cons.hyps(1) have i: "idle vw w w1" "b1 \<longrightarrow> vw_bound vw w1 st = (vw_bound vw w st)(fst nv := snd nv)"
    by (auto simp: binds_to_def)
  show ?case
  proof (cases b1)
    case True
    with Cons.IH [of w1] Cons.prems c i show ?thesis by (auto intro: idle_trans)
  next
    case False
    with Cons.prems c i show ?thesis by simp
  qed
qed simp

lemma sqliteD:
  assumes "sqlite_documented sq vw"
  shows "binds vw (sq_bind_text sq) Sql_text" "binds vw (sq_bind_int64 sq) Sql_integer" "binds vw (sq_bind_double sq) sql_double"
    "idle vw w (sq_reset sq st w)" "sq_wall_clock_ms sq w = (t, w') \<Longrightarrow> idle vw w w'" "steps_insert sq vw" "transacts sq vw"
    "sq_prepare sq st sql w = (True, w') \<Longrightarrow> vw_prepared vw w' = (vw_prepared vw w)(st := Some sql)"
  using assms by (simp_all add: sqlite_documented_def)

lemma destroy_db_documented:
  assumes "sqlite_documented sq vw"
  shows "vw_saved vw (destroy_db sq w) = vw_saved vw w" "vw_pending vw w = None \<Longrightarrow> vw_pending vw (destroy_db sq w) = None"
  using assms by (simp_all add: sqlite_documented_def destroy_db_def)

lemma step_event:
  assumes "sqlite_documented sq vw" "ready vw w" "vw_pending vw w = Some rows" "sq_step_done sq Event_insert w = (b, w')"
  shows "vw_saved vw w' = vw_saved vw w \<and> vw_prepared vw w' = vw_prepared vw w \<and>
    (if b then vw_pending vw w' = Some (rows @ [zip event_columns (map (vw_bound vw w Event_insert) [1..<7])])
     else vw_pending vw w' \<in> {Some rows, None})"
proof -
  have "vw_prepared vw w Event_insert = Some (insert_text event_columns)"
    using assms(2) by (simp only: ready_def event_insert_columns(1))
  with sqliteD(6) [OF assms(1)] assms(3,4) event_insert_columns(2)
  have "vw_saved vw w' = vw_saved vw w \<and> vw_prepared vw w' = vw_prepared vw w \<and>
    (if b then vw_pending vw w' = Some (rows @ [zip event_columns (map (vw_bound vw w Event_insert) [1..<Suc (length event_columns)])])
     else vw_pending vw w' \<in> {Some rows, None})"
    unfolding steps_insert_def by blast
  moreover have n: "Suc (length event_columns) = 7" by (simp add: event_columns_def)
  ultimately show ?thesis unfolding n by blast
qed

lemma step_correlation:
  assumes "sqlite_documented sq vw" "ready vw w" "vw_pending vw w = Some rows" "sq_step_done sq Correlation_insert w = (b, w')"
  shows "vw_saved vw w' = vw_saved vw w \<and> vw_prepared vw w' = vw_prepared vw w \<and>
    (if b then vw_pending vw w' = Some rows else vw_pending vw w' \<in> {Some rows, None})"
proof -
  have "vw_prepared vw w Correlation_insert = Some (''INSERT OR IGNORE INTO correlations '' @ ''(correlation_id, created_at_ms) VALUES (?, ?)'')"
    using assms(2) by (simp only: ready_def correlation_insert_table)
  with sqliteD(6) [OF assms(1)] assms(3,4) show ?thesis unfolding steps_insert_def by blast
qed

text \<open>The two halves of \<open>insert\<close>.\<close>

lemma parent_insert:
  assumes doc: "sqlite_documented sq vw" and "ready vw w" "vw_pending vw w = Some rows"
    and "all_ok [sq_bind_text sq Correlation_insert 1 cid, (\<lambda>w. let (now, w) = sq_wall_clock_ms sq w in sq_bind_int64 sq Correlation_insert 2 now w),
      sq_step_done sq Correlation_insert] (sq_reset sq Correlation_insert w) = (b, w')"
  shows "vw_saved vw w' = vw_saved vw w \<and> vw_prepared vw w' = vw_prepared vw w \<and>
    (if b then vw_pending vw w' = Some rows else vw_pending vw w' \<in> {Some rows, None})"
proof -
  let ?now = "\<lambda>w. let (now, w) = sq_wall_clock_ms sq w in sq_bind_int64 sq Correlation_insert 2 now w"
  have now: "idle vw w w'" if "?now w = (b, w')" for w b w'
  proof -
    obtain t w1 where t: "sq_wall_clock_ms sq w = (t, w1)" by fastforce
    with that have "sq_bind_int64 sq Correlation_insert 2 t w1 = (b, w')" by simp
    from idle_trans [OF sqliteD(5) [OF doc t] binds_idle [OF sqliteD(2) [OF doc] this]] show ?thesis .
  qed
  obtain b1 w1 where one: "all_ok [sq_bind_text sq Correlation_insert 1 cid, ?now] (sq_reset sq Correlation_insert w) = (b1, w1)" by fastforce
  have "idle vw (sq_reset sq Correlation_insert w) w1"
    by (rule all_ok_idle [OF _ one]) (use binds_idle [OF sqliteD(1) [OF doc]] now in auto)
  with sqliteD(4) [OF doc] have i: "idle vw w w1" by (rule idle_trans)
  have r1: "ready vw w1" by (rule ready_cong [OF assms(2)]) (simp add: idleD [OF i])
  have p1: "vw_pending vw w1 = Some rows" by (simp add: idleD [OF i] assms(3))
  have res: "(case (b1, w1) of (True, w1) \<Rightarrow> all_ok [sq_step_done sq Correlation_insert] w1 | (False, w1) \<Rightarrow> (False, w1)) = (b, w')"
    using assms(4) all_ok_append [of "[sq_bind_text sq Correlation_insert 1 cid, ?now]" "[sq_step_done sq Correlation_insert]"] one by simp
  show ?thesis
  proof (cases b1)
    case True
    obtain b2 w2 where two: "sq_step_done sq Correlation_insert w1 = (b2, w2)" by fastforce
    with res True have "b = b2" "w' = w2" by (cases b2; simp)+
    with step_correlation [OF doc r1 p1 two] idleD [OF i] show ?thesis by (cases b2) auto
  next
    case False
    with res idleD [OF i] assms(3) show ?thesis by simp
  qed
qed

lemma event_insert:
  assumes doc: "sqlite_documented sq vw" and "ready vw w" "vw_pending vw w = Some rows"
    and "all_ok [sq_bind_text sq Event_insert 1 (row_id row), sq_bind_text sq Event_insert 2 (stage_name (row_stage row)),
      sq_bind_int64 sq Event_insert 3 (row_started_at_ms row), sq_bind_int64 sq Event_insert 4 (row_ended_at_ms row),
      sq_bind_double sq Event_insert 5 (row_duration_ms row), sq_bind_text sq Event_insert 6 (kDryRunMetadata (row_dry_run row)),
      sq_step_done sq Event_insert] (sq_reset sq Event_insert w) = (b, w')"
  shows "vw_saved vw w' = vw_saved vw w \<and> vw_prepared vw w' = vw_prepared vw w \<and>
    (if b then vw_pending vw w' = Some (rows @ [entry_of row]) else vw_pending vw w' \<in> {Some rows, None})"
proof -
  let ?calls = "[sq_bind_text sq Event_insert 1 (row_id row), sq_bind_text sq Event_insert 2 (stage_name (row_stage row)),
      sq_bind_int64 sq Event_insert 3 (row_started_at_ms row), sq_bind_int64 sq Event_insert 4 (row_ended_at_ms row),
      sq_bind_double sq Event_insert 5 (row_duration_ms row), sq_bind_text sq Event_insert 6 (kDryRunMetadata (row_dry_run row))]"
  let ?bound = "[(1, Sql_text (row_id row)), (2, Sql_text (stage_name (row_stage row))), (3, Sql_integer (row_started_at_ms row)),
      (4, Sql_integer (row_ended_at_ms row)), (5, sql_double (row_duration_ms row)), (6, Sql_text (kDryRunMetadata (row_dry_run row)))]"
  obtain b1 w1 where one: "all_ok ?calls (sq_reset sq Event_insert w) = (b1, w1)" by fastforce
  have "list_all2 (binds_to vw Event_insert) ?calls ?bound"
    by (intro list.rel_intros binds_toI [OF sqliteD(1) [OF doc]] binds_toI [OF sqliteD(2) [OF doc]] binds_toI [OF sqliteD(3) [OF doc]])
  note bound = all_ok_binds [OF this one]
  have i: "idle vw w w1" by (rule idle_trans [OF sqliteD(4) [OF doc] conjunct1 [OF bound]])
  have r1: "ready vw w1" by (rule ready_cong [OF assms(2)]) (simp add: idleD [OF i])
  have p1: "vw_pending vw w1 = Some rows" by (simp add: idleD [OF i] assms(3))
  have res: "(case (b1, w1) of (True, w1) \<Rightarrow> all_ok [sq_step_done sq Event_insert] w1 | (False, w1) \<Rightarrow> (False, w1)) = (b, w')"
    using assms(4) all_ok_append [of ?calls "[sq_step_done sq Event_insert]"] one by simp
  show ?thesis
  proof (cases b1)
    case True
    obtain b2 w2 where two: "sq_step_done sq Event_insert w1 = (b2, w2)" by fastforce
    with res True have e: "b = b2" "w' = w2" by (cases b2; simp)+
    have "zip event_columns (map (vw_bound vw w1 Event_insert) [1..<7]) = entry_of row"
      by (simp add: mp [OF conjunct2 [OF bound] True] upt_rec event_columns_def entry_of_def)
    with e step_event [OF doc r1 p1 two] idleD [OF i] show ?thesis by (cases b2) auto
  next
    case False
    with res idleD [OF i] assms(3) show ?thesis by simp
  qed
qed

lemma insert_row_documented:
  assumes doc: "sqlite_documented sq vw" and "ready vw w" "vw_pending vw w = Some rows" "insert_row sq row w = (b, w')"
  shows "vw_saved vw w' = vw_saved vw w \<and> ready vw w' \<and>
    (if b then vw_pending vw w' = Some (rows @ [entry_of row]) else vw_pending vw w' \<in> {Some rows, None})"
proof -
  obtain b1 w1 where one: "all_ok [sq_bind_text sq Correlation_insert 1 (row_id row),
      (\<lambda>w. let (now, w) = sq_wall_clock_ms sq w in sq_bind_int64 sq Correlation_insert 2 now w),
      sq_step_done sq Correlation_insert] (sq_reset sq Correlation_insert w) = (b1, w1)" by fastforce
  note p = parent_insert [OF assms(1-3) one]
  have r1: "ready vw w1" using p assms(2) by (blast intro: ready_cong)
  show ?thesis
  proof (cases b1)
    case False
    with assms(4) one p r1 show ?thesis by (simp add: insert_row_def)
  next
    case True
    with p have "vw_pending vw w1 = Some rows" by simp
    note e = event_insert [OF doc r1 this]
    have "all_ok [sq_bind_text sq Event_insert 1 (row_id row), sq_bind_text sq Event_insert 2 (stage_name (row_stage row)),
      sq_bind_int64 sq Event_insert 3 (row_started_at_ms row), sq_bind_int64 sq Event_insert 4 (row_ended_at_ms row),
      sq_bind_double sq Event_insert 5 (row_duration_ms row), sq_bind_text sq Event_insert 6 (kDryRunMetadata (row_dry_run row)),
      sq_step_done sq Event_insert] (sq_reset sq Event_insert w1) = (b, w')"
      using assms(4) one True by (simp only: insert_row_def Let_def prod.case bool.case)
    from e [OF this] p r1 show ?thesis by (auto intro: ready_cong)
  qed
qed

section \<open>Batches\<close>

lemma documented_exec:
  assumes "sqlite_documented sq vw"
  shows begin_ok: "sq_exec sq ''BEGIN'' w = (True, w') \<Longrightarrow> vw_saved vw w' = vw_saved vw w \<and> vw_pending vw w' = Some []"
    and begin_fails: "sq_exec sq ''BEGIN'' w = (False, w') \<Longrightarrow> vw_saved vw w' = vw_saved vw w \<and> vw_pending vw w' = vw_pending vw w"
    and commit_ok: "sq_exec sq ''COMMIT'' w = (True, w') \<Longrightarrow> vw_pending vw w = Some rows \<Longrightarrow> vw_saved vw w' = vw_saved vw w @ rows \<and> vw_pending vw w' = None"
    and commit_fails: "sq_exec sq ''COMMIT'' w = (False, w') \<Longrightarrow> vw_pending vw w = Some rows \<Longrightarrow> vw_saved vw w' = vw_saved vw w"
    and rollback: "sq_exec sq ''ROLLBACK'' w = (b, w') \<Longrightarrow> vw_saved vw w' = vw_saved vw w \<and> vw_pending vw w' = None"
  using sqliteD(7) [OF assms] unfolding transacts_def by (metis (full_types))+

lemma documented_exec_ready:
  assumes "sqlite_documented sq vw" "ready vw w"
  shows begin_ready: "sq_exec sq ''BEGIN'' w = (b, w') \<Longrightarrow> ready vw w'"
    and commit_ready: "sq_exec sq ''COMMIT'' w = (b, w') \<Longrightarrow> vw_pending vw w = Some rows \<Longrightarrow> ready vw w'"
    and rollback_ready: "sq_exec sq ''ROLLBACK'' w = (b, w') \<Longrightarrow> ready vw w'"
  using sqliteD(7) [OF assms(1)] ready_cong [OF assms(2)] unfolding transacts_def by blast+

lemma insert_all_documented:
  assumes doc: "sqlite_documented sq vw"
  shows "ready vw w \<Longrightarrow> vw_pending vw w = Some rows \<Longrightarrow> insert_all sq batch w = (b, w') \<Longrightarrow>
    ready vw w' \<and> vw_saved vw w' = vw_saved vw w \<and> (b \<longrightarrow> vw_pending vw w' = Some (rows @ map entry_of batch))"
proof (induction batch arbitrary: w rows)
  case (Cons row batch)
  obtain b1 w1 where i: "insert_row sq row w = (b1, w1)" by fastforce
  note r = insert_row_documented [OF doc Cons.prems(1,2) i]
  show ?case
  proof (cases b1)
    case True
    with r have "vw_pending vw w1 = Some (rows @ [entry_of row])" by simp
    with Cons.IH [of w1 "rows @ [entry_of row]"] Cons.prems(3) i r True show ?thesis by simp
  next
    case False
    with Cons.prems(3) i r show ?thesis by simp
  qed
qed simp

lemma try_batch_documented:
  assumes doc: "sqlite_documented sq vw" and "ready vw w" "vw_pending vw w = None" "try_batch sq batch w = (b, w')"
  shows "ready vw w' \<and> vw_pending vw w' = None \<and> vw_saved vw w' = (if b then vw_saved vw w @ map entry_of batch else vw_saved vw w)"
proof -
  obtain b1 w1 where s1: "sq_exec sq ''BEGIN'' w = (b1, w1)" by fastforce
  have r1: "ready vw w1" by (rule begin_ready [OF doc assms(2) s1])
  show ?thesis
  proof (cases b1)
    case False
    with s1 assms(4) have "w' = w1" "b = False" by (simp_all add: try_batch_def)
    with begin_fails [OF doc, of w w1] s1 False r1 assms(3) show ?thesis by simp
  next
    case True
    then have w1: "vw_saved vw w1 = vw_saved vw w" "vw_pending vw w1 = Some []" using begin_ok [OF doc, of w w1] s1 by simp_all
    obtain b2 w2 where s2: "insert_all sq batch w1 = (b2, w2)" by fastforce
    note w2 = insert_all_documented [OF doc r1 w1(2) s2]
    obtain b3 w3 where s3: "(if b2 then sq_exec sq ''COMMIT'' w2 else (False, w2)) = (b3, w3)" by fastforce
    obtain b4 w4 where s4: "sq_exec sq ''ROLLBACK'' w3 = (b4, w4)" by fastforce
    have r3: "ready vw w3"
    proof (cases b2)
      case True
      with s3 w2 show ?thesis using commit_ready [OF doc, of w2 b3 w3] by auto
    qed (use s3 w2 in auto)
    note w4 = rollback [OF doc s4]
    have res: "b = b3" "w' = (if b3 then w3 else w4)" using assms(4) True s1 s2 s3 s4 by (cases b3; simp add: try_batch_def Let_def)+
    show ?thesis
    proof (cases b3)
      case True
      then have "sq_exec sq ''COMMIT'' w2 = (True, w3)" "vw_pending vw w2 = Some (map entry_of batch)" using s3 w2 by (auto split: if_splits)
      from commit_ok [OF doc this] True res w2 w1(1) r3 show ?thesis by simp
    next
      case False
      then have "vw_saved vw w3 = vw_saved vw w"
        using s3 w2 w1(1) commit_fails [OF doc] by (cases b2) auto
      with False res w4 rollback_ready [OF doc r3 s4] show ?thesis by simp
    qed
  qed
qed

lemma retry_row_documented:
  assumes doc: "sqlite_documented sq vw" and "ready vw (sk_world sk)" "vw_pending vw (sk_world sk) = None"
  shows "ready vw (sk_world (retry_row sq row sk)) \<and> vw_pending vw (sk_world (retry_row sq row sk)) = None \<and>
    (vw_saved vw (sk_world (retry_row sq row sk)) = vw_saved vw (sk_world sk) @ [entry_of row] \<and>
       sk_rows_written (retry_row sq row sk) = sk_rows_written sk + 1 \<or>
     vw_saved vw (sk_world (retry_row sq row sk)) = vw_saved vw (sk_world sk) \<and>
       sk_rows_written (retry_row sq row sk) = sk_rows_written sk)"
proof -
  obtain b w where r: "all_ok [sq_exec sq ''BEGIN'', insert_row sq row, sq_exec sq ''COMMIT''] (sk_world sk) = (b, w)" by fastforce
  obtain b1 w1 where s1: "sq_exec sq ''BEGIN'' (sk_world sk) = (b1, w1)" by fastforce
  obtain b2 w2 where s2: "insert_row sq row w1 = (b2, w2)" by fastforce
  obtain b3 w3 where s3: "sq_exec sq ''COMMIT'' w2 = (b3, w3)" by fastforce
  obtain b4 w4 where s4: "sq_exec sq ''ROLLBACK'' w = (b4, w4)" by fastforce
  have w: "(b, w) = (if b1 then if b2 then (b3, w3) else (False, w2) else (False, w1))"
    using r s1 s2 s3 by (cases b1; cases b2; cases b3) auto
  have in1: "ready vw w1" "vw_saved vw w1 = vw_saved vw (sk_world sk)" "b1 \<Longrightarrow> vw_pending vw w1 = Some []"
    using begin_ready [OF doc assms(2) s1] begin_ok [OF doc, of "sk_world sk" w1] begin_fails [OF doc, of "sk_world sk" w1] s1
    by (cases b1; simp)+
  have in2: "ready vw w2 \<and> vw_saved vw w2 = vw_saved vw (sk_world sk) \<and> (b2 \<longrightarrow> vw_pending vw w2 = Some [entry_of row])" if b1
    using insert_row_documented [OF doc in1(1) in1(3) [OF that] s2] in1(2) by simp
  have in3: "ready vw w3 \<and> (if b3 then vw_saved vw w3 = vw_saved vw (sk_world sk) @ [entry_of row] \<and> vw_pending vw w3 = None
      else vw_saved vw w3 = vw_saved vw (sk_world sk))" if b1 b2
    using commit_ready [OF doc _ s3] commit_ok [OF doc, of w2 w3 "[entry_of row]"] commit_fails [OF doc, of w2 w3 "[entry_of row]"] s3 in2 that
    by (cases b3) auto
  show ?thesis
  proof (cases b)
    case True
    then have "b1" "b2" "b3" "w = w3" using w by (auto split: if_splits)
    with in3 r True show ?thesis by (simp add: retry_row_def)
  next
    case False
    then have w': "ready vw w" "vw_saved vw w = vw_saved vw (sk_world sk)" using w in1 in2 in3 by (auto split: if_splits)
    with rollback [OF doc s4] rollback_ready [OF doc w'(1) s4] False r s4 show ?thesis by (simp add: retry_row_def)
  qed
qed

lemma retry_rows_documented:
  assumes doc: "sqlite_documented sq vw"
  shows "ready vw (sk_world sk) \<Longrightarrow> vw_pending vw (sk_world sk) = None \<Longrightarrow>
    \<exists>kept. subseq kept batch \<and> ready vw (sk_world (fold (retry_row sq) batch sk)) \<and>
      vw_pending vw (sk_world (fold (retry_row sq) batch sk)) = None \<and>
      vw_saved vw (sk_world (fold (retry_row sq) batch sk)) = vw_saved vw (sk_world sk) @ map entry_of kept \<and>
      sk_rows_written (fold (retry_row sq) batch sk) = sk_rows_written sk + word_of_nat (length kept)"
proof (induction batch arbitrary: sk)
  case (Cons row batch)
  define sk1 where "sk1 = retry_row sq row sk"
  note one = retry_row_documented [OF doc Cons.prems, of row, folded sk1_def]
  from Cons.IH [OF conjunct1 [OF one] conjunct1 [OF conjunct2 [OF one]]] obtain kept where k: "subseq kept batch"
      "ready vw (sk_world (fold (retry_row sq) batch sk1))" "vw_pending vw (sk_world (fold (retry_row sq) batch sk1)) = None"
      "vw_saved vw (sk_world (fold (retry_row sq) batch sk1)) = vw_saved vw (sk_world sk1) @ map entry_of kept"
      "sk_rows_written (fold (retry_row sq) batch sk1) = sk_rows_written sk1 + word_of_nat (length kept)" by blast
  from conjunct2 [OF conjunct2 [OF one]] show ?case
  proof
    assume "vw_saved vw (sk_world sk1) = vw_saved vw (sk_world sk) @ [entry_of row] \<and> sk_rows_written sk1 = sk_rows_written sk + 1"
    with k show ?thesis by (intro exI [of _ "row # kept"]) (simp add: sk1_def [symmetric] algebra_simps)
  next
    assume "vw_saved vw (sk_world sk1) = vw_saved vw (sk_world sk) \<and> sk_rows_written sk1 = sk_rows_written sk"
    with k show ?thesis by (intro exI [of _ kept]) (simp add: sk1_def [symmetric] list_emb_Cons)
  qed
qed simp

lemma write_batch_documented:
  assumes doc: "sqlite_documented sq vw" and "ready vw (sk_world sk)" "vw_pending vw (sk_world sk) = None"
  shows "\<exists>kept. subseq kept batch \<and> ready vw (sk_world (write_batch sq batch sk)) \<and>
    vw_pending vw (sk_world (write_batch sq batch sk)) = None \<and>
    vw_saved vw (sk_world (write_batch sq batch sk)) = vw_saved vw (sk_world sk) @ map entry_of kept \<and>
    sk_rows_written (write_batch sq batch sk) = sk_rows_written sk + word_of_nat (length kept)"
proof -
  obtain b w where t: "try_batch sq batch (sk_world sk) = (b, w)" by fastforce
  note b = try_batch_documented [OF assms t]
  show ?thesis
  proof (cases b)
    case True
    with b t show ?thesis by (intro exI [of _ batch]) (simp add: write_batch_def)
  next
    case False
    with b t retry_rows_documented [OF doc, of "sk\<lparr>sk_world := w\<rparr>" batch] show ?thesis by (simp add: write_batch_def)
  qed
qed

section \<open>Opening\<close>

text \<open>An \<open>open\<close> that succeeds leaves both statements prepared.\<close>

lemma first_failure_append:
  "first_failure sq (xs @ ys) w = (None, w') \<Longrightarrow> \<exists>w1. first_failure sq xs w = (None, w1) \<and> first_failure sq ys w1 = (None, w')"
  by (induction sq xs w rule: first_failure.induct) (auto split: prod.splits bool.splits)

lemma open_ready:
  assumes doc: "sqlite_documented sq vw" and "open_sink sq False sk = (None, sk')"
  shows "ready vw (sk_world sk')"
proof -
  obtain preexisting w w' where f: "first_failure sq (open_calls sq preexisting) w = (None, w')" "sk_world sk' = w'"
    using assms(2) by (auto simp: open_sink_def Let_def split: prod.splits bool.splits option.splits)
  from first_failure_append [OF f(1) [unfolded open_calls_def append_assoc [symmetric]]]
  obtain w1 where "first_failure sq [(''prepare correlations insert'', sq_prepare sq Correlation_insert correlation_insert_sql),
      (''prepare latency_events insert'', sq_prepare sq Event_insert event_insert_sql)] w1 = (None, w')" by (elim exE conjE)
  then obtain w2 where "sq_prepare sq Correlation_insert correlation_insert_sql w1 = (True, w2)"
      "sq_prepare sq Event_insert event_insert_sql w2 = (True, w')"
    by (auto split: prod.splits bool.splits)
  from sqliteD(8) [OF doc this(1)] sqliteD(8) [OF doc this(2)] f(2) show ?thesis
    by (simp add: ready_def)
qed

section \<open>A database in memory\<close>

lemma join_names_Cons: "join_names (c # cs) = c @ (if cs = [] then [] else '', '' @ join_names cs)"
  by (cases cs) simp_all

lemma join_names_head:
  assumes "column_name c"
  shows "takeWhile (\<lambda>x. x \<noteq> CHR '','') (join_names (c # cs)) = c"
    "dropWhile (\<lambda>x. x \<noteq> CHR '','') (join_names (c # cs)) = (if cs = [] then [] else '', '' @ join_names cs)"
proof -
  have c: "x \<in> set c \<Longrightarrow> x \<noteq> CHR '',''" for x using assms by (auto simp: column_name_def)
  show "takeWhile (\<lambda>x. x \<noteq> CHR '','') (join_names (c # cs)) = c"
    unfolding join_names_Cons by (subst takeWhile_append2) (use c in auto)
  show "dropWhile (\<lambda>x. x \<noteq> CHR '','') (join_names (c # cs)) = (if cs = [] then [] else '', '' @ join_names cs)"
    unfolding join_names_Cons by (subst dropWhile_append2) (use c in auto)
qed

lemma join_names_inject: "list_all column_name a \<Longrightarrow> list_all column_name b \<Longrightarrow> join_names a = join_names b \<Longrightarrow> a = b"
proof (induction a arbitrary: b)
  case Nil
  then show ?case by (cases b) (auto simp: join_names_Cons column_name_def)
next
  case (Cons c cs)
  obtain d ds where b: "b = d # ds" using Cons.prems by (cases b) (auto simp: join_names_Cons column_name_def)
  have "c = d" using join_names_head(1) [of c cs] join_names_head(1) [of d ds] Cons.prems b by simp
  moreover have "(if cs = [] then [] else '', '' @ join_names cs) = (if ds = [] then [] else '', '' @ join_names ds)"
    using join_names_head(2) [of c cs] join_names_head(2) [of d ds] Cons.prems b by simp
  ultimately show ?case using Cons b by (auto split: if_splits)
qed

lemma join_names_bracket: "list_all column_name cols \<Longrightarrow> CHR '')'' \<notin> set (join_names cols)"
  by (induction cols rule: join_names.induct) (auto simp: column_name_def)

lemma insert_text_inject:
  assumes "insert_text a = insert_text b" "list_all column_name a" "list_all column_name b"
  shows "a = b"
proof -
  have t: "takeWhile (\<lambda>x. x \<noteq> CHR '')'') (join_names c @ CHR '')'' # rest) = join_names c" if "list_all column_name c" for c rest
    using join_names_bracket [OF that] by (subst takeWhile_append2) auto
  have "join_names a @ CHR '')'' # '' VALUES ('' @ join_names (map (\<lambda>_. ''?'') a) @ '')'' =
      join_names b @ CHR '')'' # '' VALUES ('' @ join_names (map (\<lambda>_. ''?'') b) @ '')''"
    using assms(1) by (simp add: insert_text_def)
  from arg_cong [OF this, of "takeWhile (\<lambda>x. x \<noteq> CHR '')'')"] have "join_names a = join_names b"
    unfolding t [OF assms(2)] t [OF assms(3)] .
  with assms(2,3) join_names_inject show ?thesis by blast
qed

text \<open>It keeps what is bound, takes one row per step inside a transaction, and runs the rest as told.\<close>

record memory_db =
  md_saved :: "entry list"
  md_pending :: "entry list option"
  md_prepared :: "statement \<Rightarrow> string option"
  md_bound :: "statement \<Rightarrow> nat \<Rightarrow> sql_value"

definition md_view :: "memory_db view" where
  "md_view = \<lparr>vw_saved = md_saved, vw_pending = md_pending, vw_prepared = md_prepared, vw_bound = md_bound\<rparr>"

definition md_exec :: "string \<Rightarrow> memory_db \<Rightarrow> bool \<times> memory_db" where
  "md_exec sql w =
     (case md_pending w of
        None \<Rightarrow> if sql = ''BEGIN'' then (True, w\<lparr>md_pending := Some []\<rparr>) else (sql \<noteq> ''COMMIT'' \<and> sql \<noteq> ''ROLLBACK'', w)
      | Some es \<Rightarrow>
          if sql = ''COMMIT'' then (True, w\<lparr>md_saved := md_saved w @ es, md_pending := None\<rparr>)
          else if sql = ''ROLLBACK'' then (True, w\<lparr>md_pending := None\<rparr>) else (False, w))"

definition md_step :: "statement \<Rightarrow> memory_db \<Rightarrow> bool \<times> memory_db" where
  "md_step st w =
     (case md_pending w of
        None \<Rightarrow> (False, w)
      | Some es \<Rightarrow>
          if md_prepared w st = Some event_insert_sql
          then (True, w\<lparr>md_pending := Some (es @ [zip event_columns (map (md_bound w st) [1..<7])])\<rparr>)
          else (md_prepared w st = Some correlation_insert_sql, w))"

definition md_bind :: "statement \<Rightarrow> nat \<Rightarrow> sql_value \<Rightarrow> memory_db \<Rightarrow> bool \<times> memory_db" where
  "md_bind st n v w = (True, w\<lparr>md_bound := (md_bound w)(st := (md_bound w st)(n := v))\<rparr>)"

definition in_memory :: "memory_db sqlite" where
  "in_memory = \<lparr>sq_exec = md_exec, sq_reset = (\<lambda>_ w. w),
     sq_bind_text = (\<lambda>st n v. md_bind st n (Sql_text v)), sq_bind_int64 = (\<lambda>st n v. md_bind st n (Sql_integer v)),
     sq_bind_double = (\<lambda>st n v. md_bind st n (sql_double v)), sq_step_done = md_step, sq_wall_clock_ms = (\<lambda>w. (0, w)),
     sq_open = (\<lambda>w. (True, w)), sq_step_row = (\<lambda>_ w. (True, w)), sq_finalize = (\<lambda>st w. w\<lparr>md_prepared := (md_prepared w)(st := None)\<rparr>), sq_close = (\<lambda>w. w),
     sq_busy_timeout = (\<lambda>_ w. (True, w)), sq_prepare = (\<lambda>st sql w. (True, w\<lparr>md_prepared := (md_prepared w)(st := Some sql)\<rparr>)),
     sq_errmsg = (\<lambda>_. [])\<rparr>"

lemma md_steps: "steps_insert in_memory md_view"
proof -
  have i: "insert_text cols = event_insert_sql \<Longrightarrow> cols = event_columns" if "list_all column_name cols" for cols
    using insert_text_inject [OF _ that event_insert_columns(2)] event_insert_columns(1) by simp
  have n: "insert_text cols \<noteq> correlation_insert_sql" for cols by (simp add: insert_text_def correlation_insert_sql_def)
  have e: "''INSERT OR IGNORE INTO correlations '' @ rest \<noteq> event_insert_sql" for rest by (simp add: event_insert_sql_def)
  have c: "length event_columns = 6" by (simp add: event_columns_def)
  show ?thesis
    unfolding steps_insert_def
  proof (intro allI impI conjI)
    fix st w b w' rows cols
    assume s: "sq_step_done in_memory st w = (b, w')" "vw_pending md_view w = Some rows"
      and p: "vw_prepared md_view w st = Some (insert_text cols)" "list_all column_name cols"
    show "vw_saved md_view w' = vw_saved md_view w" "vw_prepared md_view w' = vw_prepared md_view w"
      using s by (auto simp: in_memory_def md_view_def md_step_def split: if_splits)
    show "if b then vw_pending md_view w' = Some (rows @ [zip cols (map (vw_bound md_view w st) [1..<Suc (length cols)])])
        else vw_pending md_view w' \<in> {Some rows, None}"
    proof (cases "insert_text cols = event_insert_sql")
      case True
      then have "cols = event_columns" using i [OF p(2)] by simp
      with True s p(1) show ?thesis by (auto simp: in_memory_def md_view_def md_step_def c)
    next
      case False
      with s p(1) n [of cols] show ?thesis by (auto simp: in_memory_def md_view_def md_step_def)
    qed
  next
    fix st w b w' rows rest
    assume s: "sq_step_done in_memory st w = (b, w')" "vw_pending md_view w = Some rows"
      and p: "vw_prepared md_view w st = Some (''INSERT OR IGNORE INTO correlations '' @ rest)"
    then have "w' = w" using e [of rest] by (simp add: in_memory_def md_view_def md_step_def split: if_splits)
    with s(2) show "vw_saved md_view w' = vw_saved md_view w" "vw_prepared md_view w' = vw_prepared md_view w"
        "if b then vw_pending md_view w' = Some rows else vw_pending md_view w' \<in> {Some rows, None}"
      by simp_all
  qed
qed

lemma in_memory_documented: "sqlite_documented in_memory md_view"
proof -
  have "transacts in_memory md_view"
    unfolding transacts_def by (auto simp: in_memory_def md_view_def md_exec_def split: option.splits if_splits)
  with md_steps show ?thesis
    by (simp add: sqlite_documented_def) (simp add: in_memory_def md_view_def binds_def idle_def md_bind_def)
qed

definition empty_db :: memory_db where
  "empty_db = \<lparr>md_saved = [], md_pending = None, md_prepared = (\<lambda>_. None), md_bound = (\<lambda>_ _. Sql_null)\<rparr>"

definition ready_db :: memory_db where
  "ready_db = empty_db\<lparr>md_prepared := (\<lambda>_. None)(Correlation_insert := Some correlation_insert_sql, Event_insert := Some event_insert_sql)\<rparr>"

lemma ready_db_facts: "ready md_view ready_db" "vw_pending md_view ready_db = None" "vw_saved md_view ready_db = []"
  by (simp_all add: ready_def md_view_def ready_db_def empty_db_def)

end
