(* ===== verification/Telemetry_Close.thy ===== *)
theory Telemetry_Close
  imports Telemetry
begin

text \<open>
  The end of the telemetry sink: \<open>close\<close> of \<open>src/telemetry.cpp\<close> joins the writer, so it returns only
  if the writer does. Once the stop flag is visible the writer's loop has a variant: three for
  every row still in the ring and a little for where it stands. No record is made behind the
  flag, so the variant decreases with every step of the writer.
\<close>

section \<open>Steps of the writer\<close>

text \<open>
  A step of the sink that moves the writer, and reads the flag as it is when it reads it. All
  steps move it but recording, a second \<open>close\<close> and the reset behind the join.
\<close>

definition writer_step :: "'w sqlite \<Rightarrow> 'w tel \<Rightarrow> 'w tel \<Rightarrow> bool" where
  "writer_step sq s s' \<longleftrightarrow> sink_step sq s s' \<and> tl_writer s' \<noteq> tl_writer s \<and>
     (tl_writer s = Writer_top \<longrightarrow> tl_writer s' = Writer_drain (sk_stopping (tl_sink s)) [])"

definition writer_variant :: "'w tel \<Rightarrow> nat" where
  "writer_variant s =
     (case tl_writer s of
        Writer_top \<Rightarrow> 3 * length (contents (sk_ring (tl_sink s))) + 2
      | Writer_drain draining batch \<Rightarrow>
          3 * length (contents (sk_ring (tl_sink s))) + (if draining \<and> batch = [] then 1 else 3)
      | Writer_returned \<Rightarrow> 0)"

lemma end_pass_variant:
  assumes "tl_writer s = Writer_drain draining batch"
  shows "writer_variant (end_pass sq draining batch s) < writer_variant s"
  using assms by (auto simp: end_pass_def writer_variant_def)

lemma writer_step_variant:
  assumes "writer_step sq s s'" "tel_inv s" "sk_stopping (tl_sink s)"
  shows "writer_variant s' < writer_variant s"
proof -
  have ok: "ring_ok (sk_ring (tl_sink s))" using assms(2) by (simp add: tel_inv_def)
  have st: "sink_step sq s s'" "tl_writer s' \<noteq> tl_writer s"
      "tl_writer s = Writer_top \<Longrightarrow> tl_writer s' = Writer_drain True []"
    using assms(1,3) by (simp_all add: writer_step_def)
  from st(1) show ?thesis
  proof cases
    case (step_top draining)
    with st(3) show ?thesis by (simp add: writer_variant_def)
  next
    case (step_pop draining batch seen row ring)
    have c: "contents (sk_ring (tl_sink s)) = row # contents ring" using try_pop_spec(2) [OF ok step_pop(4,5)] by simp
    show ?thesis unfolding writer_variant_def using step_pop(1,2) by (simp add: c del: length_contents)
  next
    case (step_empty draining batch seen ring)
    have c: "contents ring = contents (sk_ring (tl_sink s))" using try_pop_spec(2) [OF ok step_empty(4,6)] by simp
    let ?s = "s\<lparr>tl_sink := (tl_sink s)\<lparr>sk_ring := ring\<rparr>\<rparr>"
    have "writer_variant ?s = writer_variant s" using step_empty(2) by (simp add: writer_variant_def c del: length_contents)
    with end_pass_variant [of ?s draining batch sq] step_empty(1,2) show ?thesis by simp
  next
    case (step_full draining batch)
    with end_pass_variant [of s draining batch sq] show ?thesis by simp
  qed (use st(2) assms(3) in \<open>auto simp: close_sink_def\<close>)
qed

lemma writer_step_keeps:
  assumes "writer_step sq s s'" "tel_inv s" "sk_stopping (tl_sink s)"
  shows "tel_inv s' \<and> sk_stopping (tl_sink s')"
proof -
  have st: "sink_step sq s s'" using assms(1) by (simp add: writer_step_def)
  moreover have "sk_stopping (tl_sink s')"
    using st assms(3) by cases (auto simp: close_sink_def end_pass_def reset_db_def)
  ultimately show ?thesis using tel_inv_step assms(2) by blast
qed

lemma writer_steps_bounded:
  assumes "(writer_step sq ^^ n) s s'" "tel_inv s" "sk_stopping (tl_sink s)"
  shows "n + writer_variant s' \<le> writer_variant s"
  using assms
proof (induction n arbitrary: s)
  case (Suc n)
  obtain s1 where s1: "writer_step sq s s1" "(writer_step sq ^^ n) s1 s'" using Suc.prems(1) by (blast elim: relpowp_Suc_E2)
  have "n + writer_variant s' \<le> writer_variant s1"
    using Suc.IH [OF s1(2)] writer_step_keeps [OF s1(1) Suc.prems(2,3)] by simp
  with writer_step_variant [OF s1(1) Suc.prems(2,3)] show ?case by simp
qed simp

section \<open>The writer is never stuck\<close>

definition batch_fits :: "'w tel \<Rightarrow> bool" where
  "batch_fits s \<longleftrightarrow> length (batch_of (tl_writer s)) \<le> kMaxBatchRows"

lemma batch_fits_step: "sink_step sq s s' \<Longrightarrow> batch_fits s \<Longrightarrow> batch_fits s'"
  by (induction rule: sink_step.induct) (auto simp: batch_fits_def end_pass_def)

lemma batch_fits_reachable: "tel_reachable sq capacity w s \<Longrightarrow> batch_fits s"
  unfolding tel_reachable_def
  by (induction rule: rtranclp_induct) (auto simp: batch_fits_def tel_init_def intro: batch_fits_step [unfolded batch_fits_def])

lemma writer_enabled:
  assumes "batch_fits s" "tl_writer s \<noteq> Writer_returned"
  shows "\<exists>s'. writer_step sq s s'"
proof (cases "tl_writer s")
  case Writer_top
  then have "sink_step sq s (s\<lparr>tl_writer := Writer_drain (sk_stopping (tl_sink s)) []\<rparr>)" by (rule step_top) simp
  with Writer_top show ?thesis by (intro exI) (auto simp: writer_step_def)
next
  case (Writer_drain draining batch)
  have moves: "tl_writer (end_pass sq draining batch t) \<noteq> tl_writer s" for t
    using Writer_drain by (simp add: end_pass_def)
  consider "length batch = kMaxBatchRows" | "length batch < kMaxBatchRows" using assms(1) Writer_drain by (fastforce simp: batch_fits_def)
  then show ?thesis
  proof cases
    case 1
    from step_full [OF Writer_drain 1, of sq] moves show ?thesis by (intro exI) (auto simp: writer_step_def Writer_drain)
  next
    case 2
    let ?seen = "rg_head (sk_ring (tl_sink s))"
    obtain x ring where p: "try_pop ?seen (sk_ring (tl_sink s)) = (x, ring)" by fastforce
    have m: "may_see (rg_head_cache (sk_ring (tl_sink s))) ?seen ?seen" by (simp add: may_see_def)
    show ?thesis
    proof (cases x)
      case None
      from step_empty [OF Writer_drain 2 m] p None moves show ?thesis by (intro exI) (auto simp: writer_step_def Writer_drain)
    next
      case (Some row)
      from step_pop [OF Writer_drain 2 m] p Some show ?thesis by (intro exI) (auto simp: writer_step_def Writer_drain)
    qed
  qed
qed (use assms(2) in simp)

text \<open>So from every state with the flag set the writer can be run to its end, with nothing recorded on the way.\<close>

lemma writer_step_accepted:
  assumes "writer_step sq s s'" "sk_stopping (tl_sink s)"
  shows "tl_accepted s' = tl_accepted s"
proof -
  have "sink_step sq s s'" using assms(1) by (simp add: writer_step_def)
  then show ?thesis using assms(2) by cases (auto simp: end_pass_def)
qed

lemma writer_returns:
  assumes "capacity \<le> 2 ^ 63"
  shows "tel_reachable sq capacity w s \<Longrightarrow> sk_stopping (tl_sink s) \<Longrightarrow>
    \<exists>s'. tel_reachable sq capacity w s' \<and> tl_writer s' = Writer_returned \<and> tl_accepted s' = tl_accepted s"
proof (induction s rule: measure_induct_rule [where f = writer_variant])
  case (less s)
  show ?case
  proof (cases "tl_writer s = Writer_returned")
    case False
    obtain s1 where s1: "writer_step sq s s1" using writer_enabled [OF batch_fits_reachable [OF less.prems(1)] False] by blast
    have inv: "tel_inv s" by (rule tel_reachable_inv [OF assms less.prems(1)])
    have r: "tel_reachable sq capacity w s1"
      using less.prems(1) s1 unfolding tel_reachable_def writer_step_def by (meson rtranclp.rtrancl_into_rtrancl)
    from less.IH [OF writer_step_variant [OF s1 inv less.prems(2)] r] writer_step_keeps [OF s1 inv less.prems(2)]
      writer_step_accepted [OF s1 less.prems(2)] show ?thesis by auto
  qed (use less.prems in blast)
qed

section \<open>Properties\<close>

text \<open>
  C20: closing the sink ends. From every state in which the stop flag is set, however many rows
  are waiting and whatever SQLite answers, the writer takes at most three steps for each row in
  the ring and three more, and it can always take one until it has returned; so every run of it
  ends, and with it the join in \<open>close\<close>.
\<close>

theorem close_ends:
  assumes "capacity \<le> 2 ^ 63" "tel_reachable sq capacity w s" "sk_stopping (tl_sink s)" "(writer_step sq ^^ n) s s'"
  shows "n \<le> 3 * unat (ring_size (sk_ring (tl_sink s))) + 3 \<and> (tl_writer s' = Writer_returned \<or> (\<exists>s''. writer_step sq s' s''))"
proof -
  have inv: "tel_inv s" by (rule tel_reachable_inv [OF assms(1,2)])
  have "writer_variant s \<le> 3 * unat (ring_size (sk_ring (tl_sink s))) + 3"
    by (simp add: writer_variant_def ring_size_def occ_def split: writer_pc.split)
  with writer_steps_bounded [OF assms(4) inv assms(3)] have "n \<le> 3 * unat (ring_size (sk_ring (tl_sink s))) + 3" by simp
  moreover have "batch_fits s'"
  proof -
    have "(sink_step sq)\<^sup>*\<^sup>* s s'"
      using relpowp_imp_rtranclp [OF assms(4)] by (rule rtranclp_mono [THEN predicate2D, rotated]) (auto simp: writer_step_def)
    with assms(2) have "tel_reachable sq capacity w s'" unfolding tel_reachable_def by (rule rtranclp_trans)
    then show ?thesis by (rule batch_fits_reachable)
  qed
  ultimately show ?thesis using writer_enabled [of s' sq] by blast
qed

definition closing :: "unit tel" where
  "closing = one_dropped\<lparr>tl_sink := (tl_sink one_dropped)\<lparr>sk_stopping := True\<rparr>\<rparr>"

lemma closing_reachable: "tel_reachable refusing 2 () closing"
proof -
  have "sink_step refusing one_dropped closing" using step_close [of refusing one_dropped] by (simp add: close_sink_def closing_def)
  with one_dropped_reachable show ?thesis unfolding tel_reachable_def by (rule rtranclp.rtrancl_into_rtrancl)
qed

theorem close_ends_witness:
  "sk_stopping (tl_sink closing) \<and> tl_writer closing = Writer_top \<and> (\<exists>s''. writer_step refusing closing s'')"
proof -
  have f: "sk_stopping (tl_sink closing)" "tl_writer closing = Writer_top" by (simp_all add: closing_def one_dropped_def tel_init_def)
  from close_ends [OF _ closing_reachable f(1), of 0 closing] f show ?thesis by simp
qed

end
