(* ===== verification/Telemetry_Table.thy ===== *)
theory Telemetry_Table
  imports Telemetry_Close Sqlite_Contract
begin

text \<open>
  What the sink of \<open>src/telemetry.cpp\<close> leaves in the database over a whole run of its two threads:
  the rows counted as written, those and no others, column by column and in the order recorded.
  It holds for every database whose calls do what SQLite documents.
\<close>

section \<open>The table over a run\<close>

definition table_inv :: "'w view \<Rightarrow> entry list \<Rightarrow> 'w tel \<Rightarrow> bool" where
  "table_inv vw before s \<longleftrightarrow> vw_pending vw (sk_world (tl_sink s)) = None \<and>
     (tl_writer s \<noteq> Writer_returned \<longrightarrow> ready vw (sk_world (tl_sink s))) \<and>
     (\<exists>kept. subseq kept (tl_taken s) \<and> vw_saved vw (sk_world (tl_sink s)) = before @ map entry_of kept \<and>
       sk_rows_written (tl_sink s) = word_of_nat (length kept))"

lemma table_inv_cong:
  assumes "table_inv vw before s" "tl_taken s' = tl_taken s" "tl_writer s \<noteq> Writer_returned \<or> tl_writer s' = Writer_returned"
    and "sk_world (tl_sink s') = sk_world (tl_sink s)" "sk_rows_written (tl_sink s') = sk_rows_written (tl_sink s)"
  shows "table_inv vw before s'"
  using assms by (auto simp: table_inv_def)

lemma table_inv_end:
  assumes "sqlite_documented sq vw" "table_inv vw before s" "tl_writer s \<noteq> Writer_returned"
  shows "table_inv vw before (end_pass sq draining batch s)"
proof (cases "batch = []")
  case True
  with assms(2,3) show ?thesis by (auto simp: end_pass_def table_inv_def)
next
  case False
  obtain kept where k: "subseq kept (tl_taken s)" "vw_saved vw (sk_world (tl_sink s)) = before @ map entry_of kept"
      "sk_rows_written (tl_sink s) = word_of_nat (length kept)" "vw_pending vw (sk_world (tl_sink s)) = None"
      "ready vw (sk_world (tl_sink s))"
    using assms(2,3) by (auto simp: table_inv_def)
  from write_batch_documented [OF assms(1) k(5,4), of batch] obtain new where n: "subseq new batch"
      "ready vw (sk_world (write_batch sq batch (tl_sink s)))" "vw_pending vw (sk_world (write_batch sq batch (tl_sink s))) = None"
      "vw_saved vw (sk_world (write_batch sq batch (tl_sink s))) = vw_saved vw (sk_world (tl_sink s)) @ map entry_of new"
      "sk_rows_written (write_batch sq batch (tl_sink s)) = sk_rows_written (tl_sink s) + word_of_nat (length new)" by blast
  have "subseq (kept @ new) (tl_taken s @ batch)" using k(1) n(1) by (rule list_emb_append_mono)
  with k n False show ?thesis by (auto simp: end_pass_def table_inv_def intro!: exI [of _ "kept @ new"])
qed

lemma record_event_world:
  "record_event seen event sk = (ok, sk') \<Longrightarrow> sk_world sk' = sk_world sk \<and> sk_rows_written sk' = sk_rows_written sk"
  by (auto simp: record_event_def Let_def split: if_splits prod.splits)

lemma table_inv_step:
  assumes "sqlite_documented sq vw" "sink_step sq s s'" "table_inv vw before s"
  shows "table_inv vw before s'"
  using assms(2,3)
proof (induction rule: sink_step.induct)
  case (step_record s seen event ok sk)
  with record_event_world [OF step_record(3)] show ?case by (intro table_inv_cong [OF step_record(4)]) auto
next
  case (step_close s)
  then show ?case by (rule table_inv_cong) (auto simp: close_sink_def)
next
  case (step_top s draining)
  from step_top(3) show ?case by (rule table_inv_cong) (simp_all add: step_top(1))
next
  case (step_pop s draining batch seen row ring)
  from step_pop(5) show ?case by (rule table_inv_cong) (simp_all add: step_pop(1))
next
  case (step_empty s draining batch seen ring)
  have "table_inv vw before (s\<lparr>tl_sink := (tl_sink s)\<lparr>sk_ring := ring\<rparr>\<rparr>)"
    using step_empty(6) by (rule table_inv_cong) auto
  then show ?case by (rule table_inv_end [OF assms(1)]) (simp add: step_empty(1))
next
  case (step_full s draining batch)
  from step_full(3) show ?case by (rule table_inv_end [OF assms(1)]) (simp add: step_full(1))
next
  case (step_joined s)
  then show ?case by (auto simp: table_inv_def reset_db_def destroy_db_documented [OF assms(1)])
qed

lemma table_inv_reachable:
  assumes "sqlite_documented sq vw" "ready vw w" "vw_pending vw w = None" "tel_reachable sq capacity w s"
  shows "table_inv vw (vw_saved vw w) s"
  using assms(4) unfolding tel_reachable_def
proof (induction rule: rtranclp_induct)
  case base
  show ?case unfolding table_inv_def by (intro conjI exI [of _ "[]"]) (simp_all add: assms(2,3) tel_init_def TelemetrySink_def)
next
  case (step y z)
  from table_inv_step [OF assms(1) step(2,3)] show ?case .
qed

section \<open>Properties\<close>

text \<open>
  C13: the table is exactly what was counted. Whatever the interleaving of the recording thread
  and the writer and whichever calls of SQLite fail, with a database whose calls do what SQLite
  documents and the two statements prepared as the code prepares them, the table holds, behind what
  it held before, the rows counted as written, each once and in the order recorded, every field in
  the column of its name; when the writer has returned, every accepted row is there or counted as
  failed.
\<close>

theorem table_exact:
  assumes "capacity \<le> 2 ^ 63" "sqlite_documented sq vw" "ready vw w" "vw_pending vw w = None" "tel_reachable sq capacity w s"
  shows "\<exists>kept. subseq kept (tl_accepted s) \<and> vw_saved vw (sk_world (tl_sink s)) = vw_saved vw w @ map entry_of kept \<and>
     rows_written (stats (tl_sink s)) = word_of_nat (length kept) \<and>
     (tl_writer s = Writer_returned \<longrightarrow>
       rows_dropped_write_failed (stats (tl_sink s)) = word_of_nat (length (tl_accepted s) - length kept))"
proof -
  have inv: "tel_inv s" by (rule tel_reachable_inv [OF assms(1,5)])
  obtain kept where k: "subseq kept (tl_taken s)" "vw_saved vw (sk_world (tl_sink s)) = vw_saved vw w @ map entry_of kept"
      "sk_rows_written (tl_sink s) = word_of_nat (length kept)"
    using table_inv_reachable [OF assms(2-5)] by (auto simp: table_inv_def)
  have a: "subseq kept (tl_accepted s)" using subseq_rev_drop_many [OF k(1)] inv by (simp add: tel_inv_def)
  have "sk_dropped_write_failed (tl_sink s) = word_of_nat (length (tl_accepted s) - length kept)" if "tl_writer s = Writer_returned"
  proof -
    have t: "tl_taken s = tl_accepted s" using tel_drained [OF assms(1,5) that] by blast
    have "sk_rows_written (tl_sink s) + sk_dropped_write_failed (tl_sink s) = word_of_nat (length (tl_accepted s))"
      using inv unfolding t [symmetric] by (simp add: tel_inv_def)
    then have "sk_dropped_write_failed (tl_sink s) = word_of_nat (length (tl_accepted s)) - word_of_nat (length kept)"
      unfolding k(3) by (simp add: eq_diff_eq add.commute)
    also have "\<dots> = word_of_nat (length (tl_accepted s) - length kept)" using list_emb_length [OF a] by (simp add: of_nat_diff)
    finally show ?thesis .
  qed
  with a k show ?thesis by (auto simp: stats_def)
qed

text \<open>A run that records one event and is closed.\<close>

definition short_event :: LatencyEvent where
  "short_event = long_event\<lparr>le_correlation_id := ''c-1''\<rparr>"

lemma one_event_run:
  "\<exists>s. tel_reachable in_memory 2 ready_db s \<and> tl_writer s = Writer_returned \<and> tl_accepted s = [row_of short_event]"
proof -
  let ?s = "tel_init 2 ready_db"
  have b: "bit_ceil 2 = 2" by (simp add: bit_ceil_def bit_width.simps)
  obtain ring where p: "try_push 0 (row_of short_event) (SpscRing zero_row 2) = (True, ring)"
    by (simp add: try_push_def full_at_def SpscRing_def b Let_def)
  have "record_event 0 short_event (tl_sink ?s) = (True, (tl_sink ?s)\<lparr>sk_ring := ring\<rparr>)"
    using p by (simp add: record_event_def short_event_def kMaxCorrelationIdBytes_def tel_init_def TelemetrySink_def)
  from step_record [OF _ _ this, of in_memory] obtain s1 where s1: "sink_step in_memory ?s s1" "tl_accepted s1 = [row_of short_event]"
    by (simp add: tel_init_def TelemetrySink_def may_see_def SpscRing_def Let_def)
  let ?s2 = "s1\<lparr>tl_sink := close_sink True (tl_sink s1)\<rparr>"
  have "sink_step in_memory s1 ?s2" by (rule step_close)
  with s1(1) have "tel_reachable in_memory 2 ready_db ?s2"
    unfolding tel_reachable_def by (meson rtranclp.rtrancl_refl rtranclp.rtrancl_into_rtrancl)
  from writer_returns [OF _ this] s1(2) show ?thesis by (simp add: close_sink_def)
qed

theorem table_exact_witness:
  "\<exists>s kept. tel_reachable in_memory 2 ready_db s \<and> tl_accepted s = [row_of short_event] \<and> subseq kept [row_of short_event] \<and>
     vw_saved md_view (sk_world (tl_sink s)) = map entry_of kept \<and>
     rows_dropped_write_failed (stats (tl_sink s)) = word_of_nat (1 - length kept)"
proof -
  obtain s where s: "tel_reachable in_memory 2 ready_db s" "tl_writer s = Writer_returned" "tl_accepted s = [row_of short_event]"
    using one_event_run by blast
  from table_exact [OF _ in_memory_documented ready_db_facts(1,2) s(1)] s ready_db_facts(3) show ?thesis by fastforce
qed

end
