(* ===== verification/Executor_Process.thy ===== *)
theory Executor_Process
  imports Executor_Lifecycle Telemetry_Close
begin

text \<open>
  The process of \<open>src/main.cpp\<close>: its command line, the parts it builds and wires together, and what
  it prints when it ends. The recording callback it installs turns each received wake into a
  telemetry row; the callback and the sink's writer thread are brought together in a run of the
  sink that makes the process's records in order.
\<close>

section \<open>The command line\<close>

record options =
  op_socket :: string
  op_kill_switch :: string
  op_telemetry_db :: string

definition no_options :: options where
  "no_options = \<lparr>op_socket = [], op_kill_switch = [], op_telemetry_db = []\<rparr>"

datatype command = Serve options | Print_version | Usage

fun parse_args :: "string list \<Rightarrow> options \<Rightarrow> command" where
  "parse_args [] op = (if op_socket op = [] then Usage else Serve op)"
| "parse_args (flag # args) op =
     (if flag = ''--socket'' \<and> args \<noteq> [] then parse_args (tl args) (op\<lparr>op_socket := hd args\<rparr>)
      else if flag = ''--kill-switch'' \<and> args \<noteq> [] then parse_args (tl args) (op\<lparr>op_kill_switch := hd args\<rparr>)
      else if flag = ''--telemetry-db'' \<and> args \<noteq> [] then parse_args (tl args) (op\<lparr>op_telemetry_db := hd args\<rparr>)
      else if flag = ''--version'' then Print_version
      else Usage)"

definition kVersion :: string where
  "kVersion = ''0.1.0''"

section \<open>Wiring\<close>

definition latency_of :: "WakeRecvEvent \<Rightarrow> LatencyEvent" where
  "latency_of event = \<lparr>le_correlation_id = wr_correlation_id event, le_stage = WakeRecv,
     le_started_at_ms = wr_started_at_ms event, le_ended_at_ms = wr_ended_at_ms event,
     le_duration_ms = wr_duration_ms event, le_dry_run = wr_dry_run event\<rparr>"

text \<open>\<open>main\<close> sets no dispatch callback; the kill switch has its default time to live.\<close>

definition build_executor :: "options \<Rightarrow> executor" where
  "build_executor op =
     ExecutorServer False (op_telemetry_db op \<noteq> [])
       (if op_kill_switch op \<noteq> [] then Some (KillSwitch kDefaultTtlNs) else None)"

definition llu :: "uint64 \<Rightarrow> string" where
  "llu n = nat_digits (unat n)"

definition executor_line :: "ExecutorStats \<Rightarrow> string" where
  "executor_line st =
     ''frames='' @ llu (frames_read st) @ '' accepted='' @ llu (acks_accepted st) @ '' rejected='' @ llu (acks_rejected st) @
     '' fired='' @ llu (fires_dispatched st) @ '' refused_price='' @ llu (fires_refused_price st) @
     '' refused_kill_switch='' @ llu (fires_refused_kill_switch st) @ [CHR 0x0A]"

definition telemetry_line :: "TelemetryStats \<Rightarrow> string" where
  "telemetry_line c =
     ''telemetry rows_written='' @ llu (rows_written c) @ '' dropped_ring_full='' @ llu (rows_dropped_ring_full c) @
     '' dropped_oversized_id='' @ llu (rows_dropped_oversized_id c) @
     '' dropped_write_failed='' @ llu (rows_dropped_write_failed c) @ [CHR 0x0A]"

text \<open>
  Up to the return of \<open>serve_forever\<close>: the exit code and what was printed, or the server and the
  sink, if there is one, as the service leaves them, and whether it has returned. The sink here
  is the opened one, whose records the step relation below makes.
\<close>

datatype 'w launch = Exited nat string | Served bool server "'w sink option"

definition usage_text :: string where
  "usage_text = ''usage: executor_hotpath --socket PATH [--kill-switch PATH] [--telemetry-db PATH]'' @ [CHR 0x0A] @
     ''       executor_hotpath --version'' @ [CHR 0x0A]"

definition open_telemetry :: "'w sqlite \<Rightarrow> 'w \<Rightarrow> options \<Rightarrow> string option \<times> 'w sink option" where
  "open_telemetry sq w op =
     (if op_telemetry_db op = [] then (None, None)
      else let (failure, sk) = open_sink sq False (TelemetrySink kDefaultCapacity w) in (failure, Some sk))"

definition main_run :: "'w sqlite \<Rightarrow> 'w \<Rightarrow> answers \<Rightarrow> visit list \<Rightarrow> string list \<Rightarrow> 'w launch" where
  "main_run sq w an vs args =
     (case parse_args args no_options of
        Usage \<Rightarrow> Exited 2 usage_text
      | Print_version \<Rightarrow> Exited 0 (''executor-hotpath '' @ kVersion @ [CHR 0x0A])
      | Serve op \<Rightarrow>
          (case open_telemetry sq w op of
             (Some failure, sink) \<Rightarrow> Exited 1 (''telemetry open failed: '' @ failure @ [CHR 0x0A])
           | (None, sink) \<Rightarrow>
               (case listen an (op_socket op) 16 (new_server (build_executor op)) of
                  (Some failure, sv) \<Rightarrow> Exited 1 (''listen failed: '' @ failure @ [CHR 0x0A])
                | (None, sv) \<Rightarrow> (case serve_forever vs sv of (ended, sv') \<Rightarrow> Served ended sv' sink))))"

text \<open>What is printed after the service: the executor's line, then the sink's.\<close>

definition final_lines :: "server \<Rightarrow> 'w sink option \<Rightarrow> string" where
  "final_lines sv sink =
     executor_line (ex_stats (sv_executor sv)) @
     (case sink of None \<Rightarrow> [] | Some sk \<Rightarrow> telemetry_line (stats sk))"

text \<open>The handler of the two stop signals; the pointer is set for the time of the service.\<close>

definition request_stop :: "server option \<Rightarrow> server option" where
  "request_stop g_server = (case g_server of None \<Rightarrow> None | Some sv \<Rightarrow> Some (stop sv))"

section \<open>The sink under the process\<close>

text \<open>A run of the sink that makes the given records in order, with whatever else its threads do.\<close>

inductive sink_run :: "'w sqlite \<Rightarrow> 'w tel \<Rightarrow> LatencyEvent list \<Rightarrow> 'w tel \<Rightarrow> bool" for sq where
  run_start: "sink_run sq s [] s"
| run_record: "sink_run sq s es s' \<Longrightarrow> \<not> sk_stopping (tl_sink s') \<Longrightarrow>
    may_see (rg_tail_cache (sk_ring (tl_sink s'))) (rg_tail (sk_ring (tl_sink s'))) seen \<Longrightarrow>
    record_event seen e (tl_sink s') = (ok, sk) \<Longrightarrow>
      sink_run sq s (es @ [e]) (s'\<lparr>tl_sink := sk, tl_calls := Suc (tl_calls s'),
        tl_accepted := if ok then tl_accepted s' @ [row_of e] else tl_accepted s'\<rparr>)"
| run_other: "sink_run sq s es s' \<Longrightarrow> sink_step sq s' s'' \<Longrightarrow> tl_calls s'' = tl_calls s' \<Longrightarrow> sink_run sq s es s''"

text \<open>The records the executor made, as the callback of \<open>main\<close> passes them on.\<close>

fun recorded :: "effect list \<Rightarrow> LatencyEvent list" where
  "recorded [] = []"
| "recorded (Recorded e # effs) = latency_of e # recorded effs"
| "recorded (x # effs) = recorded effs"

lemma recorded_append [simp]: "recorded (a @ b) = recorded a @ recorded b"
  by (induction a rule: recorded.induct) simp_all

lemma sink_run_reachable:
  assumes "sink_run sq (tel_init capacity w) es s"
  shows "tel_reachable sq capacity w s \<and> tl_calls s = length es"
  using assms
proof (induction "tel_init capacity w" es s rule: sink_run.induct)
  case run_start
  then show ?case by (simp add: tel_reachable_def) (simp add: tel_init_def)
next
  case (run_record es s' seen e ok sk)
  from step_record [OF run_record(3,4,5)] run_record(2) show ?case
    by (auto simp: tel_reachable_def intro: rtranclp.rtrancl_into_rtrancl)
next
  case (run_other es s' s'')
  then show ?case by (auto simp: tel_reachable_def intro: rtranclp.rtrancl_into_rtrancl)
qed

lemma sink_run_order:
  assumes "sink_run sq s es s'" "tl_accepted s = []"
  shows "subseq (tl_accepted s') (map row_of es)"
  using assms
proof (induction rule: sink_run.induct)
  case (run_other s es s' s'')
  have "tl_accepted s'' = tl_accepted s'"
    using run_other.hyps(2,3) by (cases rule: sink_step.cases) (auto simp: end_pass_def)
  with run_other show ?case by simp
qed (auto simp: subseq_append_iff)

text \<open>Any records can be made and the sink closed behind them until its writer has returned.\<close>

lemma sink_run_records: "\<exists>s'. sink_run sq s es s' \<and> \<not> sk_stopping (tl_sink s')" if "\<not> sk_stopping (tl_sink s)"
proof (induction es rule: rev_induct)
  case (snoc e es)
  then obtain s' where s': "sink_run sq s es s'" "\<not> sk_stopping (tl_sink s')" by blast
  obtain ok sk where r: "record_event (rg_tail (sk_ring (tl_sink s'))) e (tl_sink s') = (ok, sk)" by fastforce
  have "\<not> sk_stopping sk" using r s'(2) by (auto simp: record_event_def Let_def split: if_splits prod.splits)
  with run_record [OF s' _ r] show ?case by (auto simp: may_see_def)
qed (use run_start that in blast)

lemma sink_run_returns:
  assumes "capacity \<le> 2 ^ 63"
  shows "sink_run sq (tel_init capacity w) es s \<Longrightarrow> sk_stopping (tl_sink s) \<Longrightarrow>
    \<exists>s'. sink_run sq (tel_init capacity w) es s' \<and> tl_writer s' = Writer_returned"
proof (induction s rule: measure_induct_rule [where f = writer_variant])
  case (less s)
  show ?case
  proof (cases "tl_writer s = Writer_returned")
    case False
    note r = conjunct1 [OF sink_run_reachable [OF less.prems(1)]]
    obtain s1 where s1: "writer_step sq s s1" using writer_enabled [OF batch_fits_reachable [OF r] False] by blast
    have st: "sink_step sq s s1" using s1 by (simp add: writer_step_def)
    then have "tl_calls s1 = tl_calls s" using less.prems(2) by cases (auto simp: end_pass_def)
    note run = run_other [OF less.prems(1) st this]
    have inv: "tel_inv s" by (rule tel_reachable_inv [OF assms r])
    from less.IH [OF writer_step_variant [OF s1 inv less.prems(2)] run] writer_step_keeps [OF s1 inv less.prems(2)]
    show ?thesis by blast
  qed (use less.prems in blast)
qed

lemma sink_run_completes:
  assumes "capacity \<le> 2 ^ 63"
  shows "\<exists>s. sink_run sq (tel_init capacity w) es s \<and> tl_writer s = Writer_returned"
proof -
  have "\<not> sk_stopping (tl_sink (tel_init capacity w))" by (simp add: tel_init_def TelemetrySink_def)
  then obtain s where s: "sink_run sq (tel_init capacity w) es s" using sink_run_records by blast
  show ?thesis
    by (rule sink_run_returns [OF assms run_other [OF s step_close]]) (simp_all add: close_sink_def)
qed

section \<open>The executor under the process\<close>

text \<open>
  With the recording callback set there is one record per outcome of the fire path; without a
  dispatch callback nothing is dispatched.
\<close>

definition wired :: "executor \<Rightarrow> bool" where
  "wired ex \<longleftrightarrow> \<not> ex_dispatch ex \<and> (\<forall>fr. Dispatch fr \<notin> set (ex_effects ex)) \<and>
     (if ex_record_wake_recv ex then word_of_nat (length (recorded (ex_effects ex))) = fires_total (ex_stats ex)
      else recorded (ex_effects ex) = [])"

lemma handle_fire_config:
  "ex_dispatch (snd (handle_fire now exists m ex)) = ex_dispatch ex"
  "ex_record_wake_recv (snd (handle_fire now exists m ex)) = ex_record_wake_recv ex"
  by (auto simp: handle_fire_def emit_def Let_def split: option.splits prod.splits)

lemma serve_frame_config:
  "ex_dispatch (snd (serve_frame ps body ex)) = ex_dispatch ex"
  "ex_record_wake_recv (snd (serve_frame ps body ex)) = ex_record_wake_recv ex"
  by (auto simp: serve_frame_def send_ack_eq emit_def Let_def handle_fire_config split: sum.splits prod.splits SendResult.splits)

lemma wired_frame:
  assumes "wired ex"
  shows "wired (snd (serve_frame ps body ex))"
proof (cases rule: serve_frame_cases [of body ps ex])
  case 1
  with assms show ?thesis by (simp add: wired_def serve_frame_config fires_total_def)
next
  case 2
  with assms show ?thesis by (simp add: wired_def serve_frame_config fires_total_def count_accepted_def)
next
  case (3 m)
  have "ex_dispatch (accept_wake ps m ex) = ex_dispatch ex" "ex_record_wake_recv (accept_wake ps m ex) = ex_record_wake_recv ex"
    by (simp_all add: accept_wake_def handle_fire_config)
  with 3 assms show ?thesis by (auto simp: wired_def accept_wake_effects accept_wake_stats)
qed

lemma wired_connection: "wired ex \<Longrightarrow> wired (snd (serve_connection pss rxs ex))"
  by (rule serve_connection_invariant [where P = "\<lambda>f. wired"]) (auto intro: wired_frame)

lemma wired_service: "wired (sv_executor sv) \<Longrightarrow> wired (sv_executor (snd (serve_forever vs sv)))"
  by (rule serve_forever_executor) (auto intro: wired_connection)

lemma wired_start: "wired (build_executor op)"
  by (simp add: wired_def build_executor_def ExecutorServer_def zero_stats_def fires_total_def)

lemma main_run_served:
  assumes "main_run sq w an vs args = Served ended sv sink"
  obtains op sv0 where "parse_args args no_options = Serve op" "open_telemetry sq w op = (None, sink)"
    "listen an (op_socket op) 16 (new_server (build_executor op)) = (None, sv0)" "serve_forever vs sv0 = (ended, sv)"
  using assms by (auto simp: main_run_def split: command.splits option.splits prod.splits)

lemma main_run_wired:
  assumes "main_run sq w an vs args = Served ended sv sink"
  shows "wired (sv_executor sv)"
proof -
  from assms obtain op sv0 where l: "listen an (op_socket op) 16 (new_server (build_executor op)) = (None, sv0)"
      "serve_forever vs sv0 = (ended, sv)" by (rule main_run_served)
  then have "sv_executor sv0 = build_executor op" using listen_fields(1) [of an "op_socket op" 16 "new_server (build_executor op)"] by simp
  with wired_service [of sv0 vs] wired_start [of op] l(2) show ?thesis by simp
qed

lemma serve_connection_records:
  "ex_record_wake_recv (snd (serve_connection pss rxs ex)) = ex_record_wake_recv ex"
  by (rule serve_connection_invariant [where P = "\<lambda>f ex'. ex_record_wake_recv ex' = ex_record_wake_recv ex"])
    (simp_all add: serve_frame_config)

lemma serve_forever_records:
  "ex_record_wake_recv (sv_executor (snd (serve_forever vs sv))) = ex_record_wake_recv (sv_executor sv)"
  by (rule serve_forever_executor [where P = "\<lambda>ex. ex_record_wake_recv ex = ex_record_wake_recv (sv_executor sv)"])
    (simp_all add: serve_connection_records)

lemma main_run_records:
  assumes "main_run sq w an vs args = Served ended sv (Some sk)"
  shows "word_of_nat (length (recorded (ex_effects (sv_executor sv)))) = fires_total (ex_stats (sv_executor sv))"
proof -
  from assms obtain op sv0 where l: "open_telemetry sq w op = (None, Some sk)"
      "listen an (op_socket op) 16 (new_server (build_executor op)) = (None, sv0)" "serve_forever vs sv0 = (ended, sv)"
    by (rule main_run_served)
  then have "ex_record_wake_recv (sv_executor sv0)"
    using listen_fields(1) [of an "op_socket op" 16 "new_server (build_executor op)"]
    by (simp add: open_telemetry_def build_executor_def ExecutorServer_def split: if_splits)
  then have "ex_record_wake_recv (sv_executor sv)" using serve_forever_records [of vs sv0] l(3) by simp
  with main_run_wired [OF assms] show ?thesis by (simp add: wired_def)
qed

lemma parse_args_pairs:
  assumes "\<forall>(f, v) \<in> set fvs. f \<in> {''--socket'', ''--kill-switch'', ''--telemetry-db''}"
  shows "parse_args (concat (map (\<lambda>(f, v). [f, v]) fvs)) op =
    parse_args [] (fold (\<lambda>(f, v) op. if f = ''--socket'' then op\<lparr>op_socket := v\<rparr>
      else if f = ''--kill-switch'' then op\<lparr>op_kill_switch := v\<rparr> else op\<lparr>op_telemetry_db := v\<rparr>) fvs op)"
  using assms by (induction fvs arbitrary: op) auto

section \<open>Properties\<close>

text \<open>
  C12: the two lines the process prints when it ends agree. In every run that served with a
  telemetry database, once the sink's writer has returned, the rows written and the three kinds
  of dropped rows add up to the fires and the two kinds of refusals of the executor; the rows
  the writer took from the ring are among those of the wakes received, in the order received; and the process,
  which sets no dispatch callback, has dispatched no order.
\<close>

theorem process_accounting:
  assumes "main_run sq w an vs args = Served ended sv (Some sk)"
    and "sink_run sq (tel_init kDefaultCapacity (sk_world sk)) (recorded (ex_effects (sv_executor sv))) s"
    and "tl_writer s = Writer_returned"
  shows "rows_written (stats (tl_sink s)) + rows_dropped_write_failed (stats (tl_sink s)) +
      rows_dropped_ring_full (stats (tl_sink s)) + rows_dropped_oversized_id (stats (tl_sink s)) =
      fires_dispatched (ex_stats (sv_executor sv)) + fires_refused_price (ex_stats (sv_executor sv)) +
      fires_refused_kill_switch (ex_stats (sv_executor sv)) \<and>
    subseq (tl_taken s) (map row_of (recorded (ex_effects (sv_executor sv)))) \<and>
    (\<forall>fr. Dispatch fr \<notin> set (ex_effects (sv_executor sv)))"
proof -
  have c: "kDefaultCapacity \<le> 2 ^ 63" by (simp add: kDefaultCapacity_def)
  note r = sink_run_reachable [OF assms(2)]
  note d = tel_drained [OF c conjunct1 [OF r] assms(3)]
  have "subseq (tl_accepted s) (map row_of (recorded (ex_effects (sv_executor sv))))"
    by (rule sink_run_order [OF assms(2)]) (simp add: tel_init_def)
  with d r main_run_records [OF assms(1)] main_run_wired [OF assms(1)] show ?thesis
    by (simp add: wired_def fires_total_def)
qed

text \<open>A service of one connection with one wake.\<close>

definition one_wake_visit :: "WakeMessage \<Rightarrow> visit" where
  "one_wake_visit m = sample_visit\<lparr>vi_passes := [sample_pass, sample_pass], vi_rxs := [Chunk (encode_frame_message m)] @ close_mark True\<rparr>"

definition good_wake :: "WakeMessage \<Rightarrow> bool" where
  "good_wake m \<longleftrightarrow> wf_message m \<and> length (encode_frame_message m) \<le> kFrameLengthBytes + unat kMaxFrameBytes \<and>
     sends_whole sample_pass (wake_ack sample_pass m)"

lemma one_wake_served:
  assumes "good_wake m"
  shows "serve_connection (vi_passes (one_wake_visit m)) (vi_rxs (one_wake_visit m)) ex = (Return, accept_wake sample_pass m ex)"
proof -
  have "\<not> ps_stopping sample_pass" by (simp add: sample_pass_def)
  with serve_connection_eq [of "[Chunk (encode_frame_message m)]" "[sample_pass, sample_pass]" True ex]
    serve_stream_wakes [of "[sample_pass]" "[m]" "[sample_pass]" "[]" True ex] assms
  show ?thesis by (simp add: one_wake_visit_def good_wake_def kFrameLengthBytes_def del: serve_connection.simps)
qed

definition one_wake_answers :: answers where
  "one_wake_answers = sample_answers\<lparr>an_chmod := True\<rparr>"

definition one_wake_args :: "string list" where
  "one_wake_args = [''--socket'', ''/tmp/x.sock'', ''--telemetry-db'', ''t.db'']"

definition one_wake_options :: options where
  "one_wake_options = no_options\<lparr>op_socket := ''/tmp/x.sock'', op_telemetry_db := ''t.db''\<rparr>"

lemma one_wake_service:
  assumes "good_wake m" "open_telemetry sq w one_wake_options = (None, Some sk)"
  shows "\<exists>sv. main_run sq w one_wake_answers [one_wake_visit m] one_wake_args = Served True sv (Some sk) \<and>
     sv_executor sv = accept_wake sample_pass m (ExecutorServer False True None)"
proof -
  have p: "parse_args one_wake_args no_options = Serve one_wake_options"
    by (simp add: one_wake_args_def one_wake_options_def no_options_def)
  obtain r sv0 where l: "listen one_wake_answers (op_socket one_wake_options) 16 (new_server (build_executor one_wake_options)) = (r, sv0)"
    by fastforce
  have "r = None" using listen_result [of one_wake_answers "op_socket one_wake_options" 16 "new_server (build_executor one_wake_options)"] l
    by (simp add: one_wake_answers_def sample_answers_def stages_def one_wake_options_def)
  moreover have sv0: "sv_executor sv0 = ExecutorServer False True None" "\<not> sv_stopping sv0" "0 \<le> sv_listen_fd sv0"
    using l by (auto simp: one_wake_answers_def one_wake_options_def sample_listen_defs build_executor_def no_options_def)
  moreover have "\<exists>sv. serve_forever [one_wake_visit m] sv0 = (True, sv) \<and> sv_executor sv = accept_wake sample_pass m (sv_executor sv0)"
  proof -
    have "serve_one_connection (one_wake_visit m) sv0 = (Some False, call (Sys_close 6) ((call (Sys_accept (Some 6)) sv0)\<lparr>
        sv_executor := accept_wake sample_pass m (sv_executor sv0), sv_connection_fd := - 1\<rparr>))"
      using serve_one_accepts [OF sv0(2,3) _ _ _ one_wake_served [OF assms(1)], of 6]
      by (simp add: one_wake_visit_def sample_visit_def del: serve_connection.simps)
    then show ?thesis by simp
  qed
  ultimately show ?thesis using p assms(2) l by (auto simp: main_run_def)
qed

lemma one_wake_recorded:
  "recorded (ex_effects (accept_wake sample_pass m (ExecutorServer False True None))) = [latency_of (wake_span sample_pass m)]"
  by (simp add: accept_wake_effects ExecutorServer_def)

text \<open>A wake whose correlation id is too long for a row.\<close>

definition long_wake :: WakeMessage where
  "long_wake = sample_message\<lparr>correlation_id := replicate 129 CHR ''x''\<rparr>"

definition willing :: "unit sqlite" where
  "willing = refusing\<lparr>sq_exec := (\<lambda>_ w. (True, w)), sq_open := (\<lambda>w. (True, w)), sq_busy_timeout := (\<lambda>_ w. (True, w)),
     sq_prepare := (\<lambda>_ _ w. (True, w))\<rparr>"

lemma good_long_wake: "good_wake long_wake"
  unfolding good_wake_def
proof (intro conjI)
  have "valid_utf8 (replicate 129 CHR ''x'')" by (rule ascii_valid) (simp add: ascii_def)
  then show "wf_message long_wake" using wf_sample by (simp add: wf_message_def long_wake_def sample_message_def)
  show "length (encode_frame_message long_wake) \<le> kFrameLengthBytes + unat kMaxFrameBytes"
    using message_text_length [of long_wake]
    by (simp add: encode_frame_message_eq kFrameLengthBytes_def kMaxFrameBytes_def long_wake_def sample_message_def default_WakeMessage_def)
  show "sends_whole sample_pass (wake_ack sample_pass long_wake)"
    by (rule sends_sample, use ack_text_length [of "wake_ack sample_pass long_wake"] in
      \<open>simp add: encode_frame_ack_eq kFrameLengthBytes_def wake_ack_def accepted_ack_def long_wake_def\<close>)
qed

lemma willing_opens:
  "open_telemetry willing () one_wake_options = (None, Some ((TelemetrySink kDefaultCapacity ())\<lparr>sk_db := True\<rparr>))"
  by (simp add: open_telemetry_def open_sink_def open_calls_def has_latency_events_def willing_def refusing_def TelemetrySink_def one_wake_options_def)

theorem process_accounting_witness:
  "\<exists>(sv :: server) s. main_run willing () one_wake_answers [one_wake_visit long_wake] one_wake_args =
      Served True sv (Some ((TelemetrySink kDefaultCapacity ())\<lparr>sk_db := True\<rparr>)) \<and>
     recorded (ex_effects (sv_executor sv)) = [latency_of (wake_span sample_pass long_wake)] \<and>
     rows_written (stats (tl_sink s)) + rows_dropped_write_failed (stats (tl_sink s)) +
      rows_dropped_ring_full (stats (tl_sink s)) + rows_dropped_oversized_id (stats (tl_sink (s :: unit tel))) =
      fires_dispatched (ex_stats (sv_executor sv)) + fires_refused_price (ex_stats (sv_executor sv)) +
      fires_refused_kill_switch (ex_stats (sv_executor sv))"
proof -
  obtain sv where sv: "main_run willing () one_wake_answers [one_wake_visit long_wake] one_wake_args = Served True sv (Some ((TelemetrySink kDefaultCapacity ())\<lparr>sk_db := True\<rparr>))"
      "sv_executor sv = accept_wake sample_pass long_wake (ExecutorServer False True None)"
    using one_wake_service [OF good_long_wake willing_opens] by blast
  obtain s where "sink_run willing (tel_init kDefaultCapacity ()) [latency_of (wake_span sample_pass long_wake)] s" "tl_writer s = Writer_returned"
    using sink_run_completes [of kDefaultCapacity willing] by (auto simp: kDefaultCapacity_def)
  then show ?thesis using process_accounting [OF sv(1), of s] sv one_wake_recorded by (intro exI [of _ sv] exI [of _ s]) (simp add: TelemetrySink_def)
qed

end
