(* ===== verification/Process_Table.thy ===== *)
theory Process_Table
  imports Executor_Process Telemetry_Table
begin

text \<open>
  From a wake on the socket to a row of \<open>latency_events\<close>: the executor of \<open>src/executor.cpp\<close>, the
  callback of \<open>src/main.cpp\<close> and the sink of \<open>src/telemetry.cpp\<close> together, over a whole run of the
  process and whatever the two threads of the sink and SQLite do.
\<close>

section \<open>From records to rows\<close>

fun wakes_recorded :: "effect list \<Rightarrow> WakeRecvEvent list" where
  "wakes_recorded [] = []"
| "wakes_recorded (Recorded e # effs) = e # wakes_recorded effs"
| "wakes_recorded (x # effs) = wakes_recorded effs"

lemma recorded_wakes: "recorded effs = map latency_of (wakes_recorded effs)"
  by (induction effs rule: recorded.induct) simp_all

text \<open>The row of \<open>latency_events\<close> that stands for a wake, column by column.\<close>

definition wake_entry :: "WakeRecvEvent \<Rightarrow> entry" where
  "wake_entry event = [(''correlation_id'', Sql_text (wr_correlation_id event)), (''stage'', Sql_text ''wake_recv''),
     (''started_at_ms'', Sql_integer (wr_started_at_ms event)), (''ended_at_ms'', Sql_integer (wr_ended_at_ms event)),
     (''duration_ms'', sql_double (wr_duration_ms event)), (''metadata_json'', Sql_text (kDryRunMetadata (wr_dry_run event)))]"

definition fits_row :: "LatencyEvent \<Rightarrow> bool" where
  "fits_row event \<longleftrightarrow> length (le_correlation_id event) \<le> kMaxCorrelationIdBytes"

lemma entry_of_wake:
  assumes "fits_row (latency_of event)"
  shows "entry_of (row_of (latency_of event)) = wake_entry event"
  using row_id_roundtrip [of "latency_of event"] assms
  by (simp add: fits_row_def entry_of_def wake_entry_def) (simp add: row_of_def latency_of_def)

lemma subseq_map_ex:
  assumes "subseq ys (map f xs)"
  obtains zs where "subseq zs xs" "ys = map f zs"
  using assms by (auto simp: subseq_conv_nths nths_map)

lemma record_event_fits: "record_event seen event sk = (True, sk') \<Longrightarrow> fits_row event"
  by (auto simp: record_event_def fits_row_def Let_def split: if_splits prod.splits)

text \<open>The rows accepted are those of records that fit, in the order recorded.\<close>

lemma sink_run_accepts:
  assumes "sink_run sq s es s'" "tl_accepted s = []"
  shows "subseq (tl_accepted s') (map row_of (filter fits_row es))"
  using assms
proof (induction rule: sink_run.induct)
  case (run_record s es s' seen e ok sk)
  show ?case
  proof (cases ok)
    case True
    with run_record(4) have "fits_row e" by (auto dest: record_event_fits)
    with True run_record show ?thesis by (simp add: subseq_append_iff) blast
  next
    case False
    then show ?thesis using run_record by (auto simp: subseq_append_iff)
  qed
next
  case (run_other s es s' s'')
  have "tl_accepted s'' = tl_accepted s'"
    using run_other.hyps(2,3) by (cases rule: sink_step.cases) (auto simp: end_pass_def)
  with run_other show ?case by simp
qed simp

section \<open>The table\<close>

text \<open>Over a run of the sink: what is saved stands for wakes recorded, and nothing else is.\<close>

lemma sink_run_table:
  assumes "sqlite_documented sq vw" "ready vw w" "vw_pending vw w = None" "capacity \<le> 2 ^ 63"
    and "sink_run sq (tel_init capacity w) (map latency_of wakes) s"
  obtains kept where "subseq kept wakes" "vw_saved vw (sk_world (tl_sink s)) = vw_saved vw w @ map wake_entry kept"
    "sk_rows_written (tl_sink s) = word_of_nat (length kept)"
proof -
  note r = conjunct1 [OF sink_run_reachable [OF assms(5)]]
  obtain rows where k: "subseq rows (tl_taken s)" "vw_saved vw (sk_world (tl_sink s)) = vw_saved vw w @ map entry_of rows"
      "sk_rows_written (tl_sink s) = word_of_nat (length rows)"
    using table_inv_reachable [OF assms(1-3) r] by (auto simp: table_inv_def)
  have "tl_accepted (tel_init capacity w) = []" by (simp add: tel_init_def)
  note a = sink_run_accepts [OF assms(5) this]
  have "subseq rows (tl_accepted s)"
    using subseq_rev_drop_many [OF k(1)] tel_reachable_inv [OF assms(4) r] by (simp add: tel_inv_def)
  with a have "subseq rows (map row_of (filter fits_row (map latency_of wakes)))" by (rule subseq_order.order_trans [rotated])
  then have "subseq rows (map (row_of \<circ> latency_of) (filter (fits_row \<circ> latency_of) wakes))" by (simp add: filter_map)
  then obtain kept where kept: "subseq kept (filter (fits_row \<circ> latency_of) wakes)" "rows = map (row_of \<circ> latency_of) kept"
    by (rule subseq_map_ex)
  have "set kept \<subseteq> set (filter (fits_row \<circ> latency_of) wakes)"
    using list_emb_set [OF kept(1)] by blast
  then have "map entry_of rows = map wake_entry kept" by (auto simp: kept(2) entry_of_wake)
  moreover have "subseq kept wakes" using kept(1) subseq_filter_left subseq_order.order_trans by blast
  ultimately show thesis using that k kept(2) by simp
qed

lemma main_run_opened:
  assumes "main_run sq w an vs args = Served ended sv (Some sk)"
  shows "\<exists>sk0. open_sink sq False sk0 = (None, sk)"
proof -
  from assms obtain op where "open_telemetry sq w op = (None, Some sk)" by (rule main_run_served)
  then show ?thesis by (auto simp: open_telemetry_def split: if_splits prod.splits)
qed

lemma same_count:
  assumes "length a < 2 ^ LENGTH('w :: len)" "length b < 2 ^ LENGTH('w)" "(word_of_nat (length a) :: 'w word) = word_of_nat (length b)"
  shows "length a = length b"
  using arg_cong [OF assms(3), of unat] assms(1,2) by (simp add: unat_of_nat)

section \<open>Properties\<close>

text \<open>
  C11: what a run of the process leaves in its telemetry database. In every run that served with a
  telemetry database, with a database whose calls do what SQLite documents, and whatever the
  interleaving of the recording and the writing thread and whichever calls of SQLite fail: the
  table holds, behind what it held, one row for each wake of some subsequence of the wakes the
  executor received, in the order received, with the correlation id, the times, the duration and
  the mode of that wake each in the column of its name, and the count of rows written is their
  number; and when the process ends having dropped nothing, it is one row for every wake received.
\<close>

theorem process_table:
  assumes "main_run sq w an vs args = Served ended sv (Some sk)"
    and "sqlite_documented sq vw" "vw_pending vw (sk_world sk) = None"
    and "sink_run sq (tel_init kDefaultCapacity (sk_world sk)) (recorded (ex_effects (sv_executor sv))) s"
    and "tl_writer s = Writer_returned" "length (wakes_recorded (ex_effects (sv_executor sv))) < 2 ^ 64"
  shows "word_of_nat (length (wakes_recorded (ex_effects (sv_executor sv)))) = fires_total (ex_stats (sv_executor sv)) \<and>
    (\<exists>kept. subseq kept (wakes_recorded (ex_effects (sv_executor sv))) \<and>
      vw_saved vw (sk_world (tl_sink s)) = vw_saved vw (sk_world sk) @ map wake_entry kept \<and>
      rows_written (stats (tl_sink s)) = word_of_nat (length kept) \<and>
      (rows_dropped_write_failed (stats (tl_sink s)) = 0 \<and> rows_dropped_ring_full (stats (tl_sink s)) = 0 \<and>
       rows_dropped_oversized_id (stats (tl_sink s)) = 0 \<longrightarrow> kept = wakes_recorded (ex_effects (sv_executor sv))))"
    (is "_ = _ \<and> (\<exists>kept. subseq kept ?wakes \<and> _)")
proof -
  have c: "kDefaultCapacity \<le> 2 ^ 63" by (simp add: kDefaultCapacity_def)
  note run = assms(4) [unfolded recorded_wakes]
  have ready: "ready vw (sk_world sk)" using main_run_opened [OF assms(1)] open_ready [OF assms(2)] by blast
  note d = tel_drained [OF c conjunct1 [OF sink_run_reachable [OF run]] assms(5)]
  obtain kept where k: "subseq kept ?wakes" "vw_saved vw (sk_world (tl_sink s)) = vw_saved vw (sk_world sk) @ map wake_entry kept"
      "sk_rows_written (tl_sink s) = word_of_nat (length kept)" by (rule sink_run_table [OF assms(2) ready assms(3) c run])
  have "kept = ?wakes" if "rows_dropped_write_failed (stats (tl_sink s)) = 0" "rows_dropped_ring_full (stats (tl_sink s)) = 0"
      "rows_dropped_oversized_id (stats (tl_sink s)) = 0"
  proof -
    have "(word_of_nat (length kept) :: uint64) = word_of_nat (length ?wakes)"
      using d that k(3) sink_run_reachable [OF run] by (simp add: stats_def)
    then have "length kept = length ?wakes"
      using assms(6) list_emb_length [OF k(1)] by (intro same_count [where 'w = 64]) simp_all
    with k(1) show ?thesis by (rule subseq_same_length)
  qed
  with k main_run_records [OF assms(1)] show ?thesis by (simp add: recorded_wakes stats_def) blast
qed

lemma in_memory_opens:
  "open_telemetry in_memory empty_db one_wake_options = (None, Some ((TelemetrySink kDefaultCapacity ready_db)\<lparr>sk_db := True\<rparr>))"
  by (simp add: open_telemetry_def open_sink_def open_calls_def has_latency_events_def in_memory_def md_exec_def kSchemaSql_def
    TelemetrySink_def one_wake_options_def ready_db_def empty_db_def fun_eq_iff)

lemma good_sample: "good_wake sample_message"
  using sample_wake_ok by (simp add: good_wake_def)

lemma one_wake_wakes:
  "wakes_recorded (ex_effects (accept_wake sample_pass m (ExecutorServer False True None))) = [wake_span sample_pass m]"
  by (simp add: accept_wake_effects ExecutorServer_def)

theorem process_table_witness:
  "\<exists>(sv :: server) (s :: memory_db tel) kept. main_run in_memory empty_db one_wake_answers [one_wake_visit sample_message] one_wake_args =
      Served True sv (Some ((TelemetrySink kDefaultCapacity ready_db)\<lparr>sk_db := True\<rparr>)) \<and>
     subseq kept [wake_span sample_pass sample_message] \<and> vw_saved md_view (sk_world (tl_sink s)) = map wake_entry kept \<and>
     rows_written (stats (tl_sink s)) = word_of_nat (length kept)"
proof -
  let ?sk = "(TelemetrySink kDefaultCapacity ready_db)\<lparr>sk_db := True\<rparr>"
  obtain sv where sv: "main_run in_memory empty_db one_wake_answers [one_wake_visit sample_message] one_wake_args = Served True sv (Some ?sk)"
      "sv_executor sv = accept_wake sample_pass sample_message (ExecutorServer False True None)"
    using one_wake_service [OF good_sample in_memory_opens] by blast
  have w: "sk_world ?sk = ready_db" "vw_saved md_view ready_db = []" by (simp add: TelemetrySink_def) (rule ready_db_facts(3))
  have r: "wakes_recorded (ex_effects (sv_executor sv)) = [wake_span sample_pass sample_message]"
    unfolding sv(2) by (rule one_wake_wakes)
  have c: "kDefaultCapacity \<le> 2 ^ 63" by (simp add: kDefaultCapacity_def)
  obtain s where s: "sink_run in_memory (tel_init kDefaultCapacity (sk_world ?sk)) (recorded (ex_effects (sv_executor sv))) s"
      "tl_writer s = Writer_returned"
    using sink_run_completes [OF c, of in_memory "sk_world ?sk"] by blast
  have p: "vw_pending md_view (sk_world ?sk) = None" unfolding w(1) by (rule ready_db_facts(2))
  have "length [wake_span sample_pass sample_message] < 2 ^ 64" by simp
  from process_table [OF sv(1) in_memory_documented p s, unfolded r w append_Nil, OF this] obtain kept where "subseq kept [wake_span sample_pass sample_message]"
      "vw_saved md_view (sk_world (tl_sink s)) = map wake_entry kept" "rows_written (stats (tl_sink s)) = word_of_nat (length kept)"
    by blast
  with sv(1) show ?thesis by blast
qed

end
