(* ===== verification/Poller_Client.thy ===== *)
theory Poller_Client
  imports Executor_Properties
begin

text \<open>
  The client of \<open>bench/poller_client.cpp\<close>: one frame out, then its ack in. The socket is the
  argument, as for the executor; \<open>errno_text\<close> is what the C library says of \<open>errno\<close> when a call
  fails. The client of a connection and the executor at its other end are then put together.
\<close>

section \<open>The client\<close>

datatype 'a polled = Polled 'a | Poll_error string | Poll_waits

fun client_read :: "string \<Rightarrow> nat \<Rightarrow> byte list \<Rightarrow> rx list \<Rightarrow> byte list polled \<times> rx list" where
  "client_read errno_text count filled rxs =
     (if length filled < count then
        (case rxs of
           [] \<Rightarrow> (Poll_waits, [])
         | Chunk bs # rxs' \<Rightarrow>
             if length bs \<le> count - length filled then client_read errno_text count (filled @ bs) rxs'
             else (Polled (filled @ take (count - length filled) bs), Chunk (drop (count - length filled) bs) # rxs')
         | Closed # rxs' \<Rightarrow> (Poll_error ''executor closed the connection'', Closed # rxs')
         | Read_fault eintr stop # rxs' \<Rightarrow> (Poll_error (''read: '' @ errno_text), rxs'))
      else (Polled filled, rxs))"

declare client_read.simps [simp del]

fun client_send :: "string \<Rightarrow> byte list \<Rightarrow> tx list \<Rightarrow> unit polled \<times> byte list" where
  "client_send errno_text [] txs = (Polled (), [])"
| "client_send errno_text (b # frame) [] = (Poll_waits, [])"
| "client_send errno_text (b # frame) (Wrote n # txs) =
     (let (res, sent) = client_send errno_text (drop n (b # frame)) txs in (res, take n (b # frame) @ sent))"
| "client_send errno_text (b # frame) (Send_fault eintr stop # txs) =
     (if eintr then client_send errno_text (b # frame) txs else (Poll_error (''send: '' @ errno_text), []))"

definition receive_ack :: "string \<Rightarrow> rx list \<Rightarrow> WakeAck polled" where
  "receive_ack errno_text rxs =
     (case client_read errno_text kFrameLengthBytes [] rxs of
        (Poll_error e, _) \<Rightarrow> Poll_error e
      | (Poll_waits, _) \<Rightarrow> Poll_waits
      | (Polled prefix, rxs1) \<Rightarrow>
          (case decode_frame_length prefix of
             Inl e \<Rightarrow> Poll_error (''ack frame length: '' @ message e)
           | Inr len \<Rightarrow>
               (case client_read errno_text (unat len) [] rxs1 of
                  (Poll_error e, _) \<Rightarrow> Poll_error e
                | (Poll_waits, _) \<Rightarrow> Poll_waits
                | (Polled body, _) \<Rightarrow>
                    (case decode_wake_ack body of
                       Inl e \<Rightarrow> Poll_error (''ack body: '' @ message e)
                     | Inr ack \<Rightarrow> Polled ack))))"

definition send_wake :: "string \<Rightarrow> bool \<Rightarrow> WakeMessage \<Rightarrow> byte list \<Rightarrow> tx list \<Rightarrow> rx list \<Rightarrow> WakeAck polled \<times> byte list" where
  "send_wake errno_text have_fd m frame txs rxs =
     (if \<not> have_fd then (Poll_error ''not connected'', [])
      else case client_send errno_text (encode_frame_into_message m frame) txs of
             (Poll_error e, sent) \<Rightarrow> (Poll_error e, sent)
           | (Poll_waits, sent) \<Rightarrow> (Poll_waits, sent)
           | (Polled _, sent) \<Rightarrow> (receive_ack errno_text rxs, sent))"

section \<open>Reads and sends\<close>

definition undisturbed :: "rx list \<Rightarrow> bool" where
  "undisturbed rxs \<longleftrightarrow> (\<forall>e \<in> set rxs. \<exists>bs. e = Chunk bs)"

lemma undisturbed_simps [simp]: "undisturbed []" "undisturbed (Chunk bs # rxs) = undisturbed rxs"
  by (simp_all add: undisturbed_def)

lemma client_read_full: "count \<le> length filled \<Longrightarrow> client_read errno_text count filled rxs = (Polled filled, rxs)"
  by (simp add: client_read.simps [of _ count filled])

lemma client_read_enough:
  assumes "undisturbed rxs" "length filled \<le> count" "count \<le> length filled + length (bytes_of rxs)"
  shows "\<exists>rxs'. client_read errno_text count filled rxs = (Polled (take count (filled @ bytes_of rxs)), rxs') \<and>
    undisturbed rxs' \<and> bytes_of rxs' = drop count (filled @ bytes_of rxs)"
  using assms
proof (induction rxs arbitrary: filled)
  case Nil
  then show ?case by (auto simp: client_read_full)
next
  case (Cons e rxs)
  obtain bs where e: "e = Chunk bs" "undisturbed rxs" using Cons.prems(1) by (auto simp: undisturbed_def)
  show ?case
  proof (cases "length filled < count")
    case False
    with Cons.prems show ?thesis by (auto simp: client_read_full)
  next
    case less: True
    show ?thesis
    proof (cases "length bs \<le> count - length filled")
      case True
      with less e Cons.IH [of "filled @ bs"] Cons.prems show ?thesis by (simp add: client_read.simps [of _ count filled])
    next
      case False
      with less e show ?thesis by (auto simp: client_read.simps [of _ count filled])
    qed
  qed
qed

lemma client_send_prefix:
  "client_send errno_text frame txs = (res, sent) \<Longrightarrow> sent = take (length sent) frame \<and> (res = Polled () \<longleftrightarrow> sent = frame)"
proof (induction errno_text frame txs arbitrary: res sent rule: client_send.induct)
  case (3 errno_text b frame n txs)
  obtain res' sent' where r: "client_send errno_text (drop n (b # frame)) txs = (res', sent')" by fastforce
  have ih: "sent' = take (length sent') (drop n (b # frame))" "res' = Polled () \<longleftrightarrow> sent' = drop n (b # frame)"
    using 3(1) [OF r] by blast+
  have s: "sent = take n (b # frame) @ sent'" "res = res'" using 3(2) r by auto
  have "sent = take (n + length sent') (b # frame)" unfolding s(1) by (subst ih(1)) (simp only: take_add)
  moreover have "sent = b # frame \<longleftrightarrow> sent' = drop n (b # frame)"
    unfolding s(1) using append_take_drop_id [of n "b # frame"] by (metis same_append_eq)
  ultimately show ?case using ih(2) s(2) take_self by blast
qed (auto split: if_splits)

lemma receive_ack_frame:
  assumes "wf_ack a" "length (encode_frame_ack a) \<le> kFrameLengthBytes + unat kMaxFrameBytes"
    and "undisturbed rxs" "bytes_of rxs = encode_frame_ack a @ t"
  shows "receive_ack errno_text rxs = Polled a"
proof -
  have len: "length (ack_text a) \<le> 65536" using assms(2) by (simp add: encode_frame_ack_eq kMaxFrameBytes_def)
  then have u: "unat (word_of_nat (length (ack_text a)) :: uint32) = length (ack_text a)" by (simp add: unat_of_nat)
  have d: "decode_frame_length (prefix_bytes (word_of_nat (length (ack_text a)))) = Inr (word_of_nat (length (ack_text a)))"
    using len by (simp add: decode_frame_length_prefix word_less_nat_alt u kMaxFrameBytes_def)
  obtain rxs1 where r1: "client_read errno_text kFrameLengthBytes [] rxs = (Polled (prefix_bytes (word_of_nat (length (ack_text a)))), rxs1)"
      "undisturbed rxs1" "bytes_of rxs1 = map as_byte (ack_text a) @ t"
    using client_read_enough [OF assms(3), of "[]" kFrameLengthBytes errno_text] by (auto simp: assms(4) encode_frame_ack_eq)
  obtain rxs2 where r2: "client_read errno_text (length (ack_text a)) [] rxs1 = (Polled (map as_byte (ack_text a)), rxs2)"
    using client_read_enough [OF r1(2), of "[]" "length (ack_text a)" errno_text] by (auto simp: r1(3))
  show ?thesis using decode_ack_text [OF assms(1)] by (simp add: receive_ack_def r1(1) d u r2)
qed

text \<open>The ack of an accepted wake is never longer than the wake.\<close>

lemma wake_ack_shorter: "length (encode_frame_ack (wake_ack ps m)) \<le> length (encode_frame_message m)"
proof -
  have "length (ack_text (wake_ack ps m)) \<le> length (message_text m)"
    using length_to_chars_int64 [of kSchemaVersion] length_to_chars_int64 [of "ps_started_at_ms ps"]
    by (simp add: ack_text_def ack_members_of_def message_text_def message_members_def sep_text_def json_string_name
        plain_name_def wake_ack_def accepted_ack_def name_of_status_def)
  then show ?thesis by (simp add: encode_frame_ack_eq encode_frame_message_eq)
qed

lemma client_send_takes: "takes (length frame) txs \<Longrightarrow> client_send errno_text frame txs = (Polled (), frame)"
proof -
  assume "takes (length frame) txs"
  then have "fst (client_send errno_text frame txs) = Polled ()"
    by (induction errno_text frame txs rule: client_send.induct) (auto split: prod.split simp: case_prod_beta)
  then show ?thesis using client_send_prefix by (metis prod.collapse)
qed

lemma rejection_sent:
  assumes "decode_wake_message body = Inl e"
  shows "\<exists>sent. ex_effects (snd (serve_frame ps body ex)) = ex_effects ex @ [Sent_bytes sent] \<and>
     sent = take (length sent) (encode_frame_ack (rejected_ack (ps_started_at_ms ps) (message e))) \<and>
     (takes (length (encode_frame_ack (rejected_ack (ps_started_at_ms ps) (message e)))) (ps_txs ps) \<longleftrightarrow>
        sent = encode_frame_ack (rejected_ack (ps_started_at_ms ps) (message e))) \<and>
     (fst (serve_frame ps body ex) = Continue \<longleftrightarrow> sent = encode_frame_ack (rejected_ack (ps_started_at_ms ps) (message e)))"
proof -
  let ?frame = "encode_frame_ack (rejected_ack (ps_started_at_ms ps) (message e))"
  obtain res sent where s: "send_frame ?frame (ps_txs ps) = (res, sent)" by fastforce
  have f: "serve_frame ps body ex = (case res of Send_ok \<Rightarrow> Continue | Send_failed \<Rightarrow> Return | Send_waits \<Rightarrow> Waiting,
      snd (serve_frame ps body ex))" "ex_effects (snd (serve_frame ps body ex)) = ex_effects ex @ [Sent_bytes sent]"
    using assms s by (simp_all add: serve_frame_def send_ack_eq emit_def Let_def)
  have "fst (serve_frame ps body ex) = Continue \<longleftrightarrow> res = Send_ok" by (subst f(1)) (simp split: SendResult.split)
  with f(2) send_frame_prefix [OF s] send_frame_takes [of ?frame "ps_txs ps"] s show ?thesis by auto
qed

text \<open>A frame refused for its long unknown key, and what its rejection says of itself.\<close>

lemma long_rejection:
  "\<exists>body e. length body \<le> unat kMaxFrameBytes \<and> decode_wake_message body = Inl e \<and>
     length (encode_frame_ack (rejected_ack at_ms (message e))) \<le> 400000 \<and>
     (\<exists>e'. decode_frame_length (take kFrameLengthBytes (encode_frame_ack (rejected_ack at_ms (message e)))) = Inl e' \<and>
        code e' = FrameTooLarge)"
proof -
  define n :: nat where "n = 65500"
  define key where "key = replicate n CHR ''a''"
  have plain: "plain_name key" "length key = n" by (simp_all add: key_def plain_name_def list_all_iff)
  have "\<forall>k \<in> set known_wake_fields. length k < 30" by (simp add: known_wake_fields_def message_members_def)
  then have unknown: "key \<notin> set known_wake_fields" using plain(2) by (auto simp: n_def)
  define body where "body = map as_byte (CHR 0x7B # json_string key @ CHR '':'' # [])"
  have body: "length body \<le> unat kMaxFrameBytes"
    using plain by (simp add: body_def json_string_name kMaxFrameBytes_def n_def)
  note dec = unknown_key_refused [OF plain_name_valid [OF plain(1)] unknown, of "[]", folded body_def]
  define why where "why = ''unexpected field: '' @ key"
  define a where "a = rejected_ack at_ms why"
  have "plain_name why" "length why = n + 18" using plain by (simp_all add: why_def plain_name_def)
  then have why: "length (json_string why) = n + 20" by (simp add: json_string_name)
  have lower: "n + 40 \<le> length (ack_text a)"
    by (simp add: a_def rejected_ack_def ack_text_def ack_members_of_def sep_text_def why json_string_name plain_name_def)
  have upper: "length (ack_text a) < 2 ^ 32"
    using ack_text_length [of a] plain(2) by (simp add: a_def why_def rejected_ack_def n_def)
  have u: "unat (word_of_nat (length (ack_text a)) :: uint32) = length (ack_text a)"
    using upper by (simp add: unat_of_nat)
  have "\<exists>e'. decode_frame_length (take kFrameLengthBytes (encode_frame_ack a)) = Inl e' \<and> code e' = FrameTooLarge"
    using lower by (simp add: encode_frame_ack_eq decode_frame_length_prefix word_less_nat_alt u kMaxFrameBytes_def n_def decode_fail_def)
  moreover have "length (encode_frame_ack a) \<le> 400000"
    using ack_text_length [of a] plain(2) by (simp add: a_def why_def rejected_ack_def n_def encode_frame_ack_eq kFrameLengthBytes_def)
  ultimately show ?thesis using body dec
    by (intro exI [of _ body] exI [of _ "\<lparr>code = UnknownField, message = why\<rparr>"]) (simp add: decode_fail_def a_def why_def)
qed

lemma real_wake_ok:
  "wf_message real_wake" "length (encode_frame_message real_wake) \<le> kFrameLengthBytes + unat kMaxFrameBytes"
  "sends_whole sample_pass (wake_ack sample_pass real_wake)"
proof -
  show "wf_message real_wake" using wf_sample double_lit_finite(3) by (simp add: wf_message_def real_wake_def)
  show "length (encode_frame_message real_wake) \<le> kFrameLengthBytes + unat kMaxFrameBytes"
    using message_text_length [of real_wake]
    by (simp add: encode_frame_message_eq kFrameLengthBytes_def kMaxFrameBytes_def real_wake_def sample_message_def default_WakeMessage_def)
  have "wake_ack sample_pass real_wake = wake_ack sample_pass sample_message" by (simp add: wake_ack_def real_wake_def)
  then show "sends_whole sample_pass (wake_ack sample_pass real_wake)" using sample_wake_ok by simp
qed

definition wide_pass :: pass where
  "wide_pass = sample_pass\<lparr>ps_txs := [Wrote 400000]\<rparr>"

section \<open>Properties\<close>

text \<open>
  C1: the wake channel end to end. A wake the client sends, delivered to the executor in any
  segmentation, is accepted, and the ack the executor sends back, delivered in any segmentation,
  is what the client returns: accepted, with the wake's correlation id. By then the executor has
  sent that ack whole, recorded the wake and fired it: it has dispatched the wake's order, unless the
  wake is real and either its price is not tradeable or the kill switch is engaged.
\<close>

theorem wake_end_to_end:
  assumes "wf_message m" "length (encode_frame_message m) \<le> kFrameLengthBytes + unat kMaxFrameBytes"
    and "takes (length (encode_frame_message m)) txs"
    and "quiet rxs" "bytes_of rxs = snd (send_wake errno_text True m frame txs back)"
    and "\<not> ps_stopping ps" "takes (length (encode_frame_ack (wake_ack ps m))) (ps_txs ps)"
    and "undisturbed back" "bytes_of back = encode_frame_ack (wake_ack ps m)"
  shows "serve_connection [ps] (rxs @ close_mark eof) ex = (Waiting, accept_wake ps m ex) \<and>
    send_wake errno_text True m frame txs back = (Polled (accepted_ack (ps_started_at_ms ps) (correlation_id m)), encode_frame_message m) \<and>
    ex_effects (accept_wake ps m ex) = ex_effects ex @ Sent_bytes (encode_frame_ack (wake_ack ps m)) #
      (if ex_record_wake_recv ex then [Recorded (wake_span ps m)] else []) @
      (if (dry_run m \<or> tradeable m \<and> \<not> halted (ps_now_ns ps) (ps_exists ps) ex) \<and> ex_dispatch ex
       then [Dispatch (fire_of m (fst (acquire (ex_templates ex) (market_ticker m) (direction m))))] else [])"
proof -
  have enc: "encode_frame_into_message m frame = encode_frame_message m" by (simp add: encode_frame_message_def encode_message_eq)
  note c = client_send_takes [OF assms(3), of errno_text]
  have "bytes_of rxs = encode_frame_message m" using assms(5) c enc by (simp add: send_wake_def)
  then have "serve_connection [ps] (rxs @ close_mark eof) ex = serve_stream [ps] (encode_frame_message m @ []) eof ex"
    using serve_connection_eq [OF assms(4), of "[ps]" eof ex] by simp
  also have "\<dots> = (Waiting, accept_wake ps m ex)"
    unfolding serve_stream_wake [OF assms(1,2,6) assms(7) [folded sends_whole_takes]] by simp
  finally have srv: "serve_connection [ps] (rxs @ close_mark eof) ex = (Waiting, accept_wake ps m ex)" .
  have "wf_ack (wake_ack ps m)" unfolding wake_ack_def by (rule wf_accepted [OF assms(1)])
  then have "receive_ack errno_text back = Polled (wake_ack ps m)"
    using receive_ack_frame [OF _ _ assms(8), of "wake_ack ps m" "[]"] assms(2,9) wake_ack_shorter [of ps m] by simp
  with c enc have cl: "send_wake errno_text True m frame txs back = (Polled (accepted_ack (ps_started_at_ms ps) (correlation_id m)), encode_frame_message m)"
    by (simp add: send_wake_def wake_ack_def)
  have "fst (handle_fire (ps_now_ns ps) (ps_exists ps) m (acked_wake ps m ex)) = Dispatched \<longleftrightarrow>
      dry_run m \<or> tradeable m \<and> \<not> halted (ps_now_ns ps) (ps_exists ps) ex"
    by (auto simp: handle_fire_outcome halted_def)
  with srv cl show ?thesis by (simp add: accept_wake_effects)
qed

theorem wake_end_to_end_witness:
  "\<exists>fr. serve_connection [sample_pass] ([Chunk (encode_frame_message real_wake)] @ close_mark False) (ExecutorServer True True None) =
     (Waiting, accept_wake sample_pass real_wake (ExecutorServer True True None)) \<and>
   send_wake [] True real_wake [] [Wrote (length (encode_frame_message real_wake))]
     [Chunk (take 7 (encode_frame_ack (wake_ack sample_pass real_wake))),
      Chunk (drop 7 (encode_frame_ack (wake_ack sample_pass real_wake)))] =
     (Polled (accepted_ack 5 ''c-1''), encode_frame_message real_wake) \<and>
   Dispatch fr \<in> set (ex_effects (accept_wake sample_pass real_wake (ExecutorServer True True None))) \<and>
   \<not> fr_dry_run fr \<and> fr_correlation_id fr = ''c-1''"
proof -
  let ?answer = "[Chunk (take 7 (encode_frame_ack (wake_ack sample_pass real_wake))),
      Chunk (drop 7 (encode_frame_ack (wake_ack sample_pass real_wake)))]"
  let ?txs = "[Wrote (length (encode_frame_message real_wake))]" and ?rxs = "[Chunk (encode_frame_message real_wake)]"
  have t: "takes (length (encode_frame_message real_wake)) ?txs" by (cases "length (encode_frame_message real_wake)") simp_all
  have b: "bytes_of ?rxs = snd (send_wake [] True real_wake [] ?txs ?answer)"
    using client_send_takes [OF t, of "[]"] by (simp add: send_wake_def encode_frame_message_def encode_message_eq)
  have "\<not> ps_stopping sample_pass" by (simp add: sample_pass_def)
  from wake_end_to_end [OF _ _ t _ b this, of False "ExecutorServer True True None"] real_wake_ok real_wake_tradeable(1)
  show ?thesis
    by (simp add: sends_whole_takes [symmetric] halted_def ExecutorServer_def fire_of_def)
      (simp add: real_wake_def sample_message_def sample_pass_def)
qed

text \<open>
  C18: whatever bytes a frame carries, if they are refused the peer is sent a rejected ack whose
  reason is the decoder's error: a prefix of its frame, and all of it when the socket takes that
  many bytes; then the connection goes on. A peer that reads such a frame, in any segmentation,
  gets that ack back, whenever the frame is within the cap.
\<close>

theorem rejection_readable:
  assumes "decode_wake_message body = Inl e"
  shows "\<exists>sent. ex_effects (snd (serve_frame ps body ex)) = ex_effects ex @ [Sent_bytes sent] \<and>
     sent = take (length sent) (encode_frame_ack (rejected_ack (ps_started_at_ms ps) (message e))) \<and>
     (takes (length (encode_frame_ack (rejected_ack (ps_started_at_ms ps) (message e)))) (ps_txs ps) \<longrightarrow>
        fst (serve_frame ps body ex) = Continue \<and> sent = encode_frame_ack (rejected_ack (ps_started_at_ms ps) (message e)) \<and>
        (length sent \<le> kFrameLengthBytes + unat kMaxFrameBytes \<longrightarrow>
          (\<forall>back. undisturbed back \<and> bytes_of back = sent \<longrightarrow>
            receive_ack errno_text back = Polled (rejected_ack (ps_started_at_ms ps) (message e)))))"
  using rejection_sent [OF assms, of ps ex] receive_ack_frame [OF wf_rejected [OF assms], where t = "[]"] by auto

theorem rejection_readable_witness:
  "\<exists>e. decode_wake_message [] = Inl e \<and>
     ex_effects (snd (serve_frame sample_pass [] (ExecutorServer True True None))) = [Sent_bytes (encode_frame_ack (rejected_ack 5 (message e)))] \<and>
     receive_ack [] [Chunk (encode_frame_ack (rejected_ack 5 (message e)))] = Polled (rejected_ack 5 (message e))"
proof -
  obtain e where e: "decode_wake_message [] = Inl e" "length (message e) < 100" using empty_body by simp
  have l: "length (encode_frame_ack (rejected_ack 5 (message e))) \<le> 4096"
    using ack_text_length [of "rejected_ack 5 (message e)"] e(2) by (simp add: encode_frame_ack_eq kFrameLengthBytes_def rejected_ack_def)
  have st: "ps_started_at_ms sample_pass = 5" by (simp add: sample_pass_def)
  have "sends_whole sample_pass (rejected_ack 5 (message e))" using l by (intro sends_sample) simp
  then have "takes (length (encode_frame_ack (rejected_ack (ps_started_at_ms sample_pass) (message e)))) (ps_txs sample_pass)"
    unfolding st sends_whole_takes .
  with rejection_readable [OF e(1), of sample_pass "ExecutorServer True True None" "[]"] e(1) l show ?thesis
    unfolding st by (fastforce simp: ExecutorServer_def kFrameLengthBytes_def kMaxFrameBytes_def)
qed

text \<open>
  C36: the reason of a rejected ack repeats the unknown key of the frame it refuses, so the executor
  answers some frame within the cap by an ack that is itself above the cap: it sends it whole, and
  the client's length check refuses it.
\<close>

theorem rejection_over_cap:
  "\<exists>body ps sent e'. length body \<le> unat kMaxFrameBytes \<and>
     ex_effects (snd (serve_frame ps body ex)) = ex_effects ex @ [Sent_bytes sent] \<and> fst (serve_frame ps body ex) = Continue \<and>
     decode_frame_length (take kFrameLengthBytes sent) = Inl e' \<and> code e' = FrameTooLarge \<and>
     receive_ack errno_text [Chunk sent] = Poll_error (''ack frame length: '' @ message e')"
proof -
  obtain body e where b: "length body \<le> unat kMaxFrameBytes" "decode_wake_message body = Inl e"
      "length (encode_frame_ack (rejected_ack 5 (message e))) \<le> 400000" and cap: "\<exists>e'. decode_frame_length (take kFrameLengthBytes
        (encode_frame_ack (rejected_ack 5 (message e)))) = Inl e' \<and> code e' = FrameTooLarge"
    using long_rejection [of 5] by blast
  define sent where "sent = encode_frame_ack (rejected_ack 5 (message e))"
  have ps: "ps_started_at_ms wide_pass = 5" by (simp add: wide_pass_def sample_pass_def)
  have "takes (length sent) (ps_txs wide_pass)" using b(3) by (cases "length sent") (simp_all add: sent_def wide_pass_def)
  with rejection_sent [OF b(2), of wide_pass ex] ps
  have s: "ex_effects (snd (serve_frame wide_pass body ex)) = ex_effects ex @ [Sent_bytes sent]" "fst (serve_frame wide_pass body ex) = Continue"
    by (auto simp: sent_def)
  obtain e' where e': "decode_frame_length (take kFrameLengthBytes sent) = Inl e'" "code e' = FrameTooLarge" using cap by (auto simp: sent_def)
  have "kFrameLengthBytes \<le> length sent" by (simp add: sent_def encode_frame_ack_eq)
  then obtain rxs' where "client_read errno_text kFrameLengthBytes [] [Chunk sent] = (Polled (take kFrameLengthBytes sent), rxs')"
    using client_read_enough [of "[Chunk sent]" "[]" kFrameLengthBytes errno_text] by auto
  with e'(1) have "receive_ack errno_text [Chunk sent] = Poll_error (''ack frame length: '' @ message e')" by (simp add: receive_ack_def)
  with b(1) s e' show ?thesis by blast
qed

end
