(* ===== verification/Poller_Connect.thy ===== *)
theory Poller_Connect
  imports Poller_Client
begin

text \<open>
  \<open>connect\<close> and \<open>close\<close> of the client of \<open>bench/poller_client.cpp\<close>: a socket is made and connected, again
  every five milliseconds until the executor is there or a deadline has passed. What the system
  answers each attempt is an argument, as are the readings of the clock; the client's record keeps
  the descriptors it was given and the ones it closed.
\<close>

section \<open>The client\<close>

record client =
  cl_fd :: int
  cl_opened :: "int list"
  cl_closed :: "int list"

definition new_client :: client where
  "new_client = \<lparr>cl_fd = - 1, cl_opened = [], cl_closed = []\<rparr>"

definition close_client :: "client \<Rightarrow> client" where
  "close_client cl = (if cl_fd cl \<ge> 0 then cl\<lparr>cl_closed := cl_closed cl @ [cl_fd cl], cl_fd := - 1\<rparr> else cl)"

text \<open>
  One turn of the loop: the socket, whether it connected, the text of \<open>errno\<close> where either call
  failed, and the clock (in milliseconds) after a failed \<open>connect\<close>.
\<close>

record attempt =
  at_socket :: "int option"
  at_connect :: bool
  at_errno :: string
  at_now :: int

definition poller_syscall_error :: "string \<Rightarrow> string \<Rightarrow> string" where
  "poller_syscall_error name errno_text = name @ '': '' @ errno_text"

text \<open>
  \<open>None\<close> while the loop runs on, else what \<open>connect\<close> returns from it: an error, or nothing when the
  socket is connected.
\<close>

fun connect_loop :: "int \<Rightarrow> attempt list \<Rightarrow> client \<Rightarrow> string option option \<times> client" where
  "connect_loop deadline [] cl = (None, cl)"
| "connect_loop deadline (a # as) cl =
     (case at_socket a of
        None \<Rightarrow> (Some (Some (poller_syscall_error ''socket'' (at_errno a))), cl\<lparr>cl_fd := - 1\<rparr>)
      | Some fd \<Rightarrow>
          let cl = cl\<lparr>cl_fd := fd, cl_opened := cl_opened cl @ [fd]\<rparr>
          in if at_connect a then (Some None, cl)
             else let failure = poller_syscall_error ''connect'' (at_errno a);
                      cl = close_client cl
                  in if at_now a \<ge> deadline then (Some (Some failure), cl)
                     else connect_loop deadline as cl)"

text \<open>
  \<open>connect\<close>. The size of \<open>sun_path\<close> is the platform's; \<open>sockopt_errno\<close> is what a failing
  \<open>setsockopt\<close> leaves in \<open>errno\<close>.
\<close>

definition connect :: "nat \<Rightarrow> string \<Rightarrow> int \<Rightarrow> int \<Rightarrow> attempt list \<Rightarrow> string option \<Rightarrow> client \<Rightarrow> string option option \<times> client" where
  "connect sun_path_size path now timeout attempts sockopt_errno cl =
     (if length path \<ge> sun_path_size
      then (Some (Some (''socket path exceeds '' @ nat_digits (sun_path_size - 1) @ '' bytes'')), cl)
      else case connect_loop (now + timeout) attempts cl of
             (Some None, cl) \<Rightarrow>
               (case sockopt_errno of
                  Some e \<Rightarrow> (Some (Some (poller_syscall_error ''setsockopt SO_RCVTIMEO'' e)), cl)
                | None \<Rightarrow> (Some None, cl))
           | r \<Rightarrow> r)"

section \<open>Descriptors and the deadline\<close>

definition client_ok :: "client \<Rightarrow> bool" where
  "client_ok cl \<longleftrightarrow> cl_opened cl = cl_closed cl @ (if cl_fd cl \<ge> 0 then [cl_fd cl] else [])"

definition fds_valid :: "attempt list \<Rightarrow> bool" where
  "fds_valid attempts \<longleftrightarrow> (\<forall>a \<in> set attempts. case at_socket a of None \<Rightarrow> True | Some fd \<Rightarrow> 0 \<le> fd)"

lemma connect_loop_again:
  assumes "at_socket a = Some fd" "\<not> at_connect a" "at_now a < deadline"
  shows "connect_loop deadline (a # as) cl =
     connect_loop deadline as (close_client (cl\<lparr>cl_fd := fd, cl_opened := cl_opened cl @ [fd]\<rparr>))"
  using assms by (simp add: Let_def)

lemma close_client_ok:
  assumes "client_ok cl" "cl_fd cl = - 1" "0 \<le> fd"
  shows "client_ok (close_client (cl\<lparr>cl_fd := fd, cl_opened := cl_opened cl @ [fd]\<rparr>))"
    "cl_fd (close_client (cl\<lparr>cl_fd := fd, cl_opened := cl_opened cl @ [fd]\<rparr>)) = - 1"
  using assms by (simp_all add: close_client_def client_ok_def)

lemma connect_loop_descriptors:
  assumes "connect_loop deadline attempts cl = (r, cl')" "client_ok cl" "cl_fd cl = - 1" "fds_valid attempts"
  shows "client_ok cl' \<and> (0 \<le> cl_fd cl' \<longleftrightarrow> r = Some None)"
  using assms
proof (induction attempts arbitrary: cl)
  case (Cons a as)
  show ?case
  proof (cases "at_socket a")
    case None
    with Cons.prems show ?thesis by (auto simp: client_ok_def)
  next
    case (Some fd)
    have fd: "0 \<le> fd" "fds_valid as" using Cons.prems(4) Some by (simp_all add: fds_valid_def)
    note c1 = close_client_ok [OF Cons.prems(2,3) fd(1)]
    consider "at_connect a" | "\<not> at_connect a" "deadline \<le> at_now a" | "\<not> at_connect a" "at_now a < deadline"
      by linarith
    then show ?thesis
    proof cases
      case 1
      with Cons.prems(1-3) Some fd(1) show ?thesis by (auto simp: Let_def client_ok_def)
    next
      case 2
      with Cons.prems(1) Some c1 show ?thesis by (auto simp: Let_def)
    next
      case 3
      show ?thesis
        by (rule Cons.IH [OF _ c1 fd(2)]) (rule connect_loop_again [OF Some 3, symmetric, THEN trans, OF Cons.prems(1)])
    qed
  qed
qed simp

text \<open>Each failed attempt is followed by a sleep of at least five milliseconds.\<close>

fun paced :: "int \<Rightarrow> attempt list \<Rightarrow> bool" where
  "paced now [] \<longleftrightarrow> True"
| "paced now (a # as) \<longleftrightarrow> now \<le> at_now a \<and> paced (at_now a + 5) as"

lemma connect_loop_ends:
  assumes "paced now attempts" "deadline \<le> now + 5 * (int (length attempts) - 1)" "attempts \<noteq> []"
  shows "fst (connect_loop deadline attempts cl) \<noteq> None"
  using assms
proof (induction attempts arbitrary: now cl)
  case (Cons a as)
  show ?case
  proof (cases "as = []")
    case True
    with Cons.prems show ?thesis by (auto simp: Let_def split: option.splits)
  next
    case False
    have "deadline \<le> at_now a + 5 + 5 * (int (length as) - 1)" using Cons.prems by simp
    with Cons.IH [of "at_now a + 5"] Cons.prems False show ?thesis by (auto simp: Let_def split: option.splits)
  qed
qed simp

lemma connect_loop_late:
  assumes "connect_loop deadline attempts cl = (Some (Some e), cl')" "\<forall>a \<in> set attempts. at_socket a \<noteq> None"
  shows "\<exists>a \<in> set attempts. \<not> at_connect a \<and> deadline \<le> at_now a"
  using assms
proof (induction attempts arbitrary: cl)
  case (Cons a as)
  obtain fd where "at_socket a = Some fd" using Cons.prems(2) by auto
  with Cons show ?case by (auto simp: Let_def split: if_splits)
qed simp

section \<open>Properties\<close>

text \<open>
  C23: \<open>connect\<close> comes to an end, and cleanly. If every failed attempt takes at least the five
  milliseconds it sleeps, then after one attempt for every five milliseconds of the timeout and
  one more it has returned; whatever it returns, every descriptor it was given is closed but the
  one it keeps, and it keeps one exactly when the connection stands, set up completely or not.
\<close>

theorem connect_ends:
  assumes "paced now attempts" "attempts \<noteq> []" "timeout \<le> 5 * (int (length attempts) - 1)" "fds_valid attempts"
  shows "\<exists>r cl. connect sun_path_size path now timeout attempts sockopt_errno new_client = (Some r, cl) \<and>
     cl_opened cl = cl_closed cl @ (if cl_fd cl \<ge> 0 then [cl_fd cl] else []) \<and> (cl_fd cl \<ge> 0 \<or> r \<noteq> None)"
proof -
  obtain r cl where l: "connect_loop (now + timeout) attempts new_client = (r, cl)" by fastforce
  have "r \<noteq> None" using connect_loop_ends [OF assms(1) _ assms(2), of "now + timeout" new_client] assms(3) l by simp
  moreover have "client_ok cl \<and> (0 \<le> cl_fd cl \<longleftrightarrow> r = Some None)"
    by (rule connect_loop_descriptors [OF l _ _ assms(4)]) (simp_all add: client_ok_def new_client_def)
  ultimately obtain r' where r: "r = Some r'" and ok: "client_ok cl" "0 \<le> cl_fd cl \<longleftrightarrow> r' = None" by auto
  have new: "client_ok new_client" by (simp add: client_ok_def new_client_def)
  consider "length path \<ge> sun_path_size" | "length path < sun_path_size" "r' = None" | e where "length path < sun_path_size" "r' = Some e"
    by (cases r') force+
  then show ?thesis
  proof cases
    case 1
    with new show ?thesis by (simp add: connect_def client_ok_def)
  next
    case 2
    with l r ok show ?thesis by (cases sockopt_errno) (simp_all add: connect_def client_ok_def)
  next
    case 3
    with l r ok show ?thesis by (simp add: connect_def client_ok_def)
  qed
qed

definition two_attempts :: "attempt list" where
  "two_attempts = [\<lparr>at_socket = Some 3, at_connect = False, at_errno = ''No such file'', at_now = 101\<rparr>, \<lparr>at_socket = Some 3, at_connect = True, at_errno = [], at_now = 107\<rparr>]"

theorem connect_ends_witness:
  "\<exists>r cl. connect 108 ''/tmp/x.sock'' 100 5 two_attempts None new_client = (Some r, cl) \<and>
     cl_opened cl = [3, 3] \<and> cl_closed cl = [3] \<and> cl_fd cl = 3"
proof -
  have "paced 100 two_attempts" "two_attempts \<noteq> []" "5 \<le> 5 * (int (length two_attempts) - 1)" "fds_valid two_attempts"
    by (simp_all add: two_attempts_def fds_valid_def)
  from connect_ends [OF this, of 108 "''/tmp/x.sock''" None] show ?thesis
    by (simp add: connect_def two_attempts_def new_client_def close_client_def)
qed

end
