(* ===== verification/Bench_Stats.thy ===== *)
theory Bench_Stats
  imports Binary64_Bounds Protocol_Types
begin

text \<open>
  The statistics of \<open>bench/percentile.cpp\<close>: the type-7 percentile of an ordered sample, computed in
  doubles as the source writes it, and the summary of a run's samples. A subscript out of range
  is an outcome of its own, so that the theorem that it never happens says something.
\<close>

section \<open>The percentile\<close>

datatype outcome = Throws string | Out_of_range | Value double

definition rank_of :: "double list \<Rightarrow> double \<Rightarrow> double" where
  "rank_of ordered p = dmul (double_of_int (int (length ordered - 1))) p"

definition percentile :: "double list \<Rightarrow> double \<Rightarrow> outcome" where
  "percentile ordered p =
     (if ordered = [] then Throws ''percentile of an empty sample''
      else if length ordered = 1 then Value (ordered ! 0)
      else
        let rank = rank_of ordered p;
            lo = size_of_double (dfloor rank);
            hi = size_of_double (dceil rank)
        in if \<not> (lo < length ordered \<and> hi < length ordered) then Out_of_range
           else if lo = hi then Value (ordered ! lo)
           else Value (dadd (ordered ! lo)
             (dmul (dsub (ordered ! hi) (ordered ! lo)) (dsub rank (double_of_int (int lo))))))"

record Stats =
  p50_ms :: double
  p90_ms :: double
  p99_ms :: double
  st_n :: nat
  st_warmup :: nat

text \<open>
  The samples are in the order measured; sorting is by value, which is total because a measured
  span is never a NaN. An outcome that is not a value ends the call.
\<close>

definition from_samples :: "double list \<Rightarrow> nat \<Rightarrow> outcome + Stats" where
  "from_samples samples_ms warmup =
     (let dropped = min warmup (length samples_ms);
          kept = sort_key signed_index (drop dropped samples_ms)
      in case percentile kept (double_lit 50 (- 2)) of
           Value p50 \<Rightarrow>
             (case percentile kept (double_lit 90 (- 2)) of
                Value p90 \<Rightarrow>
                  (case percentile kept (double_lit 99 (- 2)) of
                     Value p99 \<Rightarrow> Inr \<lparr>p50_ms = p50, p90_ms = p90, p99_ms = p99, st_n = length kept, st_warmup = dropped\<rparr>
                   | e \<Rightarrow> Inl e)
              | e \<Rightarrow> Inl e)
         | e \<Rightarrow> Inl e)"

section \<open>The rank\<close>

lemma rank_bounds:
  assumes "length ordered \<le> 2 ^ 53" "is_finite p" "0 \<le> valof p" "valof p \<le> 1"
  shows "is_finite (rank_of ordered p) \<and> 0 \<le> valof (rank_of ordered p) \<and> valof (rank_of ordered p) \<le> real (length ordered - 1)"
  using dmul_le [of "double_of_int (int (length ordered - 1))" p] double_of_nat_exact [of "length ordered - 1"] assms
  by (simp add: rank_of_def)

lemma rank_end:
  assumes "length ordered \<le> 2 ^ 53" "is_finite p"
  shows "valof p = 0 \<Longrightarrow> valof (rank_of ordered p) = 0" "valof p = 1 \<Longrightarrow> valof (rank_of ordered p) = real (length ordered - 1)"
proof -
  have d: "is_finite (double_of_int (int (length ordered - 1)))" "valof (double_of_int (int (length ordered - 1))) = real (length ordered - 1)"
    using double_of_nat_exact [of "length ordered - 1"] assms(1) by simp_all
  have "fits (real (length ordered - 1))" using fits_valof [OF d(1)] d(2) by simp
  with dmul_exact [OF d(1) assms(2)] d(2) fits_0 show
    "valof p = 0 \<Longrightarrow> valof (rank_of ordered p) = 0" "valof p = 1 \<Longrightarrow> valof (rank_of ordered p) = real (length ordered - 1)"
    by (simp_all add: rank_of_def)
qed

lemma rank_fraction:
  assumes "is_finite r" "0 \<le> valof r" "valof r \<le> 2 ^ 53"
  shows "is_finite (dsub r (double_of_int (int (nat \<lfloor>valof r\<rfloor>)))) \<and>
    valof (dsub r (double_of_int (int (nat \<lfloor>valof r\<rfloor>)))) = valof r - of_int \<lfloor>valof r\<rfloor>"
proof -
  have "\<lfloor>valof r\<rfloor> \<le> 2 ^ 53" using assms(3) by (simp add: floor_le_iff)
  then have "nat \<lfloor>valof r\<rfloor> \<le> 2 ^ 53" by (simp only: nat_le_iff of_nat_power of_nat_numeral)
  note e = double_of_nat_exact [OF this]
  show ?thesis using dsub_exact [OF assms(1) conjunct1 [OF e]] e fraction_fits [OF assms(1,2)] assms(2) by simp
qed

section \<open>The value computed\<close>

text \<open>Where the rank lies between its two subscripts.\<close>

lemma rank_indices:
  assumes "ordered \<noteq> []" "length ordered \<le> 2 ^ 53" "is_finite p" "0 \<le> valof p" "valof p \<le> 1"
  shows "nat \<lfloor>valof (rank_of ordered p)\<rfloor> < length ordered" "nat \<lceil>valof (rank_of ordered p)\<rceil> < length ordered"
    "nat \<lfloor>valof (rank_of ordered p)\<rfloor> \<le> nat \<lceil>valof (rank_of ordered p)\<rceil>"
proof -
  note b = rank_bounds [OF assms(2-5)]
  have len: "0 < length ordered" using assms(1) by simp
  have "valof (rank_of ordered p) < real (length ordered)" using b len by linarith
  then show "nat \<lfloor>valof (rank_of ordered p)\<rfloor> < length ordered" using b by (simp add: nat_less_iff floor_less_iff)
  have "\<lceil>valof (rank_of ordered p)\<rceil> \<le> int (length ordered - 1)" using b by (simp add: ceiling_le_iff)
  then show "nat \<lceil>valof (rank_of ordered p)\<rceil> < length ordered" using len by linarith
  show "nat \<lfloor>valof (rank_of ordered p)\<rfloor> \<le> nat \<lceil>valof (rank_of ordered p)\<rceil>" by (intro nat_mono floor_le_ceiling)
qed

lemma percentile_value:
  assumes "ordered \<noteq> []" "length ordered \<le> 2 ^ 53" "is_finite p" "0 \<le> valof p" "valof p \<le> 1"
    and "sorted (map valof ordered)" "\<forall>x \<in> set ordered. is_finite x \<and> 0 \<le> valof x"
  shows "\<exists>v. percentile ordered p = Value v \<and> is_finite v \<and>
     nat \<lfloor>valof (rank_of ordered p)\<rfloor> < length ordered \<and>
     nat \<lceil>valof (rank_of ordered p)\<rceil> < length ordered \<and>
     valof (ordered ! nat \<lfloor>valof (rank_of ordered p)\<rfloor>) \<le> valof v \<and>
     valof v \<le> valof (ordered ! nat \<lceil>valof (rank_of ordered p)\<rceil>) \<and>
     (if valof p = 0 then v = hd ordered else if valof p = 1 then v = last ordered else True)"
proof -
  define r where "r = rank_of ordered p"
  define lo where "lo = nat \<lfloor>valof r\<rfloor>"
  define hi where "hi = nat \<lceil>valof r\<rceil>"
  note b = rank_bounds [OF assms(2-5), folded r_def]
  note i = rank_indices [OF assms(1-5), folded r_def, folded lo_def hi_def]
  note lo = i(1) and hi = i(2) and le = i(3)
  have ends: "valof p = 0 \<Longrightarrow> lo = 0 \<and> hi = 0" "valof p = 1 \<Longrightarrow> lo = length ordered - 1 \<and> hi = length ordered - 1"
    using rank_end [OF assms(2,3), folded r_def] by (simp_all add: lo_def hi_def)
  define v where "v = (if lo = hi then ordered ! lo else dadd (ordered ! lo) (dmul (dsub (ordered ! hi) (ordered ! lo)) (dsub r (double_of_int (int lo)))))"
  have fin: "is_finite (ordered ! i) \<and> 0 \<le> valof (ordered ! i)" if "i < length ordered" for i
    using assms(7) nth_mem [OF that] by blast
  have mono: "valof (ordered ! lo) \<le> valof (ordered ! hi)"
    using sorted_nth_mono [OF assms(6), of lo hi] le lo hi by simp
  have "real (length ordered - 1) \<le> 2 ^ 53"
    using assms(2) of_nat_mono [of "length ordered - 1" "2 ^ 53", where ?'a = real] by simp
  then have "valof r \<le> 2 ^ 53" using b by linarith
  with rank_fraction [of r, folded lo_def] b
  have t: "is_finite (dsub r (double_of_int (int lo)))" "valof (dsub r (double_of_int (int lo))) = valof r - of_int \<lfloor>valof r\<rfloor>"
    by simp_all
  have v: "is_finite v \<and> valof (ordered ! lo) \<le> valof v \<and> valof v \<le> valof (ordered ! hi)"
    using interpolation_between [of "ordered ! lo" "ordered ! hi" "dsub r (double_of_int (int lo))"] fin [OF lo] fin [OF hi] mono t
      floor_correct [of "valof r"] by (simp add: v_def)
  have "percentile ordered p = Value v"
  proof (cases "length ordered = 1")
    case True
    with lo hi have "lo = 0" "hi = 0" by simp_all
    with True assms(1) show ?thesis by (simp add: percentile_def v_def)
  next
    case False
    then show ?thesis
      using floor_index [of r] b lo hi assms(1)
      by (simp add: percentile_def v_def r_def [symmetric] lo_def [symmetric] hi_def [symmetric] Let_def)
  qed
  moreover have "if valof p = 0 then v = hd ordered else if valof p = 1 then v = last ordered else True"
    using ends by (simp add: v_def hd_conv_nth last_conv_nth assms(1))
  ultimately show ?thesis using v lo hi by (simp add: r_def [symmetric] lo_def [symmetric] hi_def [symmetric])
qed

section \<open>The summary\<close>

lemma percentile_points:
  assumes "p \<in> {double_lit 50 (- 2), double_lit 90 (- 2), double_lit 99 (- 2)}"
  shows "is_finite p \<and> 0 \<le> valof p \<and> valof p \<le> 1"
proof -
  have "double_lit 50 (- 2) = of_index False 0x3FE0000000000000" "double_lit 90 (- 2) = of_index False 0x3FECCCCCCCCCCCCD"
      "double_lit 99 (- 2) = of_index False 0x3FEFAE147AE147AE"
    by (simp_all add: double_lit_def round_dec_def round_mag_def flog2_def ilog2.simps pow2_le_def Let_def rne_scaled_def rne_div_def)
  then show ?thesis using assms
    by (auto simp: is_finite_def inf_index_def valof_def mag_value_def sig_def ulp_exp_def power_int_def power_divide)
qed

lemma sorted_values: "sorted (map valof (sort_key signed_index xs))"
proof -
  have "sorted (map signed_index (sort_key signed_index xs))" by simp
  then show ?thesis by (simp add: sorted_iff_nth_mono signed_index_le)
qed

lemma from_samples_total:
  assumes "length samples \<le> 2 ^ 53" "\<forall>x \<in> set samples. is_finite x \<and> 0 \<le> valof x \<and> valof x \<le> 2 ^ 53" "warmup < length samples"
  shows "\<exists>st. from_samples samples warmup = Inr st \<and> st_n st = length samples - warmup \<and> st_warmup st = warmup \<and>
     is_finite (p50_ms st) \<and> is_finite (p90_ms st) \<and> is_finite (p99_ms st)"
proof -
  define kept where "kept = sort_key signed_index (drop warmup samples)"
  have k: "kept \<noteq> []" "length kept \<le> 2 ^ 53" "sorted (map valof kept)" "length kept = length samples - warmup"
    "\<forall>x \<in> set kept. is_finite x \<and> 0 \<le> valof x"
    using assms sorted_values set_drop_subset [of warmup samples]
    by (auto simp: kept_def simp flip: length_0_conv)
  have v: "\<exists>v. percentile kept p = Value v \<and> is_finite v"
    if "p \<in> {double_lit 50 (- 2), double_lit 90 (- 2), double_lit 99 (- 2)}" for p
    using percentile_value [of kept p] k percentile_points [OF that] by blast
  obtain v50 v90 v99 where "percentile kept (double_lit 50 (- 2)) = Value v50" "percentile kept (double_lit 90 (- 2)) = Value v90"
      "percentile kept (double_lit 99 (- 2)) = Value v99" "is_finite v50" "is_finite v90" "is_finite v99"
    using v by (metis insertCI)
  then show ?thesis using k(4) assms(3) by (simp add: from_samples_def kept_def [symmetric] Let_def)
qed

section \<open>Properties\<close>

text \<open>
  C22: for every sample of at most \<open>2\<^sup>5\<^sup>3\<close> finite, non-negative, ordered values and every \<open>p\<close> between zero and one
  the percentile is computed without leaving the sample: both subscripts are in range, the result
  lies between the two order statistics it interpolates, in spite of three roundings, and at \<open>p = 0\<close>
  and \<open>p = 1\<close> it is exactly the least and the greatest value.
\<close>

theorem percentile_sound:
  assumes "ordered \<noteq> []" "length ordered \<le> 2 ^ 53" "is_finite p" "0 \<le> valof p" "valof p \<le> 1"
    and "sorted (map valof ordered)" "\<forall>x \<in> set ordered. is_finite x \<and> 0 \<le> valof x"
  shows "\<exists>v. percentile ordered p = Value v \<and> is_finite v \<and>
     nat \<lfloor>valof (rank_of ordered p)\<rfloor> < length ordered \<and>
     nat \<lceil>valof (rank_of ordered p)\<rceil> < length ordered \<and>
     valof (ordered ! nat \<lfloor>valof (rank_of ordered p)\<rfloor>) \<le> valof v \<and>
     valof v \<le> valof (ordered ! nat \<lceil>valof (rank_of ordered p)\<rceil>) \<and>
     (if valof p = 0 then v = hd ordered else if valof p = 1 then v = last ordered else True)"
  by (rule percentile_value [OF assms])

definition two_samples :: "double list" where
  "two_samples = [double_of_int (int 1), double_of_int (int 2)]"

theorem percentile_sound_witness:
  "\<exists>v. percentile two_samples (double_of_int (int 1)) = Value v \<and> v = double_of_int (int 2) \<and>
     percentile [] (double_of_int (int 1)) = Throws ''percentile of an empty sample''"
proof -
  have v: "is_finite (double_of_int (int n)) \<and> valof (double_of_int (int n)) = real n" if "n \<le> 2" for n
    using double_of_nat_exact [of n] that by simp
  have p: "is_finite (double_of_int (int 1))" "valof (double_of_int (int 1)) = 1" using v [of 1] by simp_all
  have "\<exists>w. percentile two_samples (double_of_int (int 1)) = Value w \<and> w = last two_samples"
    using percentile_sound [of two_samples "double_of_int (int 1)"] v [of 1] v [of 2]
    by (auto simp: two_samples_def)
  then show ?thesis by (simp add: two_samples_def percentile_def)
qed

end
