(* ===== verification/Bench_Driver.thy ===== *)
theory Bench_Driver
  imports Bench_Stats Prelude
begin

text \<open>
  The command line of \<open>bench/bench_main.cpp\<close>: how counts are read (with what \<open>strtoull\<close> of the C
  library does with signs, white space and overflow), the options, and which benchmarks they
  select. The number of iterations of a benchmark is the 64-bit sum of two options.
\<close>

section \<open>Counts\<close>

definition is_c_space :: "char \<Rightarrow> bool" where
  "is_c_space c \<longleftrightarrow> c \<in> {CHR 0x20, CHR 0x09, CHR 0x0A, CHR 0x0B, CHR 0x0C, CHR 0x0D}"

text \<open>\<open>None\<close> when nothing is converted; else the value and the text at \<open>end\<close>.\<close>

definition strtoull :: "string \<Rightarrow> (uint64 \<times> string) option" where
  "strtoull text =
     (let s = dropWhile is_c_space text;
          neg = (s \<noteq> [] \<and> hd s = CHR 0x2D);
          s = (if s \<noteq> [] \<and> (hd s = CHR 0x2D \<or> hd s = CHR 0x2B) then tl s else s);
          ds = takeWhile is_dec s;
          n = digits_val ds
      in if ds = [] then None
         else Some (if n \<ge> 2 ^ 64 then - 1 else if neg then - word_of_nat n else word_of_nat n, dropWhile is_dec s))"

definition parse_count :: "string \<Rightarrow> uint64 option" where
  "parse_count text =
     (case strtoull text of None \<Rightarrow> None | Some (value, end_text) \<Rightarrow> if end_text \<noteq> [] then None else Some value)"

section \<open>Options\<close>

definition kDefaultIterations :: uint64 where
  "kDefaultIterations = 2000"

definition kDefaultWarmup :: uint64 where
  "kDefaultWarmup = 200"

record Options =
  bo_iterations :: uint64
  bo_warmup :: uint64
  bo_csv :: string
  bo_only :: string

definition default_Options :: Options where
  "default_Options = \<lparr>bo_iterations = kDefaultIterations, bo_warmup = kDefaultWarmup, bo_csv = [], bo_only = []\<rparr>"

text \<open>\<open>None\<close> is the usage text and exit code 2.\<close>

fun parse_options :: "string list \<Rightarrow> Options \<Rightarrow> Options option" where
  "parse_options [] op = Some op"
| "parse_options (flag # args) op =
     (if flag = ''--iterations'' \<and> args \<noteq> [] then
        (case parse_count (hd args) of
           None \<Rightarrow> None
         | Some value \<Rightarrow> if value = 0 then None else parse_options (tl args) (op\<lparr>bo_iterations := value\<rparr>))
      else if flag = ''--warmup'' \<and> args \<noteq> [] then
        (case parse_count (hd args) of None \<Rightarrow> None | Some value \<Rightarrow> parse_options (tl args) (op\<lparr>bo_warmup := value\<rparr>))
      else if flag = ''--csv'' \<and> args \<noteq> [] then parse_options (tl args) (op\<lparr>bo_csv := hd args\<rparr>)
      else if flag = ''--only'' \<and> args \<noteq> [] then parse_options (tl args) (op\<lparr>bo_only := hd args\<rparr>)
      else None)"

definition benchmarks :: "string list" where
  "benchmarks = [''decode'', ''encode_ack'', ''sign'', ''roundtrip'']"

definition selected :: "Options \<Rightarrow> string \<Rightarrow> bool" where
  "selected op name \<longleftrightarrow> bo_only op = [] \<or> bo_only op = name"

text \<open>The benchmarks to run in order, or the usage text.\<close>

definition bench_plan :: "string list \<Rightarrow> (Options \<times> string list) option" where
  "bench_plan args =
     (case parse_options args default_Options of
        None \<Rightarrow> None
      | Some op \<Rightarrow>
          (case filter (selected op) benchmarks of [] \<Rightarrow> None | names \<Rightarrow> Some (op, names)))"

definition samples_taken :: "Options \<Rightarrow> uint64" where
  "samples_taken op = bo_warmup op + bo_iterations op"

definition elapsed_ms :: "int64 \<Rightarrow> int64 \<Rightarrow> double" where
  "elapsed_ms started_ns now_ns = ddiv (double_of_int (sint (now_ns - started_ns))) (double_lit 1 6)"

section \<open>Lemmas\<close>

lemma dec_plain: "is_dec c \<Longrightarrow> \<not> is_c_space c \<and> c \<noteq> CHR 0x2D \<and> c \<noteq> CHR 0x2B"
  by (auto simp: is_dec_def is_c_space_def)

lemma parse_count_digits:
  assumes "n < 2 ^ 64"
  shows "parse_count (nat_digits n) = Some (word_of_nat n)"
proof -
  have h: "is_dec (hd (nat_digits n))" using nat_digits_dec [of n] by simp
  have "dropWhile is_c_space (nat_digits n) = nat_digits n"
    using dec_plain [OF h] by (cases "nat_digits n") simp_all
  moreover have "dropWhile is_dec (nat_digits n) = []" using nat_digits_dec [of n] by simp
  ultimately show ?thesis using dec_plain [OF h] assms by (simp add: parse_count_def strtoull_def Let_def)
qed

text \<open>
  A count may be negative: \<open>strtoull\<close> negates, so a warm-up of minus one is accepted as \<open>2 ^ 64 - 1\<close>,
  the sum of the two options wraps, and every sample is dropped as warm-up.
\<close>

lemma count_minus_one: "parse_count ''-1'' = Some (- 1)"
  by (simp add: parse_count_def strtoull_def is_c_space_def is_dec_def digits_val_def digit_val_def Let_def)

lemma negative_warmup:
  "\<exists>op. bench_plan [''--warmup'', ''-1''] = Some (op, benchmarks) \<and> samples_taken op = 1999 \<and>
     (\<forall>samples. length samples = unat (samples_taken op) \<longrightarrow>
        from_samples samples (unat (bo_warmup op)) = Inl (Throws ''percentile of an empty sample''))"
proof -
  let ?op = "default_Options\<lparr>bo_warmup := - 1\<rparr>"
  have "bench_plan [''--warmup'', ''-1''] = Some (?op, benchmarks)"
    by (simp add: bench_plan_def count_minus_one selected_def default_Options_def benchmarks_def)
  moreover have t: "samples_taken ?op = 1999" by (simp add: samples_taken_def default_Options_def kDefaultIterations_def)
  moreover have "from_samples samples (unat (bo_warmup ?op)) = Inl (Throws ''percentile of an empty sample'')"
    if "length samples = unat (samples_taken ?op)" for samples
  proof -
    have "length samples = 1999" using that t by simp
    then have "length samples \<le> unat (bo_warmup ?op)" by (simp add: unsigned_minus_1_eq_mask mask_eq_exp_minus_1)
    then show ?thesis by (simp add: from_samples_def percentile_def min_absorb2)
  qed
  ultimately show ?thesis by blast
qed

end
