(* ===== verification/Clock.thy ===== *)
theory Clock
  imports Binary64_Error Protocol_Types
begin

text \<open>
  The clocks of \<open>src/clock.cpp\<close>. The readings of the two system clocks, in nanoseconds since their
  epochs, and the host name are arguments; what the code computes from them is modelled in the
  integers and doubles it uses.
\<close>

section \<open>Readings\<close>

text \<open>A cast to a coarser unit divides towards zero; \<open>nanoseconds\<close> is the clocks' own unit.\<close>

definition towards_zero_div :: "int \<Rightarrow> int \<Rightarrow> int" where
  "towards_zero_div a b = (if a < 0 then - (- a div b) else a div b)"

definition monotonic_ns :: "int64 \<Rightarrow> int64" where
  "monotonic_ns steady_ns = steady_ns"

definition wall_clock_ms :: "int64 \<Rightarrow> int64" where
  "wall_clock_ms system_ns = word_of_int (towards_zero_div (sint system_ns) 1000000)"

section \<open>The clock domain\<close>

definition kBootQuantumSeconds :: double where
  "kBootQuantumSeconds = double_lit 60 0"

text \<open>\<open>std::chrono::duration<double>\<close> of a count of nanoseconds.\<close>

definition seconds_of :: "int64 \<Rightarrow> double" where
  "seconds_of ns = ddiv (double_of_int (sint ns)) (double_lit 1 9)"

definition boot_quotient :: "int64 \<Rightarrow> int64 \<Rightarrow> double" where
  "boot_quotient system_ns steady_ns = ddiv (dsub (seconds_of system_ns) (seconds_of steady_ns)) kBootQuantumSeconds"

definition boot_seconds :: "int64 \<Rightarrow> int64 \<Rightarrow> int64" where
  "boot_seconds system_ns steady_ns =
     word_of_int (int_of_double (dmul (dfloor (boot_quotient system_ns steady_ns)) kBootQuantumSeconds))"

text \<open>
  \<open>gethostname\<close> answers a name or fails; it fills at most 255 bytes of a zeroed buffer of 256, which
  is read up to the first zero.
\<close>

definition host_text :: "string option \<Rightarrow> string" where
  "host_text host = (case host of None \<Rightarrow> [] | Some name \<Rightarrow> takeWhile (\<lambda>c. c \<noteq> CHR 0x00) (take 255 name))"

definition compute_clock_domain :: "string option \<Rightarrow> int64 \<Rightarrow> int64 \<Rightarrow> string" where
  "compute_clock_domain host system_ns steady_ns =
     host_text host @ '':'' @ to_chars_int (sint (boot_seconds system_ns steady_ns))"

text \<open>Computed on the first call, then kept.\<close>

definition clock_domain_token :: "string option \<Rightarrow> int64 \<Rightarrow> int64 \<Rightarrow> string option \<Rightarrow> string \<times> string option" where
  "clock_domain_token host system_ns steady_ns cached =
     (case cached of
        Some d \<Rightarrow> (d, cached)
      | None \<Rightarrow> let d = compute_clock_domain host system_ns steady_ns in (d, Some d))"

section \<open>The bucket\<close>

lemma sixty: "is_finite kBootQuantumSeconds" "valof kBootQuantumSeconds = 60" "\<not> is_zero kBootQuantumSeconds"
proof -
  have e: "kBootQuantumSeconds = of_index False 0x404E000000000000"
    by (simp add: kBootQuantumSeconds_def double_lit_def round_dec_def round_mag_def flog2_def ilog2.simps pow2_le_def Let_def rne_scaled_def rne_div_def)
  show "is_finite kBootQuantumSeconds" "valof kBootQuantumSeconds = 60" "\<not> is_zero kBootQuantumSeconds"
    unfolding e by (simp_all add: is_finite_def inf_index_def valof_def mag_value_def sig_def ulp_exp_def power_int_def power_divide is_zero_def)
qed

lemma giga: "is_finite (double_lit 1 9)" "valof (double_lit 1 9) = 10 ^ 9" "\<not> is_zero (double_lit 1 9)"
proof -
  have "double_lit 1 9 = of_index False 0x41CDCD6500000000"
    by (simp add: double_lit_def round_dec_def round_mag_def flog2_def ilog2.simps pow2_le_def Let_def rne_scaled_def rne_div_def)
  then show "is_finite (double_lit 1 9)" "valof (double_lit 1 9) = 10 ^ 9" "\<not> is_zero (double_lit 1 9)"
    by (simp_all add: is_finite_def inf_index_def valof_def mag_value_def sig_def ulp_exp_def power_int_def power_divide is_zero_def)
qed

lemma seconds_bound: "is_finite (seconds_of ns) \<and> \<bar>valof (seconds_of ns)\<bar> \<le> 2 ^ 34"
proof -
  obtain j where j: "j < inf_index" "mag_value j = 2 ^ 34" using power_index [of 34] by auto
  have n: "\<bar>sint ns\<bar> \<le> 2 ^ 63" using sint_ge [of ns] sint_lt [of ns] by simp
  have "\<exists>i < inf_index. mag_value i = 2 ^ 63" using representable [of 1 1137] by (simp add: power_int_def)
  then obtain i where i: "i < inf_index" "mag_value i = 2 ^ 63" by blast
  have "real (nat \<bar>sint ns\<bar>) \<le> 2 ^ 63"
  proof -
    have "of_int \<bar>sint ns\<bar> \<le> (of_int (2 ^ 63) :: real)" using n by (simp only: of_int_le_iff)
    then show ?thesis by simp
  qed
  then have d: "is_finite (double_of_int (sint ns)) \<and> \<bar>valof (double_of_int (sint ns))\<bar> \<le> 2 ^ 63"
    using round_frac_bound [of 1 "nat \<bar>sint ns\<bar>" i "sint ns < 0"] i by (simp add: double_of_int_def)
  then have "\<bar>valof (double_of_int (sint ns)) / valof (double_lit 1 9)\<bar> \<le> mag_value j"
    unfolding j(2) giga(2) by (simp add: abs_divide)
  with ddiv_bound [OF _ giga(1,3), of "double_of_int (sint ns)" j] d j show ?thesis by (simp add: seconds_of_def)
qed

lemma boot_quotient_bound: "is_finite (boot_quotient a b) \<and> \<bar>valof (boot_quotient a b)\<bar> \<le> 2 ^ 35"
proof -
  obtain j where j: "j < inf_index" "mag_value j = 2 ^ 35" using power_index [of 35] by auto
  have "\<bar>valof (seconds_of a) - valof (seconds_of b)\<bar> \<le> mag_value j"
    unfolding j(2)
    using conjunct2 [OF seconds_bound [of a]] conjunct2 [OF seconds_bound [of b]] by (simp add: abs_le_iff)
  with dsub_bound [of "seconds_of a" "seconds_of b" j] seconds_bound [of a] seconds_bound [of b] j(1)
  have d: "is_finite (dsub (seconds_of a) (seconds_of b))" "\<bar>valof (dsub (seconds_of a) (seconds_of b))\<bar> \<le> mag_value j" by simp_all
  then have "\<bar>valof (dsub (seconds_of a) (seconds_of b)) / valof kBootQuantumSeconds\<bar> \<le> mag_value j"
    unfolding sixty(2) by (simp add: abs_divide)
  with ddiv_bound [OF d(1) sixty(1,3), of j] j show ?thesis by (simp add: boot_quotient_def)
qed

lemma boot_seconds_bucket: "sint (boot_seconds a b) = 60 * \<lfloor>valof (boot_quotient a b)\<rfloor>"
proof -
  define k where "k = \<lfloor>valof (boot_quotient a b)\<rfloor>"
  have b: "\<bar>k\<bar> \<le> 2 ^ 35"
    using boot_quotient_bound [of a b] unfolding k_def by (simp add: abs_le_iff floor_le_iff le_floor_iff) linarith
  have f: "is_finite (dfloor (boot_quotient a b))" "valof (dfloor (boot_quotient a b)) = of_int k"
    using valof_dfloor [of "boot_quotient a b"] boot_quotient_bound [of a b] by (simp_all add: k_def)
  have "fits (of_int k * 60)"
  proof -
    have "nat \<bar>k * 60\<bar> \<le> 2 ^ 53" using b by (simp add: nat_le_iff abs_mult)
    from representable_int [OF this] show ?thesis by (auto simp: fits_def abs_mult)
  qed
  with dmul_exact [OF f(1) sixty(1)] f(2) sixty(2)
  have "valof (dmul (dfloor (boot_quotient a b)) kBootQuantumSeconds) = of_int (k * 60)" by simp
  then have "int_of_double (dmul (dfloor (boot_quotient a b)) kBootQuantumSeconds) = k * 60" by (rule int_of_whole)
  moreover have "sint (word_of_int (k * 60) :: int64) = k * 60"
    unfolding sint_sbintrunc' by (rule signed_take_bit_int_eq_self) (use b in simp_all)
  ultimately show ?thesis by (simp add: boot_seconds_def k_def)
qed

lemma decimal_no_colon: "CHR '':'' \<notin> set (to_chars_int v)"
  using nat_digits_dec [of "nat v"] nat_digits_dec [of "nat (- v)"] by (auto simp: to_chars_int_def is_dec_def)

lemma split_last_colon:
  assumes "a @ '':'' @ x = b @ '':'' @ y" "CHR '':'' \<notin> set x" "CHR '':'' \<notin> set y"
  shows "a = b \<and> x = y"
proof -
  have t: "takeWhile (\<lambda>c. c \<noteq> CHR '':'') (rev (d @ '':'' @ z)) = rev z" if "CHR '':'' \<notin> set z" for d z
    using that takeWhile_append2 [of "rev z" "\<lambda>c. c \<noteq> CHR '':''" "'':'' @ rev d"] by fastforce
  have "rev x = rev y" using t [OF assms(2), of a] t [OF assms(3), of b] assms(1) by metis
  then show ?thesis using assms(1) by simp
qed

lemma token_inject:
  "(h @ '':'' @ to_chars_int (60 * v) = h' @ '':'' @ to_chars_int (60 * w)) = (h = h' \<and> v = w)"
proof
  assume e: "h @ '':'' @ to_chars_int (60 * v) = h' @ '':'' @ to_chars_int (60 * w)"
  have d: "h = h' \<and> to_chars_int (60 * v) = to_chars_int (60 * w)"
    by (rule split_last_colon [OF e decimal_no_colon decimal_no_colon])
  then have "Some (60 * v) = Some (60 * w)" by (metis parse_int_to_chars)
  with d show "h = h' \<and> v = w" by simp
qed simp

section \<open>The boot time\<close>

text \<open>
  What the token is about, in the reals: the wall-clock time at which the machine's monotonic clock
  was zero, in seconds. The code computes it in \<open>double\<close>; the five roundings put its quotient by
  sixty off by less than ten microseconds of boot time.
\<close>

definition boot_time :: "int64 \<Rightarrow> int64 \<Rightarrow> real" where
  "boot_time system_ns steady_ns = (of_int (sint system_ns) - of_int (sint steady_ns)) / 10 ^ 9"

text \<open>The bucket of sixty seconds a time lies in.\<close>

definition bucket :: "real \<Rightarrow> int" where
  "bucket t = \<lfloor>t / 60\<rfloor>"

text \<open>A boot time that is not within ten microseconds of the edge of a bucket.\<close>

definition settled :: "real \<Rightarrow> bool" where
  "settled t \<longleftrightarrow> bucket (t - 1 / 10 ^ 5) = bucket (t + 1 / 10 ^ 5)"

lemma bucket_mono: "s \<le> t \<Longrightarrow> bucket s \<le> bucket t"
  unfolding bucket_def by (intro floor_mono divide_right_mono) simp_all

lemma tiny: "(2::real) powi (- 1075) \<le> 1 / 2 ^ 60"
proof -
  have "(2::real) powi (- 1075) \<le> 2 powi (- 60)" unfolding powi2_le_iff by simp
  then show ?thesis by (simp add: power_int_minus inverse_eq_divide)
qed

lemma reading_bound: "\<bar>real_of_int (sint (n :: int64))\<bar> \<le> 2 ^ 63"
proof -
  have "\<bar>sint n\<bar> \<le> 2 ^ 63" using sint_ge [of n] sint_lt [of n] by simp
  then have "of_int \<bar>sint n\<bar> \<le> (of_int (2 ^ 63) :: real)" by (simp only: of_int_le_iff)
  then show ?thesis by simp
qed

lemma seconds_near: "\<bar>valof (seconds_of n) - of_int (sint n) / 10 ^ 9\<bar> \<le> 2052 / 10 ^ 9"
proof -
  define x where "x = valof (double_of_int (sint n))"
  have i: "is_finite (double_of_int (sint n))" "is_finite (seconds_of n)"
    using seconds_bound [of n] ddiv_finite [of "double_of_int (sint n)" "double_lit 1 9"] by (simp_all add: seconds_of_def)
  have "\<bar>x - of_int (sint n)\<bar> \<le> 2 ^ 63 / 2 ^ 53 + 2 powi (- 1075)"
    using double_of_int_error [OF i(1)] rounding_of_mono [OF reading_bound [of n]] unfolding x_def by linarith
  then have x: "\<bar>x - of_int (sint n)\<bar> \<le> 1025" using tiny by simp
  then have d: "\<bar>x / 10 ^ 9 - of_int (sint n) / 10 ^ 9\<bar> \<le> 1025 / 10 ^ 9"
    unfolding diff_divide_distrib [symmetric] abs_divide by simp
  have b: "\<bar>of_int (sint n) / 10 ^ 9 :: real\<bar> \<le> 2 ^ 63 / 10 ^ 9" using reading_bound [of n] by (simp add: abs_divide)
  have "\<bar>valof (seconds_of n) - x / 10 ^ 9\<bar> \<le> rounding_of (x / 10 ^ 9)"
    using ddiv_error [OF i(1) giga(1,3)] i(2) by (simp only: seconds_of_def giga(2) x_def)
  from error_step [OF this d b] tiny show ?thesis by simp
qed

lemma difference_error:
  fixes x y :: real
  shows "\<bar>x - a\<bar> \<le> e \<Longrightarrow> \<bar>y - b\<bar> \<le> e \<Longrightarrow> \<bar>x - y - (a - b)\<bar> \<le> e + e"
  by linarith

lemma boot_quotient_near: "\<bar>valof (boot_quotient a b) - boot_time a b / 60\<bar> \<le> 1 / (60 * 10 ^ 5)"
proof -
  define w where "w = dsub (seconds_of a) (seconds_of b)"
  have f: "is_finite (seconds_of a)" "is_finite (seconds_of b)" "is_finite w" "is_finite (ddiv w kBootQuantumSeconds)"
    using seconds_bound boot_quotient_bound [of a b] ddiv_finite [of w kBootQuantumSeconds] by (simp_all add: boot_quotient_def w_def)
  have bt: "boot_time a b = of_int (sint a) / 10 ^ 9 - of_int (sint b) / 10 ^ 9" by (simp add: boot_time_def diff_divide_distrib)
  have d: "\<bar>valof (seconds_of a) - valof (seconds_of b) - boot_time a b\<bar> \<le> 4104 / 10 ^ 9"
    using difference_error [OF seconds_near seconds_near] unfolding bt by simp
  have "\<bar>of_int (sint a) / 10 ^ 9 :: real\<bar> \<le> 2 ^ 63 / 10 ^ 9" "\<bar>of_int (sint b) / 10 ^ 9 :: real\<bar> \<le> 2 ^ 63 / 10 ^ 9"
    using reading_bound [of a] reading_bound [of b] by (simp_all add: abs_divide)
  then have tb: "\<bar>boot_time a b\<bar> \<le> 2 ^ 64 / 10 ^ 9"
    unfolding bt using difference_error [of "of_int (sint a) / 10 ^ 9" 0 "2 ^ 63 / 10 ^ 9" "of_int (sint b) / 10 ^ 9" 0] by simp
  have e: "\<bar>valof w - boot_time a b\<bar> \<le> 6200 / 10 ^ 9"
    using error_step [OF dsub_error [OF f(1,2) f(3) [unfolded w_def]] d tb] tiny by (simp add: w_def)
  then have e': "\<bar>valof w / 60 - boot_time a b / 60\<bar> \<le> 104 / 10 ^ 9"
    unfolding diff_divide_distrib [symmetric] abs_divide by simp
  have tb': "\<bar>boot_time a b / 60\<bar> \<le> 308 * 10 ^ 6" using tb by (simp add: abs_divide)
  have "\<bar>valof (boot_quotient a b) - valof w / 60\<bar> \<le> rounding_of (valof w / 60)"
    using ddiv_error [OF f(3) sixty(1,3) f(4)] by (simp only: boot_quotient_def w_def sixty(2))
  from error_step [OF this e' tb'] tiny show ?thesis by simp
qed

text \<open>The bucket in the token is that of a time less than ten microseconds from the boot time.\<close>

lemma boot_seconds_near:
  "60 * bucket (boot_time a b - 1 / 10 ^ 5) \<le> sint (boot_seconds a b) \<and>
   sint (boot_seconds a b) \<le> 60 * bucket (boot_time a b + 1 / 10 ^ 5)"
proof -
  have "(boot_time a b - 1 / 10 ^ 5) / 60 \<le> valof (boot_quotient a b)" "valof (boot_quotient a b) \<le> (boot_time a b + 1 / 10 ^ 5) / 60"
    using boot_quotient_near [of a b] unfolding abs_le_iff add_divide_distrib diff_divide_distrib by simp_all
  then show ?thesis unfolding boot_seconds_bucket bucket_def by (simp add: floor_mono)
qed

lemma boot_seconds_settled:
  assumes "settled (boot_time a b)"
  shows "sint (boot_seconds a b) = 60 * bucket (boot_time a b)"
  using boot_seconds_near [of a b] assms bucket_mono [of "boot_time a b - 1 / 10 ^ 5" "boot_time a b"]
    bucket_mono [of "boot_time a b" "boot_time a b + 1 / 10 ^ 5"] by (simp add: settled_def)

text \<open>
  The buckets have fixed edges, so a correction of the wall clock by two milliseconds can give two
  processes of one machine different tokens.
\<close>

lemma edge_readings_disagree:
  "compute_clock_domain host 59999000000 0 \<noteq> compute_clock_domain host 60001000000 0"
proof -
  have r: "sint (59999000000 :: int64) = 59999000000" "sint (60001000000 :: int64) = 60001000000" "sint (0 :: int64) = 0" by simp_all
  have b: "boot_time 59999000000 0 = 59999 / 1000" "boot_time 60001000000 0 = 60001 / 1000" unfolding boot_time_def r by simp_all
  have k: "bucket (59999 / 1000) = 0" "bucket (60001 / 1000) = 1" "bucket (59999 / 1000 - 1 / 10 ^ 5) = 0"
    "bucket (59999 / 1000 + 1 / 10 ^ 5) = 0" "bucket (60001 / 1000 - 1 / 10 ^ 5) = 1" "bucket (60001 / 1000 + 1 / 10 ^ 5) = 1"
    unfolding bucket_def by (simp_all add: floor_eq_iff)
  have s: "settled (boot_time 59999000000 0)" "settled (boot_time 60001000000 0)" unfolding b settled_def k by (rule refl)+
  show ?thesis
    unfolding compute_clock_domain_def boot_seconds_settled [OF s(1)] boot_seconds_settled [OF s(2)] token_inject b k by simp
qed

section \<open>Properties\<close>

text \<open>
  C40: two processes on one machine agree on the token exactly when they should: for readings of
  the two clocks whose boot times (wall clock less monotonic clock, in the reals) are not within ten
  microseconds of a multiple of sixty seconds, the tokens are equal if and only if the host names are
  and the boot times fall into the same bucket of sixty seconds, and the number in the token is the
  start of that bucket. Within ten microseconds of an edge the roundings can move the token to the
  neighbouring bucket (\<open>boot_seconds_near\<close> bounds it there).
\<close>

theorem clock_domain_agrees:
  assumes "settled (boot_time system steady)" "settled (boot_time system' steady')"
  shows "(compute_clock_domain host system steady = compute_clock_domain host' system' steady') =
     (host_text host = host_text host' \<and> bucket (boot_time system steady) = bucket (boot_time system' steady')) \<and>
   compute_clock_domain host system steady = host_text host @ '':'' @ to_chars_int (60 * bucket (boot_time system steady))"
  by (simp only: compute_clock_domain_def boot_seconds_settled [OF assms(1)] boot_seconds_settled [OF assms(2)] token_inject simp_thms)

theorem clock_domain_agrees_witness:
  "compute_clock_domain (Some ''h'') 100000000000 10000000000 = ''h:60'' \<and>
   compute_clock_domain (Some ''h'') 100000000000 10000000000 = compute_clock_domain (Some ''h'') 130000000000 20000000000"
proof -
  have r: "sint (100000000000 :: int64) = 100000000000" "sint (10000000000 :: int64) = 10000000000"
    "sint (130000000000 :: int64) = 130000000000" "sint (20000000000 :: int64) = 20000000000" by simp_all
  have b: "boot_time 100000000000 10000000000 = 90" "boot_time 130000000000 20000000000 = 110"
    by (simp_all add: boot_time_def r)
  have k: "bucket 90 = 1" "bucket 110 = 1" "bucket (90 - 1 / 10 ^ 5) = 1" "bucket (90 + 1 / 10 ^ 5) = 1"
    "bucket (110 - 1 / 10 ^ 5) = 1" "bucket (110 + 1 / 10 ^ 5) = 1"
    unfolding bucket_def by (simp_all add: floor_eq_iff)
  have s: "settled (boot_time 100000000000 10000000000)" "settled (boot_time 130000000000 20000000000)"
    unfolding b settled_def k by (rule refl)+
  have h: "host_text (Some ''h'') = ''h''" by (simp add: host_text_def)
  have d: "to_chars_int 60 = ''60''" by code_simp
  note w = clock_domain_agrees [OF s, of "Some ''h''" "Some ''h''", unfolded b k h mult.right_neutral d append.simps]
  from conjunct2 [OF w] conjunct1 [OF w] show ?thesis by blast
qed

end
