(* ===== verification/Signer.thy ===== *)
theory Signer
  imports Charconv
begin

text \<open>
  The request signer of \<open>src/signer.cpp\<close>. OpenSSL is an argument: a record of the calls the code
  makes, on a state \<open>'o\<close> that is its own, with a key type \<open>'k\<close>. Each call also answers the entries it
  adds to the error queue, which is the signer's to read. Handles are counted, so that what is
  allocated and freed on every path can be stated.
\<close>

section \<open>OpenSSL\<close>

datatype digest = Sha256 | Other_digest

datatype rsa_padding = Pkcs1_padding | Pss_padding

datatype salt_length = Salt_digest | Salt_max

record ('o, 'k) openssl =
  ssl_open_file :: "string \<Rightarrow> 'o \<Rightarrow> bool \<times> string list \<times> 'o"
  ssl_read_pem :: "'o \<Rightarrow> 'k option \<times> string list \<times> 'o"
  ssl_is_rsa :: "'k \<Rightarrow> bool"
  ssl_new_ctx :: "'o \<Rightarrow> bool \<times> string list \<times> 'o"
  ssl_sign_init :: "digest \<Rightarrow> 'k \<Rightarrow> 'o \<Rightarrow> bool \<times> string list \<times> 'o"
  ssl_set_padding :: "rsa_padding \<Rightarrow> 'o \<Rightarrow> bool \<times> string list \<times> 'o"
  ssl_set_saltlen :: "salt_length \<Rightarrow> 'o \<Rightarrow> bool \<times> string list \<times> 'o"
  ssl_set_mgf1 :: "digest \<Rightarrow> 'o \<Rightarrow> bool \<times> string list \<times> 'o"
  ssl_sign_size :: "string \<Rightarrow> 'o \<Rightarrow> nat option \<times> string list \<times> 'o"
  ssl_sign :: "nat \<Rightarrow> string \<Rightarrow> 'o \<Rightarrow> byte list option \<times> string list \<times> 'o"
  ssl_encode_block :: "byte list \<Rightarrow> 'o \<Rightarrow> string option \<times> string list \<times> 'o"

record 'o crypto =
  cr_state :: 'o
  cr_errors :: "string list"
  cr_bios :: nat
  cr_pkeys :: nat
  cr_ctxs :: nat

definition crypto_init :: "'o \<Rightarrow> 'o crypto" where
  "crypto_init w = \<lparr>cr_state = w, cr_errors = [], cr_bios = 0, cr_pkeys = 0, cr_ctxs = 0\<rparr>"

text \<open>A call of the library, its errors put behind the ones already queued.\<close>

definition ssl_call :: "('o \<Rightarrow> 'a \<times> string list \<times> 'o) \<Rightarrow> 'o crypto \<Rightarrow> 'a \<times> 'o crypto" where
  "ssl_call f c = (case f (cr_state c) of (r, errs, w) \<Rightarrow> (r, c\<lparr>cr_state := w, cr_errors := cr_errors c @ errs\<rparr>))"

definition clear_error :: "'o crypto \<Rightarrow> 'o crypto" where
  "clear_error c = c\<lparr>cr_errors := []\<rparr>"

section \<open>Errors\<close>

text \<open>\<open>openssl_error\<close>: the queue emptied into one text; an entry is cut to 255 bytes.\<close>

fun join_errors :: "string \<Rightarrow> string list \<Rightarrow> string" where
  "join_errors message [] = message"
| "join_errors message (code # codes) =
     join_errors ((if message \<noteq> [] then message @ ''; '' else message) @ take 255 code) codes"

definition openssl_error :: "'o crypto \<Rightarrow> string \<times> 'o crypto" where
  "openssl_error c =
     (let message = join_errors [] (cr_errors c)
      in (if message = [] then ''no OpenSSL error recorded'' else message, c\<lparr>cr_errors := []\<rparr>))"

datatype failure = Logic_error string | Runtime_error string | Buffer_overrun

section \<open>The signer\<close>

record 'k signer =
  sg_private_key_path :: string
  sg_key :: "'k option"
  sg_message :: string
  sg_signature :: "byte list"

definition RequestSigner :: "string \<Rightarrow> 'k signer" where
  "RequestSigner path = \<lparr>sg_private_key_path = path, sg_key = None, sg_message = [], sg_signature = []\<rparr>"

text \<open>The destructor of a key frees its context and its key, if there are any.\<close>

definition destroy_key :: "'k option \<Rightarrow> 'o crypto \<Rightarrow> 'o crypto" where
  "destroy_key k c = (case k of None \<Rightarrow> c | Some _ \<Rightarrow> c\<lparr>cr_ctxs := cr_ctxs c - 1, cr_pkeys := cr_pkeys c - 1\<rparr>)"

definition load :: "('o, 'k) openssl \<Rightarrow> 'k signer \<Rightarrow> 'o crypto \<Rightarrow> string option \<times> 'k signer \<times> 'o crypto" where
  "load ssl sg c =
     (let (opened, c) = ssl_call (ssl_open_file ssl (sg_private_key_path sg)) (clear_error c)
      in if \<not> opened
         then let (e, c) = openssl_error c in (Some (''cannot read '' @ sg_private_key_path sg @ '': '' @ e), sg, c)
         else
           let (pkey, c) = ssl_call (ssl_read_pem ssl) (c\<lparr>cr_bios := cr_bios c + 1\<rparr>);
               c = c\<lparr>cr_bios := cr_bios c - 1\<rparr>
           in case pkey of
                None \<Rightarrow>
                  let (e, c) = openssl_error c
                  in (Some (sg_private_key_path sg @ '' is not an unencrypted PEM private key: '' @ e), sg, c)
              | Some k \<Rightarrow>
                  let c = c\<lparr>cr_pkeys := cr_pkeys c + 1\<rparr>
                  in if \<not> ssl_is_rsa ssl k
                     then (Some (sg_private_key_path sg @ '' does not contain an RSA private key''), sg,
                           c\<lparr>cr_pkeys := cr_pkeys c - 1\<rparr>)
                     else
                       let (made, c) = ssl_call (ssl_new_ctx ssl) c
                       in if \<not> made
                          then let (e, c) = openssl_error c
                               in (Some (''EVP_MD_CTX_new: '' @ e), sg, c\<lparr>cr_pkeys := cr_pkeys c - 1\<rparr>)
                          else let c = destroy_key (sg_key sg) (c\<lparr>cr_ctxs := cr_ctxs c + 1\<rparr>)
                               in (None, sg\<lparr>sg_key := Some k\<rparr>, c))"

definition destroy_signer :: "'k signer \<Rightarrow> 'o crypto \<Rightarrow> 'o crypto" where
  "destroy_signer sg c = destroy_key (sg_key sg) c"

text \<open>
  \<open>base64\<close>: a buffer for the encoding and its terminator, filled by \<open>EVP_EncodeBlock\<close> and cut to the
  length that call returns. A text that does not fit with its terminator would overrun the buffer.
\<close>

definition base64 :: "('o, 'k) openssl \<Rightarrow> byte list \<Rightarrow> 'o crypto \<Rightarrow> (failure + string) \<times> 'o crypto" where
  "base64 ssl bytes c =
     (let size = 4 * ((length bytes + 2) div 3) + 1;
          encoded = replicate size (CHR 0x00);
          (written, c) = ssl_call (ssl_encode_block ssl bytes) c
      in case written of
           None \<Rightarrow> let (e, c) = openssl_error c in (Inl (Runtime_error (''EVP_EncodeBlock: '' @ e)), c)
         | Some t \<Rightarrow>
             if length t + 1 > size then (Inl Buffer_overrun, c)
             else (Inr (take (length t) (t @ [CHR 0x00] @ drop (length t + 1) encoded)), c))"

definition resize :: "nat \<Rightarrow> byte list \<Rightarrow> byte list" where
  "resize n bs = take n (bs @ replicate n 0)"

definition sign_message :: "('o, 'k) openssl \<Rightarrow> string \<Rightarrow> 'k signer \<Rightarrow> 'o crypto \<Rightarrow> (failure + string) \<times> 'k signer \<times> 'o crypto" where
  "sign_message ssl m sg c =
     (case sg_key sg of
        None \<Rightarrow> (Inl (Logic_error ''RequestSigner::sign before a successful load()''), sg, c)
      | Some k \<Rightarrow>
          let fail = (\<lambda>what sg c. let (e, c) = openssl_error c in (Inl (Runtime_error (what @ e)), sg, c));
              (ok, c) = ssl_call (ssl_sign_init ssl Sha256 k) (clear_error c)
          in if \<not> ok then fail ''EVP_DigestSignInit: '' sg c
             else
               let (ok, c) = ssl_call (ssl_set_padding ssl Pss_padding) c;
                   (ok, c) = (if ok then ssl_call (ssl_set_saltlen ssl Salt_digest) c else (False, c));
                   (ok, c) = (if ok then ssl_call (ssl_set_mgf1 ssl Sha256) c else (False, c))
               in if \<not> ok then fail ''PSS parameters: '' sg c
                  else
                    let (size, c) = ssl_call (ssl_sign_size ssl m) c
                    in case size of
                         None \<Rightarrow> fail ''EVP_DigestSign sizing: '' sg c
                       | Some n \<Rightarrow>
                           let sg = sg\<lparr>sg_signature := resize n (sg_signature sg)\<rparr>;
                               (raw, c) = ssl_call (ssl_sign ssl n m) c
                           in case raw of
                                None \<Rightarrow> fail ''EVP_DigestSign: '' sg c
                              | Some raw \<Rightarrow>
                                  let (r, c) = base64 ssl raw c in (r, sg\<lparr>sg_signature := raw\<rparr>, c))"

definition sign :: "('o, 'k) openssl \<Rightarrow> string \<Rightarrow> string \<Rightarrow> string \<Rightarrow> 'k signer \<Rightarrow> 'o crypto \<Rightarrow> (failure + string) \<times> 'k signer \<times> 'o crypto" where
  "sign ssl timestamp meth path sg c =
     (let sg = sg\<lparr>sg_message := timestamp @ meth @ path\<rparr> in sign_message ssl (sg_message sg) sg c)"

definition kWebSocketAuthMethod :: string where
  "kWebSocketAuthMethod = ''GET''"

definition kWebSocketAuthPath :: string where
  "kWebSocketAuthPath = ''/trade-api/ws/v2''"

definition sign_websocket_auth :: "('o, 'k) openssl \<Rightarrow> string \<Rightarrow> 'k signer \<Rightarrow> 'o crypto \<Rightarrow> (failure + string) \<times> 'k signer \<times> 'o crypto" where
  "sign_websocket_auth ssl timestamp sg c = sign ssl timestamp kWebSocketAuthMethod kWebSocketAuthPath sg c"

section \<open>Handles\<close>

text \<open>What is allocated between calls: a key and its context exactly when the signer has a key.\<close>

definition handles_ok :: "'k signer \<Rightarrow> 'o crypto \<Rightarrow> bool" where
  "handles_ok sg c \<longleftrightarrow> cr_bios c = 0 \<and> cr_pkeys c = (if sg_key sg = None then 0 else 1) \<and> cr_ctxs c = cr_pkeys c"

lemma ssl_call_handles [simp]:
  "cr_bios (snd (ssl_call f c)) = cr_bios c" "cr_pkeys (snd (ssl_call f c)) = cr_pkeys c" "cr_ctxs (snd (ssl_call f c)) = cr_ctxs c"
  by (simp_all add: ssl_call_def split: prod.split)

lemma ssl_call_handlesD:
  "ssl_call f c = (r, c') \<Longrightarrow> cr_bios c' = cr_bios c \<and> cr_pkeys c' = cr_pkeys c \<and> cr_ctxs c' = cr_ctxs c"
  using ssl_call_handles [of f c] by simp

lemma openssl_error_handles [simp]:
  "cr_bios (snd (openssl_error c)) = cr_bios c" "cr_pkeys (snd (openssl_error c)) = cr_pkeys c" "cr_ctxs (snd (openssl_error c)) = cr_ctxs c"
  by (simp_all add: openssl_error_def Let_def)

lemma openssl_error_handlesD:
  "openssl_error c = (e, c') \<Longrightarrow> cr_bios c' = cr_bios c \<and> cr_pkeys c' = cr_pkeys c \<and> cr_ctxs c' = cr_ctxs c"
  using openssl_error_handles [of c] by simp

lemma clear_error_handles [simp]:
  "cr_bios (clear_error c) = cr_bios c" "cr_pkeys (clear_error c) = cr_pkeys c" "cr_ctxs (clear_error c) = cr_ctxs c"
  by (simp_all add: clear_error_def)

lemmas handle_dests = ssl_call_handlesD openssl_error_handlesD

lemma load_handles:
  assumes "load ssl sg c = (r, sg', c')" "handles_ok sg c"
  shows "handles_ok sg' c' \<and> (if r = None then sg_key sg' \<noteq> None else sg' = sg)"
  using assms
  by (auto simp: load_def handles_ok_def destroy_key_def Let_def dest!: handle_dests split: if_splits option.splits prod.splits)

lemma base64_handles:
  "base64 ssl bytes c = (r, c') \<Longrightarrow> cr_bios c' = cr_bios c \<and> cr_pkeys c' = cr_pkeys c \<and> cr_ctxs c' = cr_ctxs c"
  by (auto simp: base64_def Let_def dest!: handle_dests split: if_splits option.splits prod.splits)

text \<open>
  The calls \<open>sign_message\<close> makes when nothing fails before the encoding, and that it keeps the handles
  and the key whatever fails.
\<close>

lemma sign_message_keeps:
  assumes "sign_message ssl m sg c = (r, sg', c')"
  shows "cr_bios c' = cr_bios c \<and> cr_pkeys c' = cr_pkeys c \<and> cr_ctxs c' = cr_ctxs c \<and> sg_key sg' = sg_key sg"
  using assms
  by (auto simp: sign_message_def Let_def dest!: handle_dests base64_handles split: if_splits option.splits prod.splits)

lemma sign_keeps:
  assumes "sign ssl timestamp meth path sg c = (r, sg', c')" "handles_ok sg c"
  shows "handles_ok sg' c'"
  using sign_message_keeps [of ssl "timestamp @ meth @ path" "sg\<lparr>sg_message := timestamp @ meth @ path\<rparr>" c r sg' c'] assms
  by (simp add: sign_def handles_ok_def)

text \<open>Any use of a signer: loads, which may fail or replace the key, and signatures, which may fail.\<close>

datatype signer_use = Use_load | Use_sign string string string

fun use_signer :: "('o, 'k) openssl \<Rightarrow> signer_use list \<Rightarrow> 'k signer \<Rightarrow> 'o crypto \<Rightarrow> 'k signer \<times> 'o crypto" where
  "use_signer ssl [] sg c = (sg, c)"
| "use_signer ssl (Use_load # us) sg c = (case load ssl sg c of (r, sg, c) \<Rightarrow> use_signer ssl us sg c)"
| "use_signer ssl (Use_sign ts me pa # us) sg c = (case sign ssl ts me pa sg c of (r, sg, c) \<Rightarrow> use_signer ssl us sg c)"

lemma use_signer_handles: "handles_ok sg c \<Longrightarrow> use_signer ssl us sg c = (sg', c') \<Longrightarrow> handles_ok sg' c'"
proof (induction ssl us sg c rule: use_signer.induct)
  case (2 ssl us sg c)
  then show ?case by (auto split: prod.splits dest: load_handles)
next
  case (3 ssl ts me pa us sg c)
  then show ?case by (auto split: prod.splits dest: sign_keeps)
qed simp

lemma signer_releases:
  assumes "use_signer ssl us (RequestSigner path) (crypto_init w) = (sg, c)"
  shows "cr_bios (destroy_signer sg c) = 0 \<and> cr_pkeys (destroy_signer sg c) = 0 \<and> cr_ctxs (destroy_signer sg c) = 0"
proof -
  have "handles_ok (RequestSigner path) (crypto_init w)" by (simp add: handles_ok_def RequestSigner_def crypto_init_def)
  from use_signer_handles [OF this assms] show ?thesis
    by (auto simp: handles_ok_def destroy_signer_def destroy_key_def split: option.splits)
qed

lemma sign_message_success:
  assumes "sign_message ssl m sg c = (Inr text, sg', c')"
  obtains k o1 o2 o3 o4 o5 o6 n raw e1 e2 e3 e4 e5 e6 e7 o7 written where "sg_key sg = Some k"
    "ssl_sign_init ssl Sha256 k (cr_state c) = (True, e1, o1)" "ssl_set_padding ssl Pss_padding o1 = (True, e2, o2)"
    "ssl_set_saltlen ssl Salt_digest o2 = (True, e3, o3)" "ssl_set_mgf1 ssl Sha256 o3 = (True, e4, o4)"
    "ssl_sign_size ssl m o4 = (Some n, e5, o5)" "ssl_sign ssl n m o5 = (Some raw, e6, o6)"
    "ssl_encode_block ssl raw o6 = (Some written, e7, o7)" "text = written" "sg_signature sg' = raw"
    "length written + 1 \<le> 4 * ((length raw + 2) div 3) + 1"
  using assms
  by (auto simp: sign_message_def base64_def ssl_call_def openssl_error_def clear_error_def Let_def
      split: if_splits option.splits prod.splits)

lemma sign_message_message: "sg_message (fst (snd (sign_message ssl m sg c))) = sg_message sg"
  by (simp add: sign_message_def base64_def openssl_error_def Let_def split: option.split prod.split)

section \<open>What OpenSSL documents\<close>

text \<open>Base 64 (RFC 4648, without line breaks).\<close>

definition base64_alphabet :: string where
  "base64_alphabet = ''ABCDEFGHIJKLMNOPQRSTUVWXYZabcdefghijklmnopqrstuvwxyz0123456789+/''"

definition base64_char :: "byte \<Rightarrow> char" where
  "base64_char b = base64_alphabet ! (unat b mod 64)"

fun base64_of :: "byte list \<Rightarrow> string" where
  "base64_of [] = []"
| "base64_of [a] = [base64_char (drop_bit 2 a), base64_char (push_bit 4 a), CHR ''='', CHR ''='']"
| "base64_of [a, b] = [base64_char (drop_bit 2 a), base64_char (push_bit 4 a OR drop_bit 4 b), base64_char (push_bit 2 b), CHR ''='']"
| "base64_of (a # b # c # bs) =
     base64_char (drop_bit 2 a) # base64_char (push_bit 4 a OR drop_bit 4 b) #
     base64_char (push_bit 2 b OR drop_bit 6 c) # base64_char c # base64_of bs"

lemma length_base64_of: "length (base64_of bs) = 4 * ((length bs + 2) div 3)"
proof (induction bs rule: base64_of.induct)
  case (4 a b c bs)
  then show ?case by simp presburger
qed simp_all

text \<open>
  The parameters a signature is made with: \<open>conf\<close> reads them off the library's state. Initialising
  sets the digest and the key, each setter sets its parameter, computing the size changes
  nothing, a signature that is made verifies under the parameters in force, and
  \<open>EVP_EncodeBlock\<close> writes base 64.
\<close>

record 'k sign_config =
  sc_key :: 'k
  sc_digest :: digest
  sc_padding :: rsa_padding
  sc_salt :: salt_length
  sc_mgf1 :: digest

definition documented :: "('o, 'k) openssl \<Rightarrow> ('o \<Rightarrow> 'k sign_config option) \<Rightarrow> ('k sign_config \<Rightarrow> string \<Rightarrow> byte list \<Rightarrow> bool) \<Rightarrow> bool" where
  "documented ssl conf verifies \<longleftrightarrow>
     (\<forall>d k w errs w'. ssl_sign_init ssl d k w = (True, errs, w') \<longrightarrow>
        (\<exists>sc. conf w' = Some sc \<and> sc_key sc = k \<and> sc_digest sc = d)) \<and>
     (\<forall>p w errs w' sc. ssl_set_padding ssl p w = (True, errs, w') \<longrightarrow> conf w = Some sc \<longrightarrow> conf w' = Some (sc\<lparr>sc_padding := p\<rparr>)) \<and>
     (\<forall>l w errs w' sc. ssl_set_saltlen ssl l w = (True, errs, w') \<longrightarrow> conf w = Some sc \<longrightarrow> conf w' = Some (sc\<lparr>sc_salt := l\<rparr>)) \<and>
     (\<forall>d w errs w' sc. ssl_set_mgf1 ssl d w = (True, errs, w') \<longrightarrow> conf w = Some sc \<longrightarrow> conf w' = Some (sc\<lparr>sc_mgf1 := d\<rparr>)) \<and>
     (\<forall>m w n errs w'. ssl_sign_size ssl m w = (Some n, errs, w') \<longrightarrow> conf w' = conf w) \<and>
     (\<forall>n m w raw errs w' sc. ssl_sign ssl n m w = (Some raw, errs, w') \<longrightarrow> conf w = Some sc \<longrightarrow> verifies sc m raw) \<and>
     (\<forall>bs w t errs w'. ssl_encode_block ssl bs w = (Some t, errs, w') \<longrightarrow> t = base64_of bs)"

lemma documentedD:
  assumes "documented ssl conf verifies"
  shows "ssl_sign_init ssl d k w = (True, errs, w') \<Longrightarrow> \<exists>sc. conf w' = Some sc \<and> sc_key sc = k \<and> sc_digest sc = d"
    and "ssl_set_padding ssl p w = (True, errs, w') \<Longrightarrow> conf w = Some sc \<Longrightarrow> conf w' = Some (sc\<lparr>sc_padding := p\<rparr>)"
    and "ssl_set_saltlen ssl l w = (True, errs, w') \<Longrightarrow> conf w = Some sc \<Longrightarrow> conf w' = Some (sc\<lparr>sc_salt := l\<rparr>)"
    and "ssl_set_mgf1 ssl d w = (True, errs, w') \<Longrightarrow> conf w = Some sc \<Longrightarrow> conf w' = Some (sc\<lparr>sc_mgf1 := d\<rparr>)"
    and "ssl_sign_size ssl m w = (Some n, errs, w') \<Longrightarrow> conf w' = conf w"
    and "ssl_sign ssl n m w = (Some raw, errs, w') \<Longrightarrow> conf w = Some sc \<Longrightarrow> verifies sc m raw"
    and "ssl_encode_block ssl bs w = (Some t, errs, w') \<Longrightarrow> t = base64_of bs"
  using assms by (auto simp: documented_def) metis+

lemma base64_fits:
  assumes "documented ssl conf verifies"
  shows "fst (base64 ssl bytes c) \<noteq> Inl Buffer_overrun"
proof (cases "ssl_encode_block ssl bytes (cr_state c)")
  case (fields t errs w)
  have "length u = 4 * ((length bytes + 2) div 3)" if "t = Some u" for u
    using documentedD(7) [OF assms, of bytes "cr_state c" u errs w] fields that length_base64_of [of bytes] by simp
  with fields show ?thesis
    by (cases t) (simp_all add: base64_def ssl_call_def openssl_error_def Let_def)
qed

text \<open>The parts of a signed message can be told apart.\<close>

definition is_upper :: "char \<Rightarrow> bool" where
  "is_upper c \<longleftrightarrow> 65 \<le> ucode c \<and> ucode c \<le> 90"

definition request_parts :: "string \<Rightarrow> string \<Rightarrow> string \<Rightarrow> bool" where
  "request_parts timestamp meth path \<longleftrightarrow>
     list_all is_dec timestamp \<and> meth \<noteq> [] \<and> list_all is_upper meth \<and> path \<noteq> [] \<and> hd path = CHR ''/''"

lemma takeWhile_boundary: "list_all P xs \<Longrightarrow> ys \<noteq> [] \<Longrightarrow> \<not> P (hd ys) \<Longrightarrow> takeWhile P (xs @ ys) = xs"
  by (cases ys) (simp_all add: list_all_iff)

lemma request_split:
  assumes "request_parts ts me pa"
  shows "takeWhile is_dec (ts @ me @ pa) = ts" "takeWhile is_upper (me @ pa) = me"
proof -
  have "\<not> is_dec (hd me)" using assms by (cases me) (auto simp: request_parts_def is_dec_def is_upper_def)
  then show "takeWhile is_dec (ts @ me @ pa) = ts" using assms by (intro takeWhile_boundary) (simp_all add: request_parts_def)
  show "takeWhile is_upper (me @ pa) = me" using assms by (intro takeWhile_boundary) (simp_all add: request_parts_def is_upper_def)
qed

lemma request_inject:
  assumes "request_parts ts me pa" "request_parts ts' me' pa'" "ts @ me @ pa = ts' @ me' @ pa'"
  shows "ts = ts' \<and> me = me' \<and> pa = pa'"
proof -
  have t: "ts = ts'" using request_split(1) [OF assms(1)] request_split(1) [OF assms(2)] assms(3) by metis
  then have "me @ pa = me' @ pa'" using assms(3) by simp
  then show ?thesis using t request_split(2) [OF assms(1)] request_split(2) [OF assms(2)] by (metis same_append_eq)
qed

section \<open>Properties\<close>

text \<open>
  C21: with OpenSSL as documented, what \<open>sign\<close> returns is the base 64 of a signature that verifies
  over timestamp, method and path concatenated, under the loaded key, with SHA-256 as digest and
  in MGF1, PSS padding and a salt as long as the digest.
\<close>

theorem sign_verifies:
  assumes "documented ssl conf verifies" "sign ssl timestamp meth path sg c = (Inr text, sg', c')"
  shows "\<exists>k sc raw. sg_key sg = Some k \<and> verifies sc (timestamp @ meth @ path) raw \<and> text = base64_of raw \<and>
     sc = \<lparr>sc_key = k, sc_digest = Sha256, sc_padding = Pss_padding, sc_salt = Salt_digest, sc_mgf1 = Sha256\<rparr>"
proof -
  from assms(2) have "sign_message ssl (timestamp @ meth @ path) (sg\<lparr>sg_message := timestamp @ meth @ path\<rparr>) c = (Inr text, sg', c')"
    by (simp add: sign_def)
  then obtain k o1 o2 o3 o4 o5 o6 n raw e1 e2 e3 e4 e5 e6 e7 o7 where k: "sg_key sg = Some k"
      and calls: "ssl_sign_init ssl Sha256 k (cr_state c) = (True, e1, o1)" "ssl_set_padding ssl Pss_padding o1 = (True, e2, o2)"
      "ssl_set_saltlen ssl Salt_digest o2 = (True, e3, o3)" "ssl_set_mgf1 ssl Sha256 o3 = (True, e4, o4)"
      "ssl_sign_size ssl (timestamp @ meth @ path) o4 = (Some n, e5, o5)" "ssl_sign ssl n (timestamp @ meth @ path) o5 = (Some raw, e6, o6)"
      "ssl_encode_block ssl raw o6 = (Some text, e7, o7)"
    by (rule sign_message_success) simp
  note doc = documentedD [OF assms(1)]
  obtain sc where sc: "conf o1 = Some sc" "sc_key sc = k" "sc_digest sc = Sha256" using doc(1) [OF calls(1)] by blast
  have "conf o5 = Some (sc\<lparr>sc_padding := Pss_padding, sc_salt := Salt_digest, sc_mgf1 := Sha256\<rparr>)"
    using doc(5) [OF calls(5)] doc(4) [OF calls(4) doc(3) [OF calls(3) doc(2) [OF calls(2) sc(1)]]] by simp
  from doc(6) [OF calls(6) this] doc(7) [OF calls(7)] k sc(2,3) show ?thesis
    by (cases sc) auto
qed

text \<open>A library small enough to run: its state is the parameters, its signature tags the message with them.\<close>

definition tag :: "nat sign_config \<Rightarrow> string \<Rightarrow> byte list" where
  "tag sc m = [if sc_padding sc = Pss_padding \<and> sc_salt sc = Salt_digest then 1 else 0, word_of_nat (sc_key sc), word_of_nat (length m)]"

definition tagging :: "(nat sign_config option, nat) openssl" where
  "tagging =
     \<lparr>ssl_open_file = (\<lambda>path w. (path \<noteq> [], if path = [] then [''no such file''] else [], w)), ssl_read_pem = (\<lambda>w. (Some 7, [], w)), ssl_is_rsa = (\<lambda>k. True),
      ssl_new_ctx = (\<lambda>w. (True, [], w)),
      ssl_sign_init = (\<lambda>d k w. (True, [], Some \<lparr>sc_key = k, sc_digest = d, sc_padding = Pkcs1_padding, sc_salt = Salt_max, sc_mgf1 = d\<rparr>)),
      ssl_set_padding = (\<lambda>p w. (True, [], map_option (sc_padding_update (\<lambda>_. p)) w)),
      ssl_set_saltlen = (\<lambda>l w. (True, [], map_option (sc_salt_update (\<lambda>_. l)) w)),
      ssl_set_mgf1 = (\<lambda>d w. (True, [], map_option (sc_mgf1_update (\<lambda>_. d)) w)),
      ssl_sign_size = (\<lambda>m w. (Some 3, [], w)),
      ssl_sign = (\<lambda>n m w. (map_option (\<lambda>sc. tag sc m) w, [], w)),
      ssl_encode_block = (\<lambda>bs w. (Some (base64_of bs), [], w))\<rparr>"

lemma tagging_documented: "documented tagging (\<lambda>w. w) (\<lambda>sc m raw. raw = tag sc m)"
  by (auto simp: documented_def tagging_def)

definition loaded_signer :: "nat signer" where
  "loaded_signer = (RequestSigner ''key.pem'')\<lparr>sg_key := Some 7\<rparr>"

lemma tagging_load:
  "load tagging (RequestSigner ''key.pem'') (crypto_init None) =
     (None, loaded_signer, (crypto_init None)\<lparr>cr_pkeys := 1, cr_ctxs := 1\<rparr>)"
  by (simp add: load_def tagging_def RequestSigner_def loaded_signer_def ssl_call_def clear_error_def crypto_init_def destroy_key_def)

lemma tagging_sign:
  "sign tagging ''1700000000000'' ''GET'' ''/x'' loaded_signer (crypto_init None) =
     (Inr (base64_of [1, 7, 18]), loaded_signer\<lparr>sg_message := ''1700000000000GET/x'', sg_signature := [1, 7, 18]\<rparr>,
      (crypto_init None)\<lparr>cr_state := Some \<lparr>sc_key = 7, sc_digest = Sha256, sc_padding = Pss_padding, sc_salt = Salt_digest, sc_mgf1 = Sha256\<rparr>\<rparr>)"
  by (simp add: sign_def sign_message_def base64_def tagging_def tag_def loaded_signer_def RequestSigner_def resize_def
      ssl_call_def clear_error_def crypto_init_def)

theorem sign_verifies_witness:
  "documented tagging (\<lambda>w. w) (\<lambda>sc m raw. raw = tag sc m) \<and>
   (\<exists>k sc raw. sg_key loaded_signer = Some k \<and> raw = tag sc ''1700000000000GET/x'' \<and> base64_of [1, 7, 18] = base64_of raw \<and>
     sc = \<lparr>sc_key = k, sc_digest = Sha256, sc_padding = Pss_padding, sc_salt = Salt_digest, sc_mgf1 = Sha256\<rparr>)"
  using sign_verifies [OF tagging_documented tagging_sign] tagging_documented by simp

text \<open>
  A signature is for one request. Messages of a decimal timestamp, an upper-case method and
  a path from the root, concatenated without separators, are equal only when all three parts
  are; so the message signed for the WebSocket handshake is that of no other request.
\<close>

lemma signed_message_unambiguous:
  assumes "request_parts ts me pa" "list_all is_dec ts'"
  shows "sg_message (fst (snd (sign ssl ts me pa sg c))) = sg_message (fst (snd (sign_websocket_auth ssl ts' sg' c'))) \<longleftrightarrow>
     ts = ts' \<and> me = kWebSocketAuthMethod \<and> pa = kWebSocketAuthPath"
proof -
  have ws: "request_parts ts' kWebSocketAuthMethod kWebSocketAuthPath"
    using assms(2) by (simp add: request_parts_def kWebSocketAuthMethod_def kWebSocketAuthPath_def is_upper_def)
  show ?thesis using request_inject [OF assms(1) ws] by (auto simp: sign_websocket_auth_def sign_def sign_message_message)
qed

end
