(* ===== verification/Bench_Runs.thy ===== *)
theory Bench_Runs
  imports Bench_Driver Clock Signer Poller_Connect Executor_Process
begin

text \<open>
  The four benchmarks of \<open>bench/bench_main.cpp\<close>: the wake they use, their measuring loops and the
  failures they throw. The clock readings of an iteration are arguments, as are what the socket,
  OpenSSL and the file system do.
\<close>

section \<open>Timing\<close>

record timing =
  tm_started :: int64
  tm_ended :: int64

definition span_of :: "timing \<Rightarrow> double" where
  "span_of t = elapsed_ms (monotonic_ns (tm_started t)) (monotonic_ns (tm_ended t))"

text \<open>What the loop meets in each of its iterations, \<open>0\<close> to \<open>warmup + iterations\<close> as a 64-bit sum.\<close>

definition turns :: "Options \<Rightarrow> (nat \<Rightarrow> 'a) \<Rightarrow> 'a list" where
  "turns op f = map f [0..<unat (samples_taken op)]"

section \<open>Decoding and encoding\<close>

definition bench_wake :: "int64 \<Rightarrow> int64 \<Rightarrow> WakeMessage" where
  "bench_wake system_ns steady_ns =
     default_WakeMessage\<lparr>correlation_id := ''bench-0'', market_ticker := ''KXBENCH-T100'', asset := ''BENCH'', direction := Yes,
       kalshi_price := double_lit 5 (- 1), model_probability := double_lit 55 (- 2), fee := double_lit 1 (- 2), edge := double_lit 4 (- 2),
       decision_ts_ms := 0, sent_at_ms := wall_clock_ms system_ns, sent_at_ns := monotonic_ns steady_ns,
       wire_price_yes_dollars := double_lit 5 (- 1)\<rparr>"

fun decode_loop :: "byte list \<Rightarrow> timing list \<Rightarrow> double list \<Rightarrow> outcome + double list" where
  "decode_loop body [] samples = Inr samples"
| "decode_loop body (t # ts) samples =
     (let decoded = decode_wake_message body;
          samples = samples @ [span_of t]
      in case decoded of
           Inl e \<Rightarrow> Inl (Throws (''decode failed: '' @ message e))
         | Inr _ \<Rightarrow> decode_loop body ts samples)"

definition bench_decode :: "Options \<Rightarrow> int64 \<Rightarrow> int64 \<Rightarrow> (nat \<Rightarrow> timing) \<Rightarrow> outcome + Stats" where
  "bench_decode op system_ns steady_ns clocks =
     (let frame = encode_frame_message (bench_wake system_ns steady_ns);
          body = drop kFrameLengthBytes frame
      in case decode_loop body (turns op clocks) [] of
           Inl e \<Rightarrow> Inl e
         | Inr samples \<Rightarrow> from_samples samples (unat (bo_warmup op)))"

fun encode_loop :: "WakeAck \<Rightarrow> timing list \<Rightarrow> byte list \<Rightarrow> double list \<Rightarrow> byte list \<times> double list" where
  "encode_loop ack [] out samples = (out, samples)"
| "encode_loop ack (t # ts) out samples = encode_loop ack ts (encode_frame_into_ack ack out) (samples @ [span_of t])"

definition bench_encode_ack :: "Options \<Rightarrow> int64 \<Rightarrow> (nat \<Rightarrow> timing) \<Rightarrow> outcome + Stats" where
  "bench_encode_ack op system_ns clocks =
     (let ack = \<lparr>ack_schema_version = kSchemaVersion, ack_correlation_id = ''bench-0'', ack_received_at_ms = wall_clock_ms system_ns,
            ack_status = Accepted, ack_reason = None\<rparr>;
          (out, samples) = encode_loop ack (turns op clocks) [] []
      in from_samples samples (unat (bo_warmup op)))"

section \<open>Signing\<close>

text \<open>
  Whether the key was generated, the file opened and the PEM written; both handles are owned and
  freed on every way out.
\<close>

definition write_throwaway_key :: "bool \<Rightarrow> bool \<Rightarrow> bool \<Rightarrow> string \<Rightarrow> string option" where
  "write_throwaway_key key_made file_opened pem_written path =
     (if \<not> key_made then Some ''RSA-2048 key generation failed''
      else if \<not> file_opened then Some (''cannot write '' @ path)
      else if \<not> pem_written then Some ''PEM_write_bio_PrivateKey failed''
      else None)"

text \<open>
  The temporary directory: its constructor may throw, its destructor ignores what goes wrong. The
  state is the list of the directories there are.
\<close>

definition TempDirectory :: "string option \<Rightarrow> string \<Rightarrow> string list \<Rightarrow> string option \<times> string list" where
  "TempDirectory failure path dirs = (case failure of Some e \<Rightarrow> (Some e, dirs) | None \<Rightarrow> (None, path # dirs))"

definition destroy_TempDirectory :: "string \<Rightarrow> string list \<Rightarrow> string list" where
  "destroy_TempDirectory path dirs = remove1 path dirs"

fun what_of :: "failure \<Rightarrow> outcome" where
  "what_of (Logic_error e) = Throws e"
| "what_of (Runtime_error e) = Throws e"
| "what_of Buffer_overrun = Out_of_range"

text \<open>An iteration has a reading of the wall clock for the timestamp, and its span.\<close>

fun sign_loop :: "('o, 'k) openssl \<Rightarrow> (int64 \<times> timing) list \<Rightarrow> 'k signer \<Rightarrow> 'o crypto \<Rightarrow> double list \<Rightarrow>
    (outcome + double list) \<times> 'k signer \<times> 'o crypto" where
  "sign_loop ssl [] sg c samples = (Inr samples, sg, c)"
| "sign_loop ssl ((system_ns, t) # ts) sg c samples =
     (let timestamp = to_chars_int (sint (wall_clock_ms system_ns))
      in case sign ssl timestamp ''GET'' ''/trade-api/v2/portfolio/orders'' sg c of
           (Inl e, sg, c) \<Rightarrow> (Inl (what_of e), sg, c)
         | (Inr signature, sg, c) \<Rightarrow>
             if signature = [] then (Inl (Throws ''signer returned an empty signature''), sg, c)
             else sign_loop ssl ts sg c (samples @ [span_of t]))"

text \<open>What the system and OpenSSL do for the key, and the temporary path.\<close>

record key_world =
  kw_directory :: string
  kw_mkdir_failure :: "string option"
  kw_key_made :: bool
  kw_file_opened :: bool
  kw_pem_written :: bool

definition bench_sign :: "('o, 'k) openssl \<Rightarrow> key_world \<Rightarrow> Options \<Rightarrow> (nat \<Rightarrow> int64 \<times> timing) \<Rightarrow> 'o crypto \<Rightarrow> string list \<Rightarrow>
    (outcome + Stats) \<times> 'o crypto \<times> string list" where
  "bench_sign ssl kw op clocks c dirs =
     (case TempDirectory (kw_mkdir_failure kw) (kw_directory kw) dirs of
        (Some e, dirs) \<Rightarrow> (Inl (Throws e), c, dirs)
      | (None, dirs) \<Rightarrow>
          let key_path = kw_directory kw @ ''/bench_key.pem'';
              dirs' = destroy_TempDirectory (kw_directory kw) dirs
          in case write_throwaway_key (kw_key_made kw) (kw_file_opened kw) (kw_pem_written kw) key_path of
               Some e \<Rightarrow> (Inl (Throws e), c, dirs')
             | None \<Rightarrow>
                 (case load ssl (RequestSigner key_path) c of
                    (Some failure, sg, c) \<Rightarrow> (Inl (Throws failure), destroy_signer sg c, dirs')
                  | (None, sg, c) \<Rightarrow>
                      (case sign_loop ssl (turns op clocks) sg c [] of
                         (Inl e, sg, c) \<Rightarrow> (Inl e, destroy_signer sg c, dirs')
                       | (Inr samples, sg, c) \<Rightarrow> (from_samples samples (unat (bo_warmup op)), destroy_signer sg c, dirs'))))"

section \<open>The round trip\<close>

record turn =
  tn_system_ns :: int64
  tn_steady_ns :: int64
  tn_timing :: timing
  tn_txs :: "tx list"
  tn_rxs :: "rx list"

definition turn_message :: "turn \<Rightarrow> nat \<Rightarrow> WakeMessage \<Rightarrow> WakeMessage" where
  "turn_message t i m =
     m\<lparr>correlation_id := ''bench-'' @ nat_digits i, sent_at_ms := wall_clock_ms (tn_system_ns t),
       sent_at_ns := monotonic_ns (tn_steady_ns t)\<rparr>"

text \<open>
  The client's loop. The result is \<open>None\<close> while it waits for the executor; beside it, the bytes
  it has put on the wire.
\<close>

fun send_loop :: "string \<Rightarrow> turn list \<Rightarrow> nat \<Rightarrow> WakeMessage \<Rightarrow> double list \<Rightarrow> (outcome + double list) option \<times> byte list" where
  "send_loop errno_text [] i m samples = (Some (Inr samples), [])"
| "send_loop errno_text (t # ts) i m samples =
     (let m = turn_message t i m;
          (res, sent) = send_wake errno_text True m [] (tn_txs t) (tn_rxs t);
          samples = samples @ [span_of (tn_timing t)]
      in case res of
           Poll_waits \<Rightarrow> (None, sent)
         | Poll_error e \<Rightarrow> (Some (Inl (Throws (''send_wake: '' @ e))), sent)
         | Polled ack \<Rightarrow>
             if ack_status ack \<noteq> Accepted
             then (Some (Inl (Throws (''executor rejected '' @ ack_correlation_id ack @ '': '' @
                     (case ack_reason ack of None \<Rightarrow> [] | Some r \<Rightarrow> r)))), sent)
             else let (r, sent') = send_loop errno_text ts (i + 1) m samples in (r, sent @ sent'))"

text \<open>What the two callbacks of the benchmark's executor have seen.\<close>

definition fired :: "effect list \<Rightarrow> uint64" where
  "fired effs = word_of_nat (length (filter (\<lambda>e. case e of Dispatch _ \<Rightarrow> True | _ \<Rightarrow> False) effs))"

definition wake_recv :: "effect list \<Rightarrow> double list" where
  "wake_recv effs = concat (map (\<lambda>e. case e of Recorded ev \<Rightarrow> [wr_duration_ms ev] | _ \<Rightarrow> []) effs)"

record Result =
  res_name :: string
  res_stats :: Stats

text \<open>The end of the benchmark, the worker joined.\<close>

definition roundtrip_results :: "Options \<Rightarrow> effect list \<Rightarrow> double list \<Rightarrow> outcome + Result list" where
  "roundtrip_results op effs roundtrip =
     (let total = samples_taken op
      in if fired effs \<noteq> total \<or> length (wake_recv effs) \<noteq> unat total
         then Inl (Throws (''executor handled '' @ nat_digits (unat (fired effs)) @ '' fires and '' @
                nat_digits (length (wake_recv effs)) @ '' wakes, expected '' @ nat_digits (unat total)))
         else case from_samples roundtrip (unat (bo_warmup op)) of
                Inl e \<Rightarrow> Inl e
              | Inr st \<Rightarrow>
                  (case from_samples (wake_recv effs) (unat (bo_warmup op)) of
                     Inl e \<Rightarrow> Inl e
                   | Inr st' \<Rightarrow> Inr [\<lparr>res_name = ''roundtrip'', res_stats = st\<rparr>, \<lparr>res_name = ''wake_recv'', res_stats = st'\<rparr>]))"

record world =
  wo_listen :: answers
  wo_connect_now :: int
  wo_attempts :: "attempt list"
  wo_sockopt_errno :: "string option"
  wo_errno_text :: string
  wo_system_ns :: int64
  wo_steady_ns :: int64
  wo_turns :: "nat \<Rightarrow> turn"
  wo_visit :: visit

text \<open>
  \<open>None\<close> while the client or the join waits. When the client fails the server is stopped and the
  worker joined before the failure goes on.
\<close>

definition bench_roundtrip :: "Options \<Rightarrow> string \<Rightarrow> world \<Rightarrow> (outcome + Result list) option" where
  "bench_roundtrip op socket_path wo =
     (case listen (wo_listen wo) socket_path 4 (new_server (ExecutorServer True True None)) of
        (Some failure, sv) \<Rightarrow> Some (Inl (Throws (''listen: '' @ failure)))
      | (None, sv) \<Rightarrow>
          (case connect (an_sun_path_size (wo_listen wo)) socket_path (wo_connect_now wo) 5000 (wo_attempts wo) (wo_sockopt_errno wo) new_client of
             (None, cl) \<Rightarrow> None
           | (Some (Some failure), cl) \<Rightarrow> Some (Inl (Throws (''connect: '' @ failure)))
           | (Some None, cl) \<Rightarrow>
               (case send_loop (wo_errno_text wo) (turns op (wo_turns wo)) 0 (bench_wake (wo_system_ns wo) (wo_steady_ns wo)) [] of
                  (None, sent) \<Rightarrow> None
                | (Some (Inl e), sent) \<Rightarrow> Some (Inl e)
                | (Some (Inr roundtrip), sent) \<Rightarrow>
                    (case serve_one_connection (wo_visit wo) sv of
                       (None, sv) \<Rightarrow> None
                     | (Some _, sv) \<Rightarrow> Some (roundtrip_results op (ex_effects (sv_executor sv)) roundtrip)))))"

section \<open>Spans are fit for statistics\<close>

definition sample_ok :: "double \<Rightarrow> bool" where
  "sample_ok x \<longleftrightarrow> is_finite x \<and> 0 \<le> valof x \<and> valof x \<le> 2 ^ 53"

lemma mega: "is_finite (double_lit 1 6)" "valof (double_lit 1 6) = 10 ^ 6" "\<not> is_zero (double_lit 1 6)" "\<not> negative (double_lit 1 6)"
proof -
  have "double_lit 1 6 = of_index False 0x412E848000000000"
    by (simp add: double_lit_def round_dec_def round_mag_def flog2_def ilog2.simps pow2_le_def Let_def rne_scaled_def rne_div_def)
  then show "is_finite (double_lit 1 6)" "valof (double_lit 1 6) = 10 ^ 6" "\<not> is_zero (double_lit 1 6)" "\<not> negative (double_lit 1 6)"
    by (simp_all add: is_finite_def inf_index_def valof_def mag_value_def sig_def ulp_exp_def power_int_def power_divide is_zero_def)
qed

lemma span_ms_ok:
  assumes "0 \<le> sint ns"
  shows "sample_ok (span_ms ns)"
proof -
  obtain j where j: "j < inf_index" "mag_value j = 2 ^ 53" using power_index [of 53] by auto
  have "\<exists>i < inf_index. mag_value i = 2 ^ 63" using representable [of 1 1137] by (simp add: power_int_def)
  then obtain i where i: "i < inf_index" "mag_value i = 2 ^ 63" by blast
  have "real (nat \<bar>sint ns\<bar>) \<le> 2 ^ 63"
  proof -
    have "sint ns \<le> 2 ^ 63" using sint_lt [of ns] by simp
    then have "of_int (sint ns) \<le> (of_int (2 ^ 63) :: real)" by (simp only: of_int_le_iff)
    with assms show ?thesis by simp
  qed
  then have d: "is_finite (double_of_int (sint ns))" "\<bar>valof (double_of_int (sint ns))\<bar> \<le> 2 ^ 63"
    using round_frac_bound [of 1 "nat \<bar>sint ns\<bar>" i "sint ns < 0"] i by (simp_all add: double_of_int_def)
  have n: "\<not> negative (double_of_int (sint ns))"
    using assms by (simp add: double_of_int_def round_frac_def Let_def)
  have "\<bar>valof (double_of_int (sint ns)) / valof (double_lit 1 6)\<bar> \<le> mag_value j"
    unfolding j(2) mega(2) using d(2) by (simp add: abs_divide)
  from ddiv_bound [OF d(1) mega(1,3) this j(1)]
  have b: "is_finite (span_ms ns)" "\<bar>valof (span_ms ns)\<bar> \<le> 2 ^ 53" by (simp_all add: span_ms_def j(2))
  moreover have "\<not> negative (span_ms ns)"
    using ddiv_sign [OF d(1) mega(1) _ n mega(4)] mega(2) by (simp add: span_ms_def)
  then have "0 \<le> valof (span_ms ns)" by (rule Pricing.valof_nonneg)
  ultimately show ?thesis by (simp add: sample_ok_def)
qed

lemma span_of_ok: "0 \<le> sint (tm_ended t - tm_started t) \<Longrightarrow> sample_ok (span_of t)"
  using span_ms_ok by (simp add: span_of_def elapsed_ms_def monotonic_ns_def span_ms_def)

text \<open>Options whose sum does not wrap, with something left to measure.\<close>

definition options_ok :: "Options \<Rightarrow> bool" where
  "options_ok op \<longleftrightarrow> bo_iterations op \<noteq> 0 \<and> unat (bo_warmup op) + unat (bo_iterations op) \<le> 2 ^ 53"

lemma samples_taken_sum:
  assumes "options_ok op"
  shows "unat (samples_taken op) = unat (bo_warmup op) + unat (bo_iterations op)"
  using assms by (simp add: options_ok_def samples_taken_def unat_word_ariths)

lemma samples_summarised:
  assumes "options_ok op" "length samples = unat (samples_taken op)" "\<forall>x \<in> set samples. sample_ok x"
  shows "\<exists>st. from_samples samples (unat (bo_warmup op)) = Inr st \<and>
    st_n st = unat (bo_iterations op) \<and> st_warmup st = unat (bo_warmup op)"
proof -
  have n: "0 < unat (bo_iterations op)" using assms(1) by (simp add: options_ok_def unat_gt_0)
  have l: "length samples \<le> 2 ^ 53" "unat (bo_warmup op) < length samples"
    using assms(1,2) samples_taken_sum [OF assms(1)] n by (simp_all add: options_ok_def)
  have s: "\<forall>x \<in> set samples. is_finite x \<and> 0 \<le> valof x \<and> valof x \<le> 2 ^ 53" using assms(3) by (simp add: sample_ok_def)
  from from_samples_total [OF l(1) s l(2)] show ?thesis using assms(2) samples_taken_sum [OF assms(1)] by auto
qed

lemma length_turns [simp]: "length (turns op f) = unat (samples_taken op)"
  by (simp add: turns_def)

text \<open>
  The contract of a measuring loop: it never throws and leaves one span for each turn, in order.
  What a benchmark makes of it is then the same for all of them.
\<close>

locale measuring =
  fixes loop :: "'t list \<Rightarrow> outcome + double list"
    and span :: "'t \<Rightarrow> double"
  assumes loop_spans: "loop ts = Inr (map span ts)"
begin

lemma summarised:
  assumes "options_ok op" "\<And>i. sample_ok (span (f i))"
  shows "\<exists>st. (case loop (turns op f) of Inl e \<Rightarrow> Inl e | Inr samples \<Rightarrow> from_samples samples (unat (bo_warmup op))) = Inr st \<and>
    st_n st = unat (bo_iterations op) \<and> st_warmup st = unat (bo_warmup op)"
  using samples_summarised [OF assms(1), of "map span (turns op f)"] assms(2) by (simp add: loop_spans) (simp add: turns_def)

end

section \<open>The benchmark's wakes\<close>

lemma half: "double_lit 5 (- 1) = of_index False 0x3FE0000000000000"
  by (simp add: double_lit_def round_dec_def round_mag_def flog2_def ilog2.simps pow2_le_def Let_def rne_scaled_def rne_div_def)

lemma bench_prices:
  "is_finite (double_lit 5 (- 1))" "valof (double_lit 5 (- 1)) = 1 / 2" "is_finite (double_lit 55 (- 2))" "is_finite (double_lit 4 (- 2))"
proof -
  show "is_finite (double_lit 5 (- 1))" "valof (double_lit 5 (- 1)) = 1 / 2"
    unfolding half by (simp_all add: is_finite_def inf_index_def valof_def mag_value_def sig_def ulp_exp_def power_int_def power_divide)
  show "is_finite (double_lit 55 (- 2))" "is_finite (double_lit 4 (- 2))"
    by (simp_all add: double_lit_def round_dec_def round_mag_def flog2_def ilog2.simps pow2_le_def Let_def rne_scaled_def rne_div_def
        is_finite_def inf_index_def)
qed

lemma wf_bench_wake: "wf_message (bench_wake system_ns steady_ns)"
  using wf_default(1) double_lit_finite bench_prices by (simp add: bench_wake_def wf_message_def ascii_valid)

lemma turn_message_again [simp]: "turn_message t i (turn_message t' i' m) = turn_message t i m"
  by (simp add: turn_message_def)

lemma nat_digits_20: "i < 2 ^ 64 \<Longrightarrow> length (nat_digits i) \<le> 20"
  by (rule length_nat_digits_le) simp_all

lemma turn_message_ok:
  assumes "i < 2 ^ 64"
  shows "wf_message (turn_message t i (bench_wake a b))" "tradeable (turn_message t i (bench_wake a b))"
    "length (encode_frame_message (turn_message t i (bench_wake a b))) \<le> kFrameLengthBytes + unat kMaxFrameBytes"
proof -
  have "ascii (''bench-'' @ nat_digits i)" using nat_digits_dec [of i] by (simp add: ascii_dec)
  then have "valid_utf8 (''bench-'' @ nat_digits i)" by (rule ascii_valid)
  then show "wf_message (turn_message t i (bench_wake a b))"
    using wf_bench_wake [of a b] by (simp add: turn_message_def wf_message_def)
  show "tradeable (turn_message t i (bench_wake a b))"
    using bench_prices(1,2) by (simp add: tradeable_value turn_message_def bench_wake_def)
  show "length (encode_frame_message (turn_message t i (bench_wake a b))) \<le> kFrameLengthBytes + unat kMaxFrameBytes"
    using message_text_length [of "turn_message t i (bench_wake a b)"] nat_digits_20 [OF assms]
    by (simp add: encode_frame_message_eq kMaxFrameBytes_def turn_message_def bench_wake_def default_WakeMessage_def)
qed

section \<open>The loops\<close>

lemma decode_loop_samples:
  "decode_wake_message body = Inr m \<Longrightarrow> decode_loop body ts samples = Inr (samples @ map span_of ts)"
  by (induction ts arbitrary: samples) simp_all

lemma encode_loop_samples: "snd (encode_loop ack ts out samples) = samples @ map span_of ts"
  by (induction ts arbitrary: out samples) simp_all

interpretation decoding: measuring
  "\<lambda>ts. decode_loop (drop kFrameLengthBytes (encode_frame_message (bench_wake system_ns steady_ns))) ts []" span_of
  for system_ns steady_ns
proof
  fix ts
  have "decode_wake_message (drop kFrameLengthBytes (encode_frame_message (bench_wake system_ns steady_ns))) = Inr (bench_wake system_ns steady_ns)"
    using decode_message_text [OF wf_bench_wake] by (simp add: encode_frame_message_eq)
  then show "decode_loop (drop kFrameLengthBytes (encode_frame_message (bench_wake system_ns steady_ns))) ts [] = Inr (map span_of ts)"
    by (simp add: decode_loop_samples)
qed

interpretation encoding: measuring "\<lambda>ts. Inr (snd (encode_loop ack ts [] []))" span_of for ack
  by unfold_locales (simp add: encode_loop_samples)


lemma sign_loop_handles:
  "sign_loop ssl ts sg c samples = (r, sg', c') \<Longrightarrow> handles_ok sg c \<Longrightarrow> handles_ok sg' c'"
proof (induction ssl ts sg c samples rule: sign_loop.induct)
  case (2 ssl system_ns t ts sg c samples)
  obtain r1 sg1 c1 where s: "sign ssl (to_chars_int (sint (wall_clock_ms system_ns))) ''GET'' ''/trade-api/v2/portfolio/orders'' sg c = (r1, sg1, c1)"
    by (metis prod_cases3)
  have h: "handles_ok sg1 c1" by (rule sign_keeps [OF s 2(3)])
  show ?case
  proof (cases r1)
    case (Inl e)
    with 2(2) s h show ?thesis by (simp add: Let_def)
  next
    case (Inr signature)
    with 2(2) s h 2(1) [OF refl s [symmetric] Inr refl] show ?thesis by (auto simp: Let_def split: if_splits)
  qed
qed simp

text \<open>Whatever fails in the signing benchmark, nothing of OpenSSL's is left allocated and no directory is left.\<close>

lemma destroyed_handles: "handles_ok sg c \<Longrightarrow> handles_ok (RequestSigner path) (destroy_signer sg c)"
  by (auto simp: handles_ok_def destroy_signer_def destroy_key_def RequestSigner_def split: option.splits)

lemma bench_sign_releases:
  fixes ssl :: "('o, 'k) openssl" and path :: string
  assumes "handles_ok (RequestSigner path :: 'k signer) c"
  shows "handles_ok (RequestSigner path :: 'k signer) (fst (snd (bench_sign ssl kw op clocks c dirs))) \<and>
    snd (snd (bench_sign ssl kw op clocks c dirs)) = dirs"
proof -
  let ?key = "kw_directory kw @ ''/bench_key.pem''"
  have "handles_ok (RequestSigner ?key :: 'k signer) c" using assms by (simp add: handles_ok_def RequestSigner_def)
  then have h: "handles_ok sg c1" if "load ssl (RequestSigner ?key) c = (r, sg, c1)" for r sg c1
    using load_handles [OF that] by blast
  obtain r sg c1 where l: "load ssl (RequestSigner ?key) c = (r, sg, c1)" by (metis prod_cases3)
  obtain r2 sg2 c2 where s: "sign_loop ssl (turns op clocks) sg c1 [] = (r2, sg2, c2)" by (metis prod_cases3)
  have h2: "handles_ok sg2 c2" by (rule sign_loop_handles [OF s h [OF l]])
  show ?thesis
    using l s assms destroyed_handles [OF h [OF l], of path] destroyed_handles [OF h2, of path]
    by (cases "kw_mkdir_failure kw"; cases "write_throwaway_key (kw_key_made kw) (kw_file_opened kw) (kw_pem_written kw) ?key"; cases r; cases r2)
      (simp_all add: bench_sign_def TempDirectory_def destroy_TempDirectory_def Let_def)
qed

section \<open>Both ends of the round trip\<close>

definition wake_at :: "world \<Rightarrow> nat \<Rightarrow> WakeMessage" where
  "wake_at wo i = turn_message (wo_turns wo i) i (bench_wake (wo_system_ns wo) (wo_steady_ns wo))"

text \<open>
  What the socket does in turn \<open>i\<close> when the executor's pass \<open>ps\<close> answers it: the client's sends go
  through, the pass sends its ack whole, and the ack arrives in some segmentation.
\<close>

definition turn_answered :: "world \<Rightarrow> nat \<Rightarrow> pass \<Rightarrow> bool" where
  "turn_answered wo i ps \<longleftrightarrow>
     fst (client_send (wo_errno_text wo) (encode_frame_message (wake_at wo i)) (tn_txs (wo_turns wo i))) = Polled () \<and>
     undisturbed (tn_rxs (wo_turns wo i)) \<and>
     bytes_of (tn_rxs (wo_turns wo i)) = encode_frame_ack (wake_ack ps (wake_at wo i)) \<and>
     \<not> ps_stopping ps \<and> sends_whole ps (wake_ack ps (wake_at wo i))"

lemma send_wake_answered:
  assumes "i < 2 ^ 64" "turn_answered wo i ps"
  shows "send_wake (wo_errno_text wo) True (wake_at wo i) frame (tn_txs (wo_turns wo i)) (tn_rxs (wo_turns wo i)) =
    (Polled (wake_ack ps (wake_at wo i)), encode_frame_message (wake_at wo i))"
proof -
  let ?m = "wake_at wo i"
  have m: "wf_message ?m" "length (encode_frame_message ?m) \<le> kFrameLengthBytes + unat kMaxFrameBytes"
    using turn_message_ok [OF assms(1)] by (simp_all add: wake_at_def)
  obtain sent where s: "client_send (wo_errno_text wo) (encode_frame_message ?m) (tn_txs (wo_turns wo i)) = (Polled (), sent)"
    using assms(2) by (cases "client_send (wo_errno_text wo) (encode_frame_message ?m) (tn_txs (wo_turns wo i))") (auto simp: turn_answered_def)
  then have "sent = encode_frame_message ?m" using client_send_prefix [OF s] by simp
  moreover have "wf_ack (wake_ack ps ?m)" unfolding wake_ack_def by (rule wf_accepted [OF m(1)])
  then have "receive_ack (wo_errno_text wo) (tn_rxs (wo_turns wo i)) = Polled (wake_ack ps ?m)"
    using receive_ack_frame [of "wake_ack ps ?m" "tn_rxs (wo_turns wo i)" "[]"] assms(2) m(2) wake_ack_shorter [of ps ?m]
    by (simp add: turn_answered_def)
  ultimately show ?thesis using s by (simp add: send_wake_def encode_frame_message_def encode_message_eq)
qed

lemma send_loop_answered:
  assumes "\<And>j. j < length pss \<Longrightarrow> turn_answered wo (i + j) (pss ! j)" "i + length pss \<le> 2 ^ 64"
    and "\<And>t k. turn_message t k m = turn_message t k (bench_wake (wo_system_ns wo) (wo_steady_ns wo))"
  shows "send_loop (wo_errno_text wo) (map (wo_turns wo) [i..<i + length pss]) i m samples =
    (Some (Inr (samples @ map (span_of \<circ> tn_timing \<circ> wo_turns wo) [i..<i + length pss])),
     concat (map (encode_frame_message \<circ> wake_at wo) [i..<i + length pss]))"
  using assms
proof (induction pss arbitrary: i m samples)
  case (Cons ps pss)
  have a: "turn_answered wo i ps" using Cons.prems(1) [of 0] by simp
  have m: "turn_message (wo_turns wo i) i m = wake_at wo i" by (simp add: Cons.prems(3) wake_at_def)
  have s: "send_wake (wo_errno_text wo) True (wake_at wo i) [] (tn_txs (wo_turns wo i)) (tn_rxs (wo_turns wo i)) =
      (Polled (wake_ack ps (wake_at wo i)), encode_frame_message (wake_at wo i))"
    by (rule send_wake_answered [OF _ a]) (use Cons.prems(2) in simp)
  have ok: "ack_status (wake_ack ps (wake_at wo i)) = Accepted" by (simp add: wake_ack_def accepted_ack_def)
  have ih: "send_loop (wo_errno_text wo) (map (wo_turns wo) [Suc i..<Suc i + length pss]) (Suc i) (wake_at wo i) (samples @ [span_of (tn_timing (wo_turns wo i))]) =
    (Some (Inr ((samples @ [span_of (tn_timing (wo_turns wo i))]) @ map (span_of \<circ> tn_timing \<circ> wo_turns wo) [Suc i..<Suc i + length pss])),
     concat (map (encode_frame_message \<circ> wake_at wo) [Suc i..<Suc i + length pss]))"
  proof (rule Cons.IH)
    show "turn_answered wo (Suc i + j) (pss ! j)" if "j < length pss" for j using Cons.prems(1) [of "Suc j"] that by simp
    show "Suc i + length pss \<le> 2 ^ 64" using Cons.prems(2) by simp
    show "turn_message t k (wake_at wo i) = turn_message t k (bench_wake (wo_system_ns wo) (wo_steady_ns wo))" for t k
      by (simp add: wake_at_def)
  qed
  have u: "[i..<i + length (ps # pss)] = i # [Suc i..<Suc i + length pss]" using upt_conv_Cons [of i "Suc (i + length pss)"] by (simp del: upt_Suc)
  show ?case unfolding u using ih by (simp add: m s ok Let_def comp_def del: upt_Suc)
qed simp

lemma wake_at_ok:
  assumes "i < 2 ^ 64"
  shows "wf_message (wake_at wo i) \<and> tradeable (wake_at wo i) \<and> \<not> dry_run (wake_at wo i) \<and>
    length (encode_frame_message (wake_at wo i)) \<le> kFrameLengthBytes + unat kMaxFrameBytes"
  using turn_message_ok [of i] assms by (simp add: wake_at_def) (simp add: turn_message_def bench_wake_def default_WakeMessage_def)

text \<open>The executor's side of the connection, given the wakes of the client in any segmentation.\<close>

lemma roundtrip_served:
  assumes "length pss < 2 ^ 64" "\<And>i. i < length pss \<Longrightarrow> turn_answered wo i (pss ! i)" "quiet rxs"
    and "bytes_of rxs = concat (map encode_frame_message (map (wake_at wo) [0..<length pss]))"
  shows "serve_connection (pss @ [ps']) (rxs @ close_mark True) ex =
    (Return, fold (\<lambda>(ps, m). accept_wake ps m) (zip pss (map (wake_at wo) [0..<length pss])) ex)"
    (is "_ = (_, ?ex')")
proof -
  let ?ms = "map (wake_at wo) [0..<length pss]"
  have "serve_connection (pss @ [ps']) (rxs @ close_mark True) ex = serve_stream (pss @ [ps']) (concat (map encode_frame_message ?ms) @ []) True ex"
    using serve_connection_eq [OF assms(3), of "pss @ [ps']" True ex] assms(4) by simp
  also have "\<dots> = serve_stream [ps'] [] True ?ex'"
  proof (rule serve_stream_wakes)
    fix ps wake
    assume "(ps, wake) \<in> set (zip pss ?ms)"
    then obtain i where i: "i < length pss" "ps = pss ! i" "wake = wake_at wo i" by (auto simp: in_set_zip)
    then have "i < 2 ^ 64" using assms(1) by simp
    with wake_at_ok i assms(2) [OF i(1)] show "wf_message wake \<and> length (encode_frame_message wake) \<le> kFrameLengthBytes + unat kMaxFrameBytes \<and>
        \<not> ps_stopping ps \<and> sends_whole ps (wake_ack ps wake)" by (simp add: turn_answered_def)
  qed simp
  finally show ?thesis by (simp add: kFrameLengthBytes_def)
qed

lemma accept_bench_wake:
  assumes "tradeable m" "\<not> dry_run m" "ex_dispatch ex" "ex_record_wake_recv ex" "ex_kill_switch ex = None"
  shows "ex_dispatch (accept_wake ps m ex) \<and> ex_record_wake_recv (accept_wake ps m ex) \<and> ex_kill_switch (accept_wake ps m ex) = None \<and>
    fired (ex_effects (accept_wake ps m ex)) = fired (ex_effects ex) + 1 \<and>
    wake_recv (ex_effects (accept_wake ps m ex)) = wake_recv (ex_effects ex) @ [span_ms (ps_ended_ns ps - ps_started_ns ps)]"
proof -
  have d: "fst (handle_fire (ps_now_ns ps) (ps_exists ps) m (acked_wake ps m ex)) = Dispatched"
    using assms by (simp add: handle_fire_outcome halted_def)
  have "ex_kill_switch (snd (handle_fire (ps_now_ns ps) (ps_exists ps) m (acked_wake ps m ex))) = None"
    using assms(5) by (auto simp: handle_fire_def emit_def Let_def split: option.splits prod.splits)
  then show ?thesis
    using assms d by (simp add: accept_wake_effects fired_def wake_recv_def wake_span_def)
      (simp add: accept_wake_def handle_fire_config)
qed

lemma accept_bench_wakes:
  assumes "\<forall>m \<in> set ms. tradeable m \<and> \<not> dry_run m" "length pss = length ms" "ex_dispatch ex" "ex_record_wake_recv ex" "ex_kill_switch ex = None"
  shows "fired (ex_effects (fold (\<lambda>(ps, m). accept_wake ps m) (zip pss ms) ex)) = fired (ex_effects ex) + word_of_nat (length ms) \<and>
    wake_recv (ex_effects (fold (\<lambda>(ps, m). accept_wake ps m) (zip pss ms) ex)) =
      wake_recv (ex_effects ex) @ map (\<lambda>ps. span_ms (ps_ended_ns ps - ps_started_ns ps)) pss"
  using assms(2,1,3-5)
proof (induction pss ms arbitrary: ex rule: list_induct2)
  case (Cons ps pss m ms)
  note a = accept_bench_wake [of m ex ps]
  have "tradeable m" "\<not> dry_run m" using Cons.prems by simp_all
  with a Cons.prems Cons.IH [of "accept_wake ps m ex"] show ?case by (simp add: add.assoc)
qed simp

lemma listening_fd:
  assumes "listen an path backlog (new_server ex) = (None, sv)" "valid_fds an"
  shows "0 \<le> sv_listen_fd sv"
  using assms by (auto simp: listen_def valid_fds_def Let_def split: if_splits option.splits)

section \<open>Properties\<close>

text \<open>
  The decoding and the encoding benchmark always measure what they were asked to. For options
  whose sum does not wrap and clocks that do not run backwards, neither throws: the wake decodes
  in every iteration, and the statistics are over exactly the iterations behind the warm-up.
\<close>

lemma benchmarks_measure:
  assumes "options_ok op" "\<And>i. 0 \<le> sint (tm_ended (clocks i) - tm_started (clocks i))"
  shows "(\<exists>st. bench_decode op system_ns steady_ns clocks = Inr st \<and> st_n st = unat (bo_iterations op) \<and> st_warmup st = unat (bo_warmup op)) \<and>
    (\<exists>st. bench_encode_ack op system_ns clocks = Inr st \<and> st_n st = unat (bo_iterations op) \<and> st_warmup st = unat (bo_warmup op))"
  using decoding.summarised [OF assms(1), of clocks system_ns steady_ns] encoding.summarised [OF assms(1), of clocks] span_of_ok [OF assms(2)]
  by (simp add: bench_decode_def bench_encode_ack_def Let_def case_prod_beta)

definition one_sample :: Options where
  "one_sample = default_Options\<lparr>bo_iterations := 1, bo_warmup := 0\<rparr>"

lemma one_sample_ok: "options_ok one_sample" "samples_taken one_sample = 1"
  by (simp_all add: options_ok_def one_sample_def samples_taken_def)

text \<open>
  C9: the round trip's own check passes whenever the two ends talked. With at least one iteration
  and at most \<open>2\<^sup>5\<^sup>3\<close> samples with the warm-up (\<open>options_ok\<close>), a listen, a connect and an accept that
  succeed, and clock readings that do not go backwards within a turn or a pass: if every turn of the
  client is answered and the executor's side of the connection is given, in any segmentation, the
  bytes the client has sent and then their end, the benchmark returns: both spans are over
  exactly the iterations behind the warm-up, so the executor has fired and recorded every wake.
\<close>

theorem roundtrip_measures:
  assumes "options_ok op" "length pss = unat (samples_taken op)"
    and "valid_fds (wo_listen wo)" "fst (listen (wo_listen wo) path 4 (new_server (ExecutorServer True True None))) = None"
    and "fst (connect (an_sun_path_size (wo_listen wo)) path (wo_connect_now wo) 5000 (wo_attempts wo) (wo_sockopt_errno wo) new_client) = Some None"
    and "\<And>i. i < length pss \<Longrightarrow> turn_answered wo i (pss ! i)"
    and "\<And>i. 0 \<le> sint (tm_ended (tn_timing (wo_turns wo i)) - tm_started (tn_timing (wo_turns wo i)))"
    and "\<And>ps. ps \<in> set pss \<Longrightarrow> 0 \<le> sint (ps_ended_ns ps - ps_started_ns ps)"
    and "wo_visit wo = \<lparr>vi_stopping = False, vi_polls = polls, vi_accept = Accepted_fd fd, vi_passes = pss @ [ps'],
      vi_rxs = rxs @ close_mark True, vi_stopped = stopped\<rparr>"
    and "await_peer polls = Some True" "quiet rxs"
    and "bytes_of rxs = snd (send_loop (wo_errno_text wo) (turns op (wo_turns wo)) 0 (bench_wake (wo_system_ns wo) (wo_steady_ns wo)) [])"
  shows "\<exists>st st'. bench_roundtrip op path wo = Some (Inr [\<lparr>res_name = ''roundtrip'', res_stats = st\<rparr>, \<lparr>res_name = ''wake_recv'', res_stats = st'\<rparr>]) \<and>
    st_n st = unat (bo_iterations op) \<and> st_n st' = unat (bo_iterations op)"
proof -
  let ?ms = "map (wake_at wo) [0..<length pss]" and ?ex = "ExecutorServer True True None"
  let ?trips = "map (span_of \<circ> tn_timing \<circ> wo_turns wo) [0..<length pss]"
  let ?ex' = "fold (\<lambda>(ps, m). accept_wake ps m) (zip pss ?ms) ?ex"
  have n: "length pss < 2 ^ 64" using assms(2) unsigned_less [of "samples_taken op"] by simp
  have loop: "send_loop (wo_errno_text wo) (turns op (wo_turns wo)) 0 (bench_wake (wo_system_ns wo) (wo_steady_ns wo)) [] =
      (Some (Inr ?trips), concat (map encode_frame_message ?ms))"
    using send_loop_answered [of pss wo 0 "bench_wake (wo_system_ns wo) (wo_steady_ns wo)" "[]"] assms(2,6) n
    by (simp add: turns_def comp_def)
  obtain sv where sv: "listen (wo_listen wo) path 4 (new_server ?ex) = (None, sv)"
    using assms(4) by (cases "listen (wo_listen wo) path 4 (new_server ?ex)") simp
  obtain cl where cl: "connect (an_sun_path_size (wo_listen wo)) path (wo_connect_now wo) 5000 (wo_attempts wo) (wo_sockopt_errno wo) new_client = (Some None, cl)"
    using assms(5) by (cases "connect (an_sun_path_size (wo_listen wo)) path (wo_connect_now wo) 5000 (wo_attempts wo) (wo_sockopt_errno wo) new_client") simp
  have conv: "serve_connection (pss @ [ps']) (rxs @ close_mark True) ?ex = (Return, ?ex')"
    using roundtrip_served [OF _ assms(6,11)] assms(12) loop n by simp
  have "sv_executor sv = ?ex" "\<not> sv_stopping sv"
    using listen_fields [of "wo_listen wo" path 4 "new_server ?ex"] sv by simp_all
  then obtain sv' where serve: "serve_one_connection (wo_visit wo) sv = (Some (\<not> stopped), sv')" "sv_executor sv' = ?ex'"
    using serve_one_accepts [of sv "wo_visit wo" fd ?ex'] listening_fd [OF sv assms(3)] conv assms(10)
    by (simp add: assms(9) del: serve_connection.simps)
  have seen: "fired (ex_effects ?ex') = word_of_nat (length pss)"
      "wake_recv (ex_effects ?ex') = map (\<lambda>ps. span_ms (ps_ended_ns ps - ps_started_ns ps)) pss"
    using accept_bench_wakes [of ?ms pss ?ex] wake_at_ok n by (auto simp: ExecutorServer_def fired_def wake_recv_def)
  obtain st where st: "from_samples ?trips (unat (bo_warmup op)) = Inr st" "st_n st = unat (bo_iterations op)"
    using samples_summarised [OF assms(1), of ?trips] assms(2,7) by (auto intro: span_of_ok)
  obtain st' where st': "from_samples (wake_recv (ex_effects ?ex')) (unat (bo_warmup op)) = Inr st'" "st_n st' = unat (bo_iterations op)"
    using samples_summarised [OF assms(1), of "wake_recv (ex_effects ?ex')"] assms(2,8) seen(2) by (auto intro: span_ms_ok)
  have "bench_roundtrip op path wo = Some (roundtrip_results op (ex_effects ?ex') ?trips)"
    by (simp add: bench_roundtrip_def sv cl loop serve)
  moreover have "fired (ex_effects ?ex') = samples_taken op" using seen(1) assms(2) by simp
  ultimately show ?thesis using st st' seen(2) assms(2) by (simp add: roundtrip_results_def Let_def)
qed

definition sample_turn :: turn where
  "sample_turn = \<lparr>tn_system_ns = 0, tn_steady_ns = 0, tn_timing = \<lparr>tm_started = 0, tm_ended = 2500\<rparr>, tn_txs = [Wrote 100000],
     tn_rxs = [Chunk (encode_frame_ack (wake_ack sample_pass (bench_wake 0 0)))]\<rparr>"

definition sample_world :: world where
  "sample_world = \<lparr>wo_listen = one_wake_answers, wo_connect_now = 100, wo_attempts = two_attempts, wo_sockopt_errno = None, wo_errno_text = [],
     wo_system_ns = 0, wo_steady_ns = 0, wo_turns = (\<lambda>_. sample_turn),
     wo_visit = \<lparr>vi_stopping = False, vi_polls = [Poll_returned False False True], vi_accept = Accepted_fd 6, vi_passes = [sample_pass] @ [sample_pass],
       vi_rxs = [Chunk (encode_frame_message (bench_wake 0 0))] @ close_mark True, vi_stopped = True\<rparr>\<rparr>"

lemma sample_wake_at: "wake_at sample_world 0 = bench_wake 0 0"
  by (simp add: wake_at_def sample_world_def sample_turn_def turn_message_def bench_wake_def nat_digits.simps digit_char_def char_of_def bit_0)

lemma client_send_whole: "length frame \<le> n \<Longrightarrow> client_send errno_text frame [Wrote n] = (Polled (), frame)"
  by (rule client_send_takes) (cases "length frame", simp_all)

lemma sample_turn_answered: "turn_answered sample_world 0 sample_pass"
proof -
  have l: "length (encode_frame_message (bench_wake 0 0)) \<le> 100000"
    using turn_message_ok(3) [of 0 sample_turn 0 0] sample_wake_at
    by (simp add: wake_at_def sample_world_def kFrameLengthBytes_def kMaxFrameBytes_def)
  then have "length (encode_frame_ack (wake_ack sample_pass (bench_wake 0 0))) \<le> 100000"
    using wake_ack_shorter [of sample_pass "bench_wake 0 0"] by simp
  then have "sends_whole sample_pass (wake_ack sample_pass (bench_wake 0 0))" by (rule sends_sample)
  then show ?thesis
    using l unfolding turn_answered_def sample_wake_at
    by (simp add: sample_world_def sample_turn_def client_send_whole undisturbed_def sample_pass_def)
qed

theorem roundtrip_measures_witness:
  "\<exists>st st'. bench_roundtrip one_sample ''/tmp/x.sock'' sample_world =
      Some (Inr [\<lparr>res_name = ''roundtrip'', res_stats = st\<rparr>, \<lparr>res_name = ''wake_recv'', res_stats = st'\<rparr>]) \<and> st_n st = 1 \<and> st_n st' = 1"
proof -
  have loop: "send_loop [] (turns one_sample (\<lambda>_. sample_turn)) 0 (bench_wake 0 0) [] =
      (Some (Inr [span_of (tn_timing sample_turn)]), encode_frame_message (bench_wake 0 0))"
    using send_loop_answered [of "[sample_pass]" sample_world 0 "bench_wake 0 0" "[]"] sample_turn_answered sample_wake_at
    by (simp add: turns_def one_sample_ok sample_world_def)
  have "\<exists>st st'. bench_roundtrip one_sample ''/tmp/x.sock'' sample_world =
      Some (Inr [\<lparr>res_name = ''roundtrip'', res_stats = st\<rparr>, \<lparr>res_name = ''wake_recv'', res_stats = st'\<rparr>]) \<and>
      st_n st = unat (bo_iterations one_sample) \<and> st_n st' = unat (bo_iterations one_sample)"
  proof (rule roundtrip_measures [where pss = "[sample_pass]" and ps' = sample_pass and fd = 6 and stopped = True
        and polls = "[Poll_returned False False True]" and rxs = "[Chunk (encode_frame_message (bench_wake 0 0))]"])
    show "options_ok one_sample" by (rule one_sample_ok)
    show "valid_fds (wo_listen sample_world)" by (simp add: sample_world_def one_wake_answers_def sample_answers_def valid_fds_def)
    show "fst (listen (wo_listen sample_world) ''/tmp/x.sock'' 4 (new_server (ExecutorServer True True None))) = None"
      by (simp add: sample_world_def one_wake_answers_def listen_result, simp add: sample_answers_def stages_def)
    show "fst (connect (an_sun_path_size (wo_listen sample_world)) ''/tmp/x.sock'' (wo_connect_now sample_world) 5000 (wo_attempts sample_world)
        (wo_sockopt_errno sample_world) new_client) = Some None"
      by (simp add: sample_world_def one_wake_answers_def sample_answers_def connect_def two_attempts_def new_client_def close_client_def)
    show "bytes_of [Chunk (encode_frame_message (bench_wake 0 0))] = snd (send_loop (wo_errno_text sample_world) (turns one_sample (wo_turns sample_world)) 0
        (bench_wake (wo_system_ns sample_world) (wo_steady_ns sample_world)) [])"
      using loop by (simp add: sample_world_def)
    show "turn_answered sample_world i ([sample_pass] ! i)" if "i < length [sample_pass]" for i
      using that sample_turn_answered by simp
  qed (simp_all add: sample_world_def sample_turn_def sample_pass_def one_sample_ok)
  then show ?thesis by (simp add: one_sample_def)
qed

end
