(* ===== verification/Bench_Report.thy ===== *)
theory Bench_Report
  imports Bench_Runs
begin

text \<open>
  What \<open>bench/bench_main.cpp\<close> does with its results: the table on standard output, the rows of the
  CSV file, and the whole of \<open>main\<close>. A number is printed with four decimals, rounded once from the
  exact value of the double, as \<open>printf\<close> does. The seconds of the clock and the system's names are
  arguments.
\<close>

section \<open>Formatting\<close>

definition pad_left :: "nat \<Rightarrow> char \<Rightarrow> string \<Rightarrow> string" where
  "pad_left k c s = replicate (k - length s) c @ s"

definition pad_right :: "nat \<Rightarrow> string \<Rightarrow> string" where
  "pad_right k s = s @ replicate (k - length s) CHR '' ''"

text \<open>The conversion \<open>%.4f\<close>.\<close>

definition fixed4 :: "double \<Rightarrow> string" where
  "fixed4 d =
     (if negative d then ''-'' else []) @
     (if is_nan d then ''nan''
      else if is_inf d then ''inf''
      else let (n, den) = mag_frac (index d);
               q = rne_div (n * 10000) den
           in nat_digits (q div 10000) @ ''.'' @ pad_left 4 CHR ''0'' (nat_digits (q mod 10000)))"

definition report :: "Result \<Rightarrow> string" where
  "report r =
     pad_right 12 (res_name r) @ '' p50='' @ pad_left 8 CHR '' '' (fixed4 (p50_ms (res_stats r))) @
     ''ms  p90='' @ pad_left 8 CHR '' '' (fixed4 (p90_ms (res_stats r))) @
     ''ms  p99='' @ pad_left 8 CHR '' '' (fixed4 (p99_ms (res_stats r))) @
     ''ms  n='' @ pad_right 6 (nat_digits (st_n (res_stats r))) @ '' warmup='' @ nat_digits (st_warmup (res_stats r)) @ [CHR 0x0A]"

text \<open>\<open>uname\<close> may fail; the toolchain's version string is the compiler's.\<close>

definition platform_tag :: "(string \<times> string) option \<Rightarrow> string \<Rightarrow> string" where
  "platform_tag uname toolchain =
     (case uname of
        None \<Rightarrow> ''unknown''
      | Some (sysname, machine) \<Rightarrow> sysname @ ''-'' @ machine @ ''-'' @ takeWhile (\<lambda>c. c \<noteq> CHR '' '') toolchain)"

section \<open>The time of day\<close>

text \<open>\<open>gmtime_r\<close> of the seconds since the epoch, year by year and month by month.\<close>

definition is_leap :: "nat \<Rightarrow> bool" where
  "is_leap y \<longleftrightarrow> 4 dvd y \<and> (\<not> 100 dvd y \<or> 400 dvd y)"

definition year_days :: "nat \<Rightarrow> nat" where
  "year_days y = (if is_leap y then 366 else 365)"

definition month_days :: "nat \<Rightarrow> nat list" where
  "month_days y = [31, if is_leap y then 29 else 28, 31, 30, 31, 30, 31, 31, 30, 31, 30, 31]"

function year_of :: "nat \<Rightarrow> nat \<Rightarrow> nat \<times> nat" where
  "year_of y d = (if d < year_days y then (y, d) else year_of (y + 1) (d - year_days y))"
  by auto
termination by (relation "measure snd") (auto simp: year_days_def)

declare year_of.simps [simp del]

fun month_of :: "nat list \<Rightarrow> nat \<Rightarrow> nat \<Rightarrow> nat \<times> nat" where
  "month_of [] m d = (m, d)"
| "month_of (l # ls) m d = (if d < l then (m, d) else month_of ls (m + 1) (d - l))"

definition utc_now :: "nat \<Rightarrow> string" where
  "utc_now now =
     (let (year, yday) = year_of 1970 (now div 86400);
          (month, mday) = month_of (month_days year) 1 yday;
          two = (\<lambda>n. pad_left 2 CHR ''0'' (nat_digits n))
      in nat_digits year @ ''-'' @ two month @ ''-'' @ two (mday + 1) @ ''T'' @
         two (now mod 86400 div 3600) @ '':'' @ two (now mod 3600 div 60) @ '':'' @ two (now mod 60) @ ''Z'')"

section \<open>The CSV file\<close>

definition csv_header :: string where
  "csv_header = ''timestamp_utc,platform,benchmark,n,warmup,p50_ms,p90_ms,p99_ms'' @ [CHR 0x0A]"

text \<open>The three numbers go through a buffer of 64 characters with its terminator.\<close>

definition csv_numbers :: "Stats \<Rightarrow> string" where
  "csv_numbers st = fixed4 (p50_ms st) @ '','' @ fixed4 (p90_ms st) @ '','' @ fixed4 (p99_ms st)"

definition csv_row :: "string \<Rightarrow> string \<Rightarrow> Result \<Rightarrow> string" where
  "csv_row timestamp platform r =
     timestamp @ '','' @ platform @ '','' @ res_name r @ '','' @ nat_digits (st_n (res_stats r)) @ '','' @
     nat_digits (st_warmup (res_stats r)) @ '','' @ take 63 (csv_numbers (res_stats r)) @ [CHR 0x0A]"

text \<open>
  The file's text, if it exists, goes in and comes out. \<open>opens\<close> is whether it can be appended to;
  \<open>short\<close> is how many characters reach it when the flush fails.
\<close>

definition write_csv :: "string \<Rightarrow> bool \<Rightarrow> nat option \<Rightarrow> nat \<Rightarrow> string \<Rightarrow> Result list \<Rightarrow> string option \<Rightarrow> string option \<times> string option" where
  "write_csv path opens short now platform results file =
     (if \<not> opens then (Some (''cannot append to '' @ path), file)
      else
        let out = (if file = None then csv_header else []) @ concat (map (csv_row (utc_now now) platform) results);
            old = (case file of None \<Rightarrow> [] | Some t \<Rightarrow> t)
        in case short of
             None \<Rightarrow> (None, Some (old @ out))
           | Some k \<Rightarrow> (Some (''write to '' @ path @ '' failed''), Some (old @ take k out)))"

section \<open>The program\<close>

definition bench_usage :: string where
  "bench_usage = ''usage: executor_hotpath_bench [--iterations N] [--warmup N] [--csv PATH]'' @ [CHR 0x0A] @
     ''                              [--only decode|encode_ack|sign|roundtrip]'' @ [CHR 0x0A]"

text \<open>One benchmark by its name, from the four; \<open>None\<close> while it waits.\<close>

definition run_named :: "(Options \<Rightarrow> outcome + Stats) \<Rightarrow> (Options \<Rightarrow> outcome + Stats) \<Rightarrow> (Options \<Rightarrow> outcome + Stats) \<Rightarrow>
    (Options \<Rightarrow> (outcome + Result list) option) \<Rightarrow> Options \<Rightarrow> string \<Rightarrow> (outcome + Result list) option" where
  "run_named decode encode_ack sign_bench roundtrip op name =
     (if name = ''roundtrip'' then roundtrip op
      else
        let stats = (if name = ''decode'' then decode op else if name = ''encode_ack'' then encode_ack op else sign_bench op)
        in Some (case stats of Inl e \<Rightarrow> Inl e | Inr st \<Rightarrow> Inr [\<lparr>res_name = name, res_stats = st\<rparr>]))"

fun run_all :: "(string \<Rightarrow> (outcome + Result list) option) \<Rightarrow> string list \<Rightarrow> Result list \<Rightarrow> (outcome + Result list) option" where
  "run_all bench [] results = Some (Inr results)"
| "run_all bench (name # names) results =
     (case bench name of
        None \<Rightarrow> None
      | Some (Inl e) \<Rightarrow> Some (Inl e)
      | Some (Inr rs) \<Rightarrow> run_all bench names (results @ rs))"

text \<open>The exit code, standard output, standard error and the CSV file; or a subscript out of range.\<close>

datatype ending = Exit_with nat string string "string option" | Undefined

definition caught :: "string \<Rightarrow> outcome \<Rightarrow> string option \<Rightarrow> ending" where
  "caught out e file =
     (case e of Throws what \<Rightarrow> Exit_with 1 out (''executor-hotpath-bench: '' @ what @ [CHR 0x0A]) file | _ \<Rightarrow> Undefined)"

definition bench_main :: "string list \<Rightarrow> string \<Rightarrow> nat \<Rightarrow> (Options \<Rightarrow> string \<Rightarrow> (outcome + Result list) option) \<Rightarrow>
    bool \<Rightarrow> nat option \<Rightarrow> string option \<Rightarrow> ending option" where
  "bench_main args platform now bench opens short file =
     (case bench_plan args of
        None \<Rightarrow> Some (Exit_with 2 [] bench_usage file)
      | Some (op, names) \<Rightarrow>
          let out = ''platform '' @ platform @ '', '' @ nat_digits (unat (bo_iterations op)) @ '' iterations, '' @
                nat_digits (unat (bo_warmup op)) @ '' warm-up discarded'' @ [CHR 0x0A, CHR 0x0A]
          in case run_all (bench op) names [] of
               None \<Rightarrow> None
             | Some (Inl e) \<Rightarrow> Some (caught out e file)
             | Some (Inr results) \<Rightarrow>
                 let out = out @ concat (map report results)
                 in if bo_csv op = [] then Some (Exit_with 0 out [] file)
                    else case write_csv (bo_csv op) opens short now platform results file of
                           (Some e, file) \<Rightarrow> Some (caught out (Throws e) file)
                         | (None, file) \<Rightarrow>
                             Some (Exit_with 0 (out @ [CHR 0x0A] @ ''appended '' @ nat_digits (length results) @ '' rows to '' @ bo_csv op @ [CHR 0x0A]) [] file))"

section \<open>Lemmas\<close>

text \<open>The buffer of a CSV row is long enough for every span below \<open>10 ^ 14\<close> milliseconds.\<close>

lemma fixed4_length:
  assumes "is_finite d" "0 \<le> valof d" "valof d < 10 ^ 14" "\<not> negative d"
  shows "length (fixed4 d) \<le> 20"
proof -
  obtain n den where f: "mag_frac (index d) = (n, den)" by fastforce
  have v: "mag_value (index d) = real n / real den" "0 < den" using f mag_frac_real [of "index d"] by simp_all
  have "real n / real den < 10 ^ 14" using assms(2,3) v(1) valof_magnitude [of d] by simp
  then have "real n < real (10 ^ 14 * den)" using v(2) by (simp add: divide_less_eq)
  then have n: "n < 10 ^ 14 * den" by (simp only: of_nat_less_iff)
  then have "n * 10000 div den < 10 ^ 18" using v(2) by (simp add: div_less_iff_less_mult)
  then have q: "rne_div (n * 10000) den \<le> 10 ^ 18" using rne_div_near(2) [OF v(2), of "n * 10000"] by linarith
  have "rne_div (n * 10000) den < 10 ^ 15 * 10000" by (rule le_less_trans [OF q]) simp
  then have "rne_div (n * 10000) den div 10000 < 10 ^ 15" by (rule less_mult_imp_div_less)
  then have a: "length (nat_digits (rne_div (n * 10000) den div 10000)) \<le> 15" by (rule length_nat_digits_le) simp
  have b: "length (nat_digits (rne_div (n * 10000) den mod 10000)) \<le> 4" by (rule length_nat_digits_le) simp_all
  have "\<not> is_nan d \<and> \<not> is_inf d" using assms(1) finite_kinds [of d] by simp
  with a b f assms(4) show ?thesis by (simp add: fixed4_def pad_left_def Let_def)
qed

text \<open>The calendar is one: the days of the years before, of the months before and of the month add up.\<close>

lemma year_of_sum:
  "year_of y d = (y', yday) \<Longrightarrow> y \<le> y' \<and> yday < year_days y' \<and> d = sum year_days {y..<y'} + yday"
proof (induction y d rule: year_of.induct)
  case (1 y d)
  show ?case
  proof (cases "d < year_days y")
    case True
    with 1(2) show ?thesis by (simp add: year_of.simps [of y])
  next
    case False
    then have "year_of (y + 1) (d - year_days y) = (y', yday)" using 1(2) by (simp add: year_of.simps [of y])
    from 1(1) [OF False this] False show ?thesis by (auto simp: sum.atLeast_Suc_lessThan)
  qed
qed

lemma month_of_sum:
  "month_of ls m d = (m', mday) \<Longrightarrow> d < sum_list ls \<Longrightarrow>
    m \<le> m' \<and> m' - m < length ls \<and> mday < ls ! (m' - m) \<and> d = sum_list (take (m' - m) ls) + mday"
proof (induction ls m d rule: month_of.induct)
  case (2 l ls m d)
  show ?case
  proof (cases "d < l")
    case False
    then have "month_of ls (m + 1) (d - l) = (m', mday)" "d - l < sum_list ls" using 2(2,3) by simp_all
    from 2(1) [OF False this] False show ?thesis by (auto simp: Suc_diff_le less_Suc_eq_0_disj nth_Cons' take_Cons' diff_Suc split: nat.splits)
  qed (use 2(2) in simp)
qed simp

lemma month_days_sum: "sum_list (month_days y) = year_days y"
  by (simp add: month_days_def year_days_def)

lemma csv_numbers_whole:
  assumes "\<forall>d \<in> {p50_ms st, p90_ms st, p99_ms st}. is_finite d \<and> 0 \<le> valof d \<and> valof d < 10 ^ 14 \<and> \<not> negative d"
  shows "take 63 (csv_numbers st) = csv_numbers st"
  using fixed4_length [of "p50_ms st"] fixed4_length [of "p90_ms st"] fixed4_length [of "p99_ms st"] assms
  by (simp add: csv_numbers_def)

text \<open>The file is a header, once, and then the rows of every run in order.\<close>

lemma csv_append:
  assumes "write_csv path True None now pl rs file = (e, file')"
  shows "e = None \<and> file' = Some (case file of None \<Rightarrow> csv_header @ concat (map (csv_row (utc_now now) pl) rs) | Some t \<Rightarrow> t @ concat (map (csv_row (utc_now now) pl) rs))"
  using assms by (auto simp: write_csv_def split: option.splits)

lemma run_all_results:
  assumes "\<And>name. name \<in> set names \<Longrightarrow> bench name = Some (Inr (f name))"
  shows "run_all bench names results = Some (Inr (results @ concat (map f names)))"
  using assms by (induction names arbitrary: results) simp_all

end
