(* ===== verification/Spec2Isabelle.thy ===== *)
theory Spec2Isabelle
  imports Prelude Binary64 Charconv Json_Writer Protocol_Types Json_Reader Json_Strings Json_Numbers Json_Nesting
    Json_Properties Protocol Protocol_Roundtrip Wire_Frames Spsc_Ring Binary64_Arith Pricing Orders Kill_Switch
    Executor Executor_Stream Executor_Properties Executor_Lifecycle Executor_Stop Executor_Halt Telemetry Sqlite_Contract Telemetry_Close Telemetry_Table Executor_Process
    Process_Table Poller_Client
    Poller_Connect Binary64_Bounds Binary64_Error Bench_Stats Bench_Driver Bench_Runs Bench_Report Clock Signer
begin

text \<open>
  \<^bold>\<open>The executor's hot path.\<close> The program is one process at the end of a local socket. A poller
  sends it wakes: frames of a four-byte big-endian length and a JSON body. The executor reads a
  frame, decodes it, answers with an ack, records how long that took, and fires: it checks the
  price and the kill switch, snaps the price to the market's grid, looks up the order template
  and dispatches. The recorded spans go through a lock-free ring to a thread that writes them to
  SQLite.

  \<^bold>\<open>Parts, theories and sources.\<close>
  \<^item> \<open>Prelude\<close>: machine types (a 64-bit integer is a 64-bit word, read by \<^const>\<open>sint\<close> where the
    source's type is signed), characters as octets, bytes.
  \<^item> \<open>Binary64\<close>, \<open>Charconv\<close>, \<open>Binary64_Arith\<close>: what the sources use of \<open>double\<close> and of
    \<open><charconv>\<close>. A double is a sign and a 63-bit magnitude index; every operation rounds once,
    to nearest with ties to even. \<open>std::to_chars\<close> gives the shortest digits that read back.
  \<^item> \<open>Json_Writer\<close> (\<open>src/json.cpp\<close>, the output half), \<open>Json_Reader\<close>, \<open>Json_Strings\<close>, \<open>Json_Numbers\<close>,
    \<open>Json_Nesting\<close> (the pull parser, method by method, with its position, nesting flags and first
    error), \<open>Utf8\<close> (the encoding of scalar values), \<open>Json_Properties\<close>.
  \<^item> \<open>Protocol_Types\<close> (\<open>include/hotpath/protocol.hpp\<close>), \<open>Protocol\<close> (\<open>src/protocol.cpp\<close>: encoders, length
    prefix, field readers, decoders), \<open>Protocol_Roundtrip\<close>, \<open>Wire_Frames\<close>.
  \<^item> \<open>Spsc_Ring\<close> (\<open>include/hotpath/spsc_ring.hpp\<close>): the ring sequentially, and both threads one
    memory access at a time.
  \<^item> \<open>Pricing\<close> (\<open>src/pricing.cpp\<close>), \<open>Orders\<close> (\<open>src/orders.cpp\<close>), \<open>Kill_Switch\<close> (\<open>src/killswitch.cpp\<close>).
  \<^item> \<open>Executor\<close> (\<open>src/executor.cpp\<close>: \<open>read_exactly\<close>, \<open>send_frame\<close>, \<open>serve_connection\<close>, \<open>handle_fire\<close>),
    \<open>Executor_Stream\<close>, \<open>Executor_Properties\<close>; \<open>Executor_Lifecycle\<close> (the same file: \<open>listen\<close>,
    \<open>serve_one_connection\<close>, \<open>serve_forever\<close>, \<open>stop\<close>, the destructor) and \<open>Executor_Stop\<close> (\<open>stop\<close> on
    another thread, one shared access at a time); \<open>Executor_Halt\<close>: the kill switch over a whole run
    of the service.
  \<^item> \<open>Telemetry\<close> (\<open>src/telemetry.cpp\<close>): record, open, close, the writer loop and batch
    writing; \<open>Sqlite_Contract\<close>: what it relies on of SQLite, call by call, and what a row and a batch then
    do to the table; \<open>Telemetry_Close\<close>: why closing ends; \<open>Telemetry_Table\<close>: what is in the table then.
  \<^item> \<open>Executor_Process\<close> (\<open>src/main.cpp\<close>): the command line, the wiring of executor and sink, the
    summary lines; \<open>Process_Table\<close>: the way of a wake from the socket to its row in the database.
  \<^item> \<open>Clock\<close> (\<open>src/clock.cpp\<close>): the conversions of clock readings and the clock domain token.
  \<^item> \<open>Signer\<close> (\<open>src/signer.cpp\<close>): loading a key and signing, over OpenSSL as a parameter.
  \<^item> \<open>Poller_Client\<close>, \<open>Poller_Connect\<close> (\<open>bench/poller_client.cpp\<close>): the client's side of a wake, and
    how it connects.
  \<^item> \<open>Binary64_Bounds\<close> and \<open>Binary64_Error\<close> (bounds for rounded results and the error of a rounding), \<open>Bench_Stats\<close> (\<open>bench/percentile.cpp\<close>),
    \<open>Bench_Driver\<close> (\<open>bench/bench_main.cpp\<close>: the command line), \<open>Bench_Runs\<close> (its four benchmarks) and
    \<open>Bench_Report\<close> (its output and \<open>main\<close>).

  \<^bold>\<open>How state and operations correspond.\<close> A class is a record of its members and each method a
  function from that record to a result and the record after it. \<open>std::optional\<close> and \<open>Decoded<T>\<close> are
  option and sum values, so every early return is a branch. A loop is a recursive function with
  a termination proof; the loops that wait for the operating system recurse on a script of what
  it does (bytes that arrive, interrupted or failing calls, the stop flag, clock readings), and
  end as waiting when the script does. A theorem for all scripts is then a theorem for every finite
  part of every run; the theorems that say something is served or answered assume a script
  that delivers the bytes and conclude that it is, not only that no wrong answer is given.

  \<^bold>\<open>Interfaces.\<close> \<open>reader_op\<close> and \<open>value_op\<close> are the contract of a reader method (it moves forward
  inside the text, keeps the first error, consumes what it reads); each method interprets one of
  them. \<open>member_loop\<close> is the contract of the two object loops of the decoders. \<open>bounded_queue\<close> is
  the ring as its single-threaded users see it. \<open>build_cache\<close> is the template table. \<open>measuring\<close> is the contract
  of the benchmark's loops.

  \<^bold>\<open>What is shown.\<close>
  \<^item> The wire: encoding then decoding is the identity on every message with finite numbers and
    UTF-8 text; the decoders accept exactly the documents with known keys and every required
    key; errors name the first missing or the unknown key and are UTF-8, so they fit into an
    ack; the length prefix and its cap.
  \<^item> The JSON layer: doubles and strings read back exactly, the validator accepts exactly
    UTF-8, numbers are exactly those of the grammar, integers never wrap, buffers suffice.
  \<^item> The ring: first in, first out under every interleaving and every staleness of the index
    loads the acquire and release order allows, no race on a slot, indices may wrap around.
  \<^item> Prices: rounding half to even is exact; a snapped price is the multiple of the step that half to
    even takes from the rounded quotient, and no multiple is nearer by more than the two roundings.
  \<^item> The executor: segmentation of the stream is irrelevant; wakes are served in order; an ack is
    sent whole before its fire; a real order goes out only at a price strictly between zero and
    one and with the kill switch released; once the switch file has been there for its time to
    live, a service dispatches shadow orders only, wherever its run is cut; the counters balance; and two theorems about what the
    code does against its intent: a rejected ack above the cap, which the client refuses, and a fire at price zero.
  \<^item> The life of the server: the socket is offered only once its file is owner-only, every
    descriptor handed out is closed once, \<open>stop\<close> ends the service wherever the serving thread is
    when its stores are visible at once, and can be lost with the relaxed accesses of the code.
  \<^item> Telemetry: nothing is lost silently in any interleaving, closing drains the ring and
    ends, the table holds exactly the rows counted, every field in the column of its name.
  \<^item> The process: the executor's counters and the sink's agree when it ends, and its table holds one
    row for each wake of a subsequence of those received, all of them when nothing was dropped;
    every list of records has a run of the sink that ends (\<open>sink_run_completes\<close>).
  \<^item> Client and executor together: a wake sent is a wake accepted, acked and recorded, its order is
    dispatched unless price or kill switch forbid it, and the client gets its ack; a rejection within
    the cap can be read, too; connecting ends by its deadline and leaks no descriptor.
  \<^item> The signer: a signature returned is one over timestamp, method and path with the parameters the
    exchange demands, no path leaks a handle, and no two requests share a signed message.
  \<^item> The clock domain and the benchmark's percentiles: the token names the bucket of sixty seconds
    of the boot time in the reals, unless that is within ten microseconds of an edge, where the roundings
    can move it to the next bucket; a percentile never leaves the samples around it.
  \<^item> The benchmarks: with at least one iteration and at most \<open>2 ^ 53\<close> samples they measure exactly the iterations asked for,
    and the round trip's own check passes whenever both ends talked.

  \<^bold>\<open>Bounds.\<close> The ring's capacity is at most \<open>2 ^ 63\<close>, so that its mask and the difference of its
  indices fit the 64-bit counters; the source's capacity is 8192. A frame's length is below \<open>2 ^ 32\<close>
  where the prefix is read back, as its type demands. Clock readings are not negative where the
  kill switch subtracts them, and the passes of a run are in the order of their readings where its
  promise is followed over a whole run. A run of the process receives fewer than \<open>2 ^ 64\<close> wakes where
  the table is compared with all of them.

  \<^bold>\<open>Not modelled.\<close> The installation of signal handlers (the handler itself is a call of \<open>stop\<close>) and the
  options given to sockets beyond their failure.
  SQLite is a parameter of \<open>Telemetry\<close> and OpenSSL one of \<open>Signer\<close>; what the theorems need of them are the
  hypotheses \<open>sqlite_documented\<close> (on SQLite's own calls: bind, step, begin, commit, roll back, prepare;
  a database in memory satisfies it) and \<open>documented\<close>, which a small instance satisfies.
  Allocation never fails. The references of the template table are values.
\<close>

end
